theory Spec2Isabelle
  imports Main "HOL-Library.Word" "HOL-Library.AList"
begin

section \<open>Bytes, typed arrays and big-endian views\<close>

text \<open>
  A \<open>Uint8Array\<close> is a list of bytes.  A JavaScript number that the engine uses as a key
  or as a column value is an integer (\<open>int\<close>); offsets, sizes and page ids are natural
  numbers.  The \<open>DataView\<close> accessors are big-endian and raise \<open>RangeError\<close> when the
  access does not lie inside the buffer; the setters reduce their argument modulo the
  width of the field, as \<open>ToUint16\<close>, \<open>ToUint32\<close> and \<open>ToInt32\<close> do.
\<close>

type_synonym byte = "8 word"

datatype error =
    RangeError
  | StackOverflow
  | DuplicateKey int
  | KeyNotFound int
  | IndexPageFull
  | ColumnCountMismatch
  | ColumnNotFound string
  | InvalidPrimaryKey
  | ColumnNull string
  | InvalidType string
  | NoPrimaryKey
  | SerializeError string
  | RowNotFound
  | CannotUpdatePrimaryKey
  | TransactionActive
  | NoTransaction
  | TableExists string
  | TableNotFound string
  | PrimaryKeyNotInteger
  | TypeError

definition PAGE_SIZE :: nat where "PAGE_SIZE = 4096"
definition NODE_INTERNAL :: nat where "NODE_INTERNAL = 0"
definition NODE_LEAF :: nat where "NODE_LEAF = 1"
definition HEADER_SIZE :: nat where "HEADER_SIZE = 7"
definition OFF_TYPE :: nat where "OFF_TYPE = 0"
definition OFF_NUM_CELLS :: nat where "OFF_NUM_CELLS = 1"
definition OFF_PARENT :: nat where "OFF_PARENT = 3"

definition be_nat :: "byte list \<Rightarrow> nat" where
  "be_nat bs = foldl (\<lambda>a b. a * 256 + unat b) 0 bs"

definition be16 :: "nat \<Rightarrow> byte list" where
  "be16 v = [of_nat (v div 256), of_nat v]"

definition be32 :: "nat \<Rightarrow> byte list" where
  "be32 v = [of_nat (v div 16777216), of_nat (v div 65536), of_nat (v div 256), of_nat v]"

definition slice :: "byte list \<Rightarrow> nat \<Rightarrow> nat \<Rightarrow> byte list" where
  "slice buf start end = take (end - start) (drop start buf)"

definition set_bytes :: "byte list \<Rightarrow> byte list \<Rightarrow> nat \<Rightarrow> error + byte list" where
  "set_bytes buf src off =
     (if off + length src \<le> length buf
      then Inr (take off buf @ src @ drop (off + length src) buf)
      else Inl RangeError)"

definition getUint8 :: "byte list \<Rightarrow> nat \<Rightarrow> error + nat" where
  "getUint8 buf off =
     (if off + 1 \<le> length buf then Inr (be_nat (slice buf off (off + 1))) else Inl RangeError)"

definition getUint16 :: "byte list \<Rightarrow> nat \<Rightarrow> error + nat" where
  "getUint16 buf off =
     (if off + 2 \<le> length buf then Inr (be_nat (slice buf off (off + 2))) else Inl RangeError)"

definition getUint32 :: "byte list \<Rightarrow> nat \<Rightarrow> error + nat" where
  "getUint32 buf off =
     (if off + 4 \<le> length buf then Inr (be_nat (slice buf off (off + 4))) else Inl RangeError)"

definition getInt32 :: "byte list \<Rightarrow> nat \<Rightarrow> error + int" where
  "getInt32 buf off =
     (if off + 4 \<le> length buf
      then (let u = int (be_nat (slice buf off (off + 4)))
            in Inr (if u < 2147483648 then u else u - 4294967296))
      else Inl RangeError)"

definition setUint8 :: "byte list \<Rightarrow> nat \<Rightarrow> int \<Rightarrow> error + byte list" where
  "setUint8 buf off v = set_bytes buf [of_nat (nat (v mod 256))] off"

definition setUint16 :: "byte list \<Rightarrow> nat \<Rightarrow> int \<Rightarrow> error + byte list" where
  "setUint16 buf off v = set_bytes buf (be16 (nat (v mod 65536))) off"

definition setUint32 :: "byte list \<Rightarrow> nat \<Rightarrow> int \<Rightarrow> error + byte list" where
  "setUint32 buf off v = set_bytes buf (be32 (nat (v mod 4294967296))) off"

definition setInt32 :: "byte list \<Rightarrow> nat \<Rightarrow> int \<Rightarrow> error + byte list" where
  "setInt32 buf off v = set_bytes buf (be32 (nat (v mod 4294967296))) off"

section \<open>Text encoding helpers\<close>

text \<open>
  A JavaScript string is modelled by its sequence of code points; a surrogate code point
  in the list stands for an unpaired surrogate.  \<open>TextEncoder.encode\<close> writes UTF-8 and
  replaces an unpaired surrogate by U+FFFD.  \<open>TextDecoder.decode\<close> is the UTF-8 decoder of
  the Encoding standard: an ill-formed sequence yields U+FFFD and decoding resumes at the
  offending byte, and a leading byte order mark is dropped.
\<close>

type_synonym jsstring = "nat list"

definition utf8_encode_cp :: "nat \<Rightarrow> nat list" where
  "utf8_encode_cp c =
     (if c < 128 then [c]
      else if c < 2048 then [192 + c div 64, 128 + c mod 64]
      else if c < 65536 then
        (if 55296 \<le> c \<and> c \<le> 57343 then [239, 191, 189]
         else [224 + c div 4096, 128 + c div 64 mod 64, 128 + c mod 64])
      else if c \<le> 1114111 then
        [240 + c div 262144, 128 + c div 4096 mod 64, 128 + c div 64 mod 64, 128 + c mod 64]
      else [239, 191, 189])"

definition TextEncoder_encode :: "jsstring \<Rightarrow> byte list" where
  "TextEncoder_encode s = map of_nat (concat (map utf8_encode_cp s))"

function utf8_decode :: "nat \<Rightarrow> nat \<Rightarrow> nat \<Rightarrow> nat \<Rightarrow> byte list \<Rightarrow> jsstring" where
  "utf8_decode cp needed lo hi [] = (if needed = 0 then [] else [65533])"
| "utf8_decode cp needed lo hi (b # bs) =
     (let x = unat b in
      if needed = 0 then
        (if x \<le> 127 then x # utf8_decode 0 0 128 191 bs
         else if 194 \<le> x \<and> x \<le> 223 then utf8_decode (x mod 32) 1 128 191 bs
         else if 224 \<le> x \<and> x \<le> 239 then
           utf8_decode (x mod 16) 2 (if x = 224 then 160 else 128) (if x = 237 then 159 else 191) bs
         else if 240 \<le> x \<and> x \<le> 244 then
           utf8_decode (x mod 8) 3 (if x = 240 then 144 else 128) (if x = 244 then 143 else 191) bs
         else 65533 # utf8_decode 0 0 128 191 bs)
      else if x < lo \<or> hi < x then 65533 # utf8_decode 0 0 128 191 (b # bs)
      else if needed = 1 then (cp * 64 + x mod 64) # utf8_decode 0 0 128 191 bs
      else utf8_decode (cp * 64 + x mod 64) (needed - 1) 128 191 bs)"
  by pat_completeness auto
termination
  by (relation "measure (\<lambda>(cp, needed, lo, hi, bs). 2 * length bs + (if needed = 0 then 0 else 1))")
     auto

definition TextDecoder_decode :: "byte list \<Rightarrow> jsstring" where
  "TextDecoder_decode bs =
     (case utf8_decode 0 0 128 191 bs of
        [] \<Rightarrow> []
      | c # cs \<Rightarrow> if c = 65279 then cs else c # cs)"

definition stringToBytes :: "jsstring \<Rightarrow> byte list" where
  "stringToBytes str = TextEncoder_encode str"

definition bytesToString :: "byte list \<Rightarrow> jsstring" where
  "bytesToString bytes = filter (\<lambda>c. c \<noteq> 0) (TextDecoder_decode bytes)"

section \<open>Schemas, rows and the row codec\<close>

text \<open>
  A column value is a number or a string.  A row is an ordinary object made by \<open>{}\<close>: the
  model keeps its own properties as a finite map from names to values, and what it
  inherits from \<open>Object.prototype\<close> is written out where the code meets it.  Reading
  \<open>row[name]\<close> gives the own property if there is one and the inherited one otherwise, so
  a name such as \<open>__proto__\<close> or \<open>constructor\<close> never reads as \<open>undefined\<close>.  Writing
  \<open>row[name] = v\<close> makes an own property, except for the name \<open>__proto__\<close>, whose inherited
  setter ignores a number or a string and stores nothing.
  \<open>Number(s)\<close> applied to a string is platform code that is not part of the engine; where
  the encoder meets a string in an \<open>INTEGER\<close> column the conversion is the parameter
  \<open>num\<close>, and \<open>String(n)\<close> applied to a number in a \<open>TEXT\<close> column is the parameter \<open>str\<close>.
  \<open>prototype_names\<close> are the names of the properties of \<open>Object.prototype\<close>.  Their values
  are objects and functions, for which \<open>Number\<close> is \<open>NaN\<close>, written by \<open>setInt32\<close> as 0;
  \<open>String\<close> of such a value is platform text, the parameter \<open>inherited\<close>.
\<close>

datatype DataType = INTEGER | TEXT

datatype jsval = JNum int | JStr jsstring

record ColumnDefinition =
  col_name :: string
  col_type :: DataType
  isPrimaryKey :: bool

type_synonym Row = "string \<rightharpoonup> jsval"

record conv =
  num :: "jsstring \<Rightarrow> int"
  str :: "int \<Rightarrow> jsstring"
  inherited :: "string \<Rightarrow> jsstring"

definition prototype_names :: "string list" where
  "prototype_names =
     [''__proto__'', ''constructor'', ''hasOwnProperty'', ''isPrototypeOf'',
      ''propertyIsEnumerable'', ''toLocaleString'', ''toString'', ''valueOf'',
      ''__defineGetter__'', ''__defineSetter__'', ''__lookupGetter__'', ''__lookupSetter__'']"

definition row_assign :: "Row \<Rightarrow> string \<Rightarrow> jsval \<Rightarrow> Row" where
  "row_assign row name v =
     (if name = ''__proto__'' \<and> row name = None then row else row(name \<mapsto> v))"

definition column_bytes :: "conv \<Rightarrow> ColumnDefinition \<Rightarrow> Row \<Rightarrow> error + byte list" where
  "column_bytes cv col row =
     (case row (col_name col) of
        Some val \<Rightarrow>
          Inr (if col_type col = INTEGER
               then be32 (nat ((case val of JNum n \<Rightarrow> n | JStr s \<Rightarrow> num cv s) mod 4294967296))
               else stringToBytes (case val of JStr s \<Rightarrow> s | JNum n \<Rightarrow> str cv n))
      | None \<Rightarrow>
          if col_name col \<in> set prototype_names
          then Inr (if col_type col = INTEGER then be32 0
                    else stringToBytes (inherited cv (col_name col)))
          else Inl (SerializeError (col_name col)))"

fun serializeRow_parts ::
  "conv \<Rightarrow> ColumnDefinition list \<Rightarrow> Row \<Rightarrow> byte list \<Rightarrow> error + byte list" where
  "serializeRow_parts cv [] row parts = Inr parts"
| "serializeRow_parts cv (col # cols) row parts =
     (case column_bytes cv col row of
        Inl e \<Rightarrow> Inl e
      | Inr bytes \<Rightarrow>
          (let lenPart = be16 (length bytes mod 65536)
           in serializeRow_parts cv cols row (parts @ lenPart @ bytes)))"

definition serializeRow :: "conv \<Rightarrow> ColumnDefinition list \<Rightarrow> Row \<Rightarrow> error + byte list" where
  "serializeRow cv cols row = serializeRow_parts cv cols row []"

fun deserializeRow_cols ::
  "ColumnDefinition list \<Rightarrow> byte list \<Rightarrow> nat \<Rightarrow> Row \<Rightarrow> error + Row" where
  "deserializeRow_cols [] data offset row = Inr row"
| "deserializeRow_cols (col # cols) data offset row =
     (if offset + 2 > length data then deserializeRow_cols cols data offset row
      else
        (case getUint16 data offset of
           Inl e \<Rightarrow> Inl e
         | Inr len \<Rightarrow>
             (let offset1 = offset + 2 in
              if offset1 + len > length data then deserializeRow_cols cols data offset1 row
              else if col_type col = INTEGER then
                (case getInt32 data offset1 of
                   Inl e \<Rightarrow> Inl e
                 | Inr val \<Rightarrow>
                     deserializeRow_cols cols data (offset1 + len)
                       (row_assign row (col_name col) (JNum val)))
              else
                deserializeRow_cols cols data (offset1 + len)
                  (row_assign row (col_name col)
                     (JStr (bytesToString (slice data offset1 (offset1 + len))))))))"

definition deserializeRow :: "ColumnDefinition list \<Rightarrow> byte list \<Rightarrow> error + Row" where
  "deserializeRow cols data =
     (if length data = 0 then Inr Map.empty else deserializeRow_cols cols data 0 Map.empty)"

section \<open>The virtual disk\<close>

text \<open>
  The block device is the browser's \<open>localStorage\<close>: one entry per page (the bytes of the
  page; the Base64 text encoding is a bijection and is left out), the entry \<open>meta\<close> with
  the persisted \<open>maxPageId\<close>, and one entry per metadata key.  The virtual disk adds the
  page cache, the allocation counter and the two transaction buffers, which are
  JavaScript \<open>Map\<close>s iterated in insertion order and are modelled as association lists.
\<close>

record TableSchema =
  ts_name :: string
  columns :: "ColumnDefinition list"
  pkColumn :: string
  seq :: "int option"

record TableMeta = TableSchema +
  tm_rootPageId :: nat

datatype meta_value = MetaNum nat | MetaTables "TableMeta list"

record LocalStorage =
  ls_page :: "nat \<rightharpoonup> byte list"
  ls_maxPageId :: "nat option"
  ls_meta :: "string \<rightharpoonup> meta_value"

record VirtualDisk =
  storage :: LocalStorage
  pages :: "nat \<rightharpoonup> byte list"
  maxPageId :: nat
  transactionBuffer :: "(nat \<times> byte list) list option"
  metaBuffer :: "(string \<times> meta_value) list option"

definition zero_page :: "byte list" where
  "zero_page = replicate PAGE_SIZE 0"

definition load :: "VirtualDisk \<Rightarrow> VirtualDisk" where
  "load d = (case ls_maxPageId (storage d) of None \<Rightarrow> d | Some m \<Rightarrow> d\<lparr>maxPageId := m\<rparr>)"

definition new_VirtualDisk :: "LocalStorage \<Rightarrow> VirtualDisk" where
  "new_VirtualDisk ls =
     load \<lparr>storage = ls, pages = Map.empty, maxPageId = 0,
           transactionBuffer = None, metaBuffer = None\<rparr>"

definition refresh :: "VirtualDisk \<Rightarrow> VirtualDisk" where
  "refresh d = load (d\<lparr>pages := Map.empty, transactionBuffer := None, metaBuffer := None\<rparr>)"

definition readPage :: "VirtualDisk \<Rightarrow> nat \<Rightarrow> byte list \<times> VirtualDisk" where
  "readPage d pageId =
     (case (case transactionBuffer d of None \<Rightarrow> None | Some tb \<Rightarrow> map_of tb pageId) of
        Some data \<Rightarrow> (data, d)
      | None \<Rightarrow>
          (case pages d pageId of
             Some data \<Rightarrow> (data, d)
           | None \<Rightarrow>
               (case ls_page (storage d) pageId of
                  None \<Rightarrow> (zero_page, d)
                | Some bytes \<Rightarrow>
                    if bytes = [] then (zero_page, d)
                    else (bytes, d\<lparr>pages := (pages d)(pageId \<mapsto> bytes)\<rparr>))))"

definition saveMeta :: "VirtualDisk \<Rightarrow> VirtualDisk" where
  "saveMeta d = d\<lparr>storage := (storage d)\<lparr>ls_maxPageId := Some (maxPageId d)\<rparr>\<rparr>"

definition writeToDisk :: "VirtualDisk \<Rightarrow> nat \<Rightarrow> byte list \<Rightarrow> VirtualDisk" where
  "writeToDisk d pageId data =
     (let d1 = d\<lparr>pages := (pages d)(pageId \<mapsto> data),
                  storage := (storage d)\<lparr>ls_page := (ls_page (storage d))(pageId \<mapsto> data)\<rparr>\<rparr>
      in if pageId > maxPageId d1 then saveMeta (d1\<lparr>maxPageId := pageId\<rparr>) else d1)"

definition writePage :: "VirtualDisk \<Rightarrow> nat \<Rightarrow> byte list \<Rightarrow> VirtualDisk" where
  "writePage d pageId data =
     (case transactionBuffer d of
        Some tb \<Rightarrow> d\<lparr>transactionBuffer := Some (AList.update pageId data tb)\<rparr>
      | None \<Rightarrow> writeToDisk d pageId data)"

definition allocatePage :: "VirtualDisk \<Rightarrow> nat \<times> VirtualDisk" where
  "allocatePage d =
     (let d1 = d\<lparr>maxPageId := maxPageId d + 1\<rparr>;
          d2 = (if transactionBuffer d1 = None then saveMeta d1 else d1)
      in (maxPageId d2, d2))"

definition getMetadata :: "VirtualDisk \<Rightarrow> string \<Rightarrow> meta_value option" where
  "getMetadata d key =
     (case (case metaBuffer d of None \<Rightarrow> None | Some mb \<Rightarrow> map_of mb key) of
        Some v \<Rightarrow> Some v
      | None \<Rightarrow> ls_meta (storage d) key)"

definition setMetadata :: "VirtualDisk \<Rightarrow> string \<Rightarrow> meta_value \<Rightarrow> VirtualDisk" where
  "setMetadata d key v =
     (case metaBuffer d of
        Some mb \<Rightarrow> d\<lparr>metaBuffer := Some (AList.update key v mb)\<rparr>
      | None \<Rightarrow> d\<lparr>storage := (storage d)\<lparr>ls_meta := (ls_meta (storage d))(key \<mapsto> v)\<rparr>\<rparr>)"

definition beginTransaction :: "VirtualDisk \<Rightarrow> error + VirtualDisk" where
  "beginTransaction d =
     (if transactionBuffer d \<noteq> None then Inl TransactionActive
      else Inr (d\<lparr>transactionBuffer := Some [], metaBuffer := Some []\<rparr>))"

definition commit :: "VirtualDisk \<Rightarrow> error + VirtualDisk" where
  "commit d =
     (case transactionBuffer d of
        None \<Rightarrow> Inl NoTransaction
      | Some tb \<Rightarrow>
          (let d1 = fold (\<lambda>(pageId, data) acc. writeToDisk acc pageId data) tb d in
           case metaBuffer d1 of
             None \<Rightarrow> Inl TypeError
           | Some mb \<Rightarrow>
               (let d2 = fold (\<lambda>(key, v) acc.
                            acc\<lparr>storage := (storage acc)\<lparr>ls_meta := (ls_meta (storage acc))(key \<mapsto> v)\<rparr>\<rparr>)
                          mb d1;
                    d3 = saveMeta d2
                in Inr (d3\<lparr>transactionBuffer := None, metaBuffer := None\<rparr>))))"

definition rollback :: "VirtualDisk \<Rightarrow> error + VirtualDisk" where
  "rollback d =
     (if transactionBuffer d = None then Inl NoTransaction
      else Inr (load (d\<lparr>transactionBuffer := None, metaBuffer := None, pages := Map.empty\<rparr>)))"

definition reset :: "VirtualDisk \<Rightarrow> VirtualDisk" where
  "reset d =
     \<lparr>storage = \<lparr>ls_page = Map.empty, ls_maxPageId = None, ls_meta = Map.empty\<rparr>,
      pages = Map.empty, maxPageId = 0, transactionBuffer = None, metaBuffer = None\<rparr>"

text \<open>
  \<open>readPage\<close> hands out the buffer object that the transaction buffer or the cache holds;
  a caller that writes through a view of it changes that object in place.  \<open>poke\<close> is
  this in-place change, seen from the disk.
\<close>

definition poke :: "VirtualDisk \<Rightarrow> nat \<Rightarrow> byte list \<Rightarrow> VirtualDisk" where
  "poke d pageId data =
     (case (case transactionBuffer d of None \<Rightarrow> None | Some tb \<Rightarrow> map_of tb pageId) of
        Some old \<Rightarrow> d\<lparr>transactionBuffer := map_option (AList.update pageId data) (transactionBuffer d)\<rparr>
      | None \<Rightarrow>
          (case pages d pageId of
             Some old \<Rightarrow> d\<lparr>pages := (pages d)(pageId \<mapsto> data)\<rparr>
           | None \<Rightarrow> d))"

section \<open>The B-tree\<close>

text \<open>
  A B-tree object holds a reference to the shared disk and its own \<open>rootPageId\<close>; the
  model passes both as one state.  An operation returns its result, or the error it
  raised, together with the state at that moment: a raised error does not undo the page
  writes that went before it.  The recursion from page to page runs on the call stack;
  \<open>depth\<close> is the number of stack frames available, and a deeper recursion raises
  \<open>StackOverflow\<close> as the JavaScript engine does.  A cell is a key and its payload.
\<close>

record BTree =
  disk :: VirtualDisk
  rootPageId :: nat

type_synonym cell = "int \<times> byte list"

definition ebind :: "error + 'a \<Rightarrow> ('a \<Rightarrow> error + 'b) \<Rightarrow> error + 'b" where
  "ebind m f = (case m of Inl e \<Rightarrow> Inl e | Inr x \<Rightarrow> f x)"

definition new_BTree :: "VirtualDisk \<Rightarrow> nat \<Rightarrow> (error + unit) \<times> BTree" where
  "new_BTree d rootPageId' =
     (let (rootPage, d1) = readPage d rootPageId' in
      if 4 \<le> length rootPage \<and> take 4 rootPage = [0, 0, 0, 0] then
        (case setUint8 rootPage OFF_TYPE (int NODE_LEAF) of
           Inl e \<Rightarrow> (Inl e, \<lparr>disk = d1, rootPageId = rootPageId'\<rparr>)
         | Inr p1 \<Rightarrow>
             (case setUint16 p1 OFF_NUM_CELLS 0 of
                Inl e \<Rightarrow> (Inl e, \<lparr>disk = poke d1 rootPageId' p1, rootPageId = rootPageId'\<rparr>)
              | Inr p2 \<Rightarrow>
                  (case setUint32 p2 OFF_PARENT 0 of
                     Inl e \<Rightarrow> (Inl e, \<lparr>disk = poke d1 rootPageId' p2, rootPageId = rootPageId'\<rparr>)
                   | Inr p3 \<Rightarrow>
                       (Inr (), \<lparr>disk = writePage (poke d1 rootPageId' p3) rootPageId' p3,
                                 rootPageId = rootPageId'\<rparr>))))
      else (Inr (), \<lparr>disk = d1, rootPageId = rootPageId'\<rparr>))"

fun findMax_leaf :: "byte list \<Rightarrow> nat \<Rightarrow> nat \<Rightarrow> nat \<Rightarrow> error + nat" where
  "findMax_leaf page offset 0 maxK = Inr maxK"
| "findMax_leaf page offset (Suc n) maxK =
     (case getUint32 page offset of
        Inl e \<Rightarrow> Inl e
      | Inr k \<Rightarrow>
          (case getUint32 page (offset + 4) of
             Inl e \<Rightarrow> Inl e
           | Inr s \<Rightarrow> findMax_leaf page (offset + 4 + (4 + s)) n k))"

fun findMax_internal :: "byte list \<Rightarrow> nat \<Rightarrow> nat \<Rightarrow> nat \<Rightarrow> error + nat" where
  "findMax_internal page offset 0 rightChildId = Inr rightChildId"
| "findMax_internal page offset (Suc n) rightChildId =
     (case getUint32 page (offset + 4) of
        Inl e \<Rightarrow> Inl e
      | Inr p \<Rightarrow> findMax_internal page (offset + 4 + 4) n p)"

fun findMaxInPage :: "nat \<Rightarrow> VirtualDisk \<Rightarrow> nat \<Rightarrow> (error + nat) \<times> VirtualDisk" where
  "findMaxInPage 0 d pageId = (Inl StackOverflow, d)"
| "findMaxInPage (Suc depth) d pageId =
     (let (page, d1) = readPage d pageId in
      case getUint8 page OFF_TYPE of
        Inl e \<Rightarrow> (Inl e, d1)
      | Inr type \<Rightarrow>
          (case getUint16 page OFF_NUM_CELLS of
             Inl e \<Rightarrow> (Inl e, d1)
           | Inr numCells \<Rightarrow>
               if numCells = 0 then (Inr 0, d1)
               else if type = NODE_LEAF then (findMax_leaf page HEADER_SIZE numCells 0, d1)
               else
                 (case getUint32 page HEADER_SIZE of
                    Inl e \<Rightarrow> (Inl e, d1)
                  | Inr p0 \<Rightarrow>
                      (case findMax_internal page (HEADER_SIZE + 4) numCells p0 of
                         Inl e \<Rightarrow> (Inl e, d1)
                       | Inr rightChildId \<Rightarrow> findMaxInPage depth d1 rightChildId))))"

definition getMaxKey :: "nat \<Rightarrow> BTree \<Rightarrow> (error + nat) \<times> BTree" where
  "getMaxKey depth t =
     (let (r, d1) = findMaxInPage depth (disk t) (rootPageId t) in (r, t\<lparr>disk := d1\<rparr>))"

fun read_cells :: "byte list \<Rightarrow> nat \<Rightarrow> nat \<Rightarrow> cell list \<Rightarrow> error + cell list" where
  "read_cells page offset 0 results = Inr results"
| "read_cells page offset (Suc n) results =
     (case getUint32 page offset of
        Inl e \<Rightarrow> Inl e
      | Inr k \<Rightarrow>
          (case getUint32 page (offset + 4) of
             Inl e \<Rightarrow> Inl e
           | Inr sz \<Rightarrow>
               read_cells page (offset + 4 + 4 + sz) n
                 (results @ [(int k, slice page (offset + 4 + 4) (offset + 4 + 4 + sz))])))"

fun traverse :: "nat \<Rightarrow> VirtualDisk \<Rightarrow> nat \<Rightarrow> (error + cell list) \<times> VirtualDisk"
  and traverse_children ::
    "nat \<Rightarrow> VirtualDisk \<Rightarrow> byte list \<Rightarrow> nat \<Rightarrow> nat \<Rightarrow> cell list \<Rightarrow> (error + cell list) \<times> VirtualDisk"
  where
  "traverse 0 d pageId = (Inl StackOverflow, d)"
| "traverse (Suc depth) d pageId =
     (let (page, d1) = readPage d pageId in
      if length page = 0 then (Inr [], d1)
      else
        (case getUint8 page OFF_TYPE of
           Inl e \<Rightarrow> (Inl e, d1)
         | Inr type \<Rightarrow>
             (case getUint16 page OFF_NUM_CELLS of
                Inl e \<Rightarrow> (Inl e, d1)
              | Inr numCells \<Rightarrow>
                  if type = NODE_LEAF then (read_cells page HEADER_SIZE numCells [], d1)
                  else
                    (case getUint32 page HEADER_SIZE of
                       Inl e \<Rightarrow> (Inl e, d1)
                     | Inr p0 \<Rightarrow>
                         (case traverse depth d1 p0 of
                            (Inl e, d2) \<Rightarrow> (Inl e, d2)
                          | (Inr r0, d2) \<Rightarrow>
                              traverse_children depth d2 page (HEADER_SIZE + 4) numCells r0)))))"
| "traverse_children depth d page offset 0 results = (Inr results, d)"
| "traverse_children depth d page offset (Suc n) results =
     (case getUint32 page (offset + 4) of
        Inl e \<Rightarrow> (Inl e, d)
      | Inr p \<Rightarrow>
          (case traverse depth d p of
             (Inl e, d1) \<Rightarrow> (Inl e, d1)
           | (Inr r, d1) \<Rightarrow> traverse_children depth d1 page (offset + 4 + 4) n (results @ r)))"

definition getAll :: "nat \<Rightarrow> BTree \<Rightarrow> (error + cell list) \<times> BTree" where
  "getAll depth t =
     (let (r, d1) = traverse depth (disk t) (rootPageId t) in (r, t\<lparr>disk := d1\<rparr>))"

fun findLeaf_child :: "byte list \<Rightarrow> int \<Rightarrow> nat \<Rightarrow> nat \<Rightarrow> nat \<Rightarrow> error + nat" where
  "findLeaf_child page key offset 0 childPageId = Inr childPageId"
| "findLeaf_child page key offset (Suc n) childPageId =
     (case getUint32 page offset of
        Inl e \<Rightarrow> Inl e
      | Inr cellKey \<Rightarrow>
          (case getUint32 page (offset + 4) of
             Inl e \<Rightarrow> Inl e
           | Inr rightChildId \<Rightarrow>
               if key < int cellKey then Inr childPageId
               else findLeaf_child page key (offset + 4 + 4) n rightChildId))"

fun findLeafPage :: "nat \<Rightarrow> VirtualDisk \<Rightarrow> nat \<Rightarrow> int \<Rightarrow> (error + nat) \<times> VirtualDisk" where
  "findLeafPage 0 d pageId key = (Inl StackOverflow, d)"
| "findLeafPage (Suc depth) d pageId key =
     (let (page, d1) = readPage d pageId in
      case getUint8 page OFF_TYPE of
        Inl e \<Rightarrow> (Inl e, d1)
      | Inr type \<Rightarrow>
          if type = NODE_LEAF then (Inr pageId, d1)
          else
            (case getUint16 page OFF_NUM_CELLS of
               Inl e \<Rightarrow> (Inl e, d1)
             | Inr numCells \<Rightarrow>
                 (case getUint32 page HEADER_SIZE of
                    Inl e \<Rightarrow> (Inl e, d1)
                  | Inr p0 \<Rightarrow>
                      (case findLeaf_child page key (HEADER_SIZE + 4) numCells p0 of
                         Inl e \<Rightarrow> (Inl e, d1)
                       | Inr childPageId \<Rightarrow> findLeafPage depth d1 childPageId key))))"

fun findInLeaf_cells :: "byte list \<Rightarrow> int \<Rightarrow> nat \<Rightarrow> nat \<Rightarrow> error + byte list option" where
  "findInLeaf_cells page key offset 0 = Inr None"
| "findInLeaf_cells page key offset (Suc n) =
     (case getUint32 page offset of
        Inl e \<Rightarrow> Inl e
      | Inr cellKey \<Rightarrow>
          (case getUint32 page (offset + 4) of
             Inl e \<Rightarrow> Inl e
           | Inr dataSize \<Rightarrow>
               if int cellKey = key
               then Inr (Some (slice page (offset + 4 + 4) (offset + 4 + 4 + dataSize)))
               else findInLeaf_cells page key (offset + 4 + 4 + dataSize) n))"

definition findInLeaf :: "VirtualDisk \<Rightarrow> nat \<Rightarrow> int \<Rightarrow> (error + byte list option) \<times> VirtualDisk" where
  "findInLeaf d pageId key =
     (let (page, d1) = readPage d pageId in
      case getUint16 page OFF_NUM_CELLS of
        Inl e \<Rightarrow> (Inl e, d1)
      | Inr numCells \<Rightarrow> (findInLeaf_cells page key HEADER_SIZE numCells, d1))"

definition search :: "nat \<Rightarrow> BTree \<Rightarrow> int \<Rightarrow> (error + byte list option) \<times> BTree" where
  "search depth t key =
     (case findLeafPage depth (disk t) (rootPageId t) key of
        (Inl e, d1) \<Rightarrow> (Inl e, t\<lparr>disk := d1\<rparr>)
      | (Inr leafPageId, d1) \<Rightarrow>
          (let (r, d2) = findInLeaf d1 leafPageId key in (r, t\<lparr>disk := d2\<rparr>)))"

text \<open>
  The writers build the new page in a fresh zero-filled buffer and hand it to the disk at
  the end, so an error raised while the buffer is filled leaves the disk as it was.
\<close>

fun write_cells :: "byte list \<Rightarrow> nat \<Rightarrow> cell list \<Rightarrow> error + byte list" where
  "write_cells page offset [] = Inr page"
| "write_cells page offset (c # cs) =
     ebind (setUint32 page offset (fst c)) (\<lambda>p1.
     ebind (setUint32 p1 (offset + 4) (int (length (snd c)))) (\<lambda>p2.
     ebind (set_bytes p2 (snd c) (offset + 4 + 4)) (\<lambda>p3.
       write_cells p3 (offset + 4 + 4 + length (snd c)) cs)))"

definition leaf_page_of :: "cell list \<Rightarrow> error + byte list" where
  "leaf_page_of cells =
     ebind (setUint8 zero_page OFF_TYPE (int NODE_LEAF)) (\<lambda>p1.
     ebind (setUint16 p1 OFF_NUM_CELLS (int (length cells))) (\<lambda>p2.
       write_cells p2 HEADER_SIZE cells))"

definition writeCellsToLeaf :: "VirtualDisk \<Rightarrow> nat \<Rightarrow> cell list \<Rightarrow> (error + unit) \<times> VirtualDisk" where
  "writeCellsToLeaf d pageId cells =
     (case leaf_page_of cells of
        Inl e \<Rightarrow> (Inl e, d)
      | Inr page \<Rightarrow> (Inr (), writePage d pageId page))"

definition root_page_of :: "int \<Rightarrow> nat \<Rightarrow> nat \<Rightarrow> error + byte list" where
  "root_page_of key leftChildId rightChildId =
     ebind (setUint8 zero_page OFF_TYPE (int NODE_INTERNAL)) (\<lambda>p1.
     ebind (setUint16 p1 OFF_NUM_CELLS 1) (\<lambda>p2.
     ebind (setUint32 p2 OFF_PARENT 0) (\<lambda>p3.
     ebind (setUint32 p3 HEADER_SIZE (int leftChildId)) (\<lambda>p4.
     ebind (setUint32 p4 (HEADER_SIZE + 4) key) (\<lambda>p5.
       setUint32 p5 (HEADER_SIZE + 4 + 4) (int rightChildId))))))"

definition createGenericRoot :: "BTree \<Rightarrow> int \<Rightarrow> nat \<Rightarrow> nat \<Rightarrow> (error + unit) \<times> BTree" where
  "createGenericRoot t key leftChildId rightChildId =
     (let (newRootId, d1) = allocatePage (disk t) in
      case root_page_of key leftChildId rightChildId of
        Inl e \<Rightarrow> (Inl e, t\<lparr>disk := d1\<rparr>)
      | Inr newRoot \<Rightarrow>
          (Inr (), \<lparr>disk = setMetadata (writePage d1 newRootId newRoot) ''root'' (MetaNum newRootId),
                    rootPageId = newRootId\<rparr>))"

fun read_items :: "byte list \<Rightarrow> nat \<Rightarrow> nat \<Rightarrow> (int \<times> nat) list \<Rightarrow> error + (int \<times> nat) list" where
  "read_items page offset 0 items = Inr items"
| "read_items page offset (Suc n) items =
     (case getUint32 page offset of
        Inl e \<Rightarrow> Inl e
      | Inr k \<Rightarrow>
          (case getUint32 page (offset + 4) of
             Inl e \<Rightarrow> Inl e
           | Inr p \<Rightarrow> read_items page (offset + 4 + 4) n (items @ [(int k, p)])))"

fun write_items :: "byte list \<Rightarrow> nat \<Rightarrow> (int \<times> nat) list \<Rightarrow> error + byte list" where
  "write_items page offset [] = Inr page"
| "write_items page offset (item # items) =
     ebind (setUint32 page offset (fst item)) (\<lambda>p1.
     ebind (setUint32 p1 (offset + 4) (int (snd item))) (\<lambda>p2.
       write_items p2 (offset + 4 + 4) items))"

definition internal_page_of :: "byte list \<Rightarrow> nat \<Rightarrow> (int \<times> nat) list \<Rightarrow> error + byte list" where
  "internal_page_of page p0 items =
     ebind (setUint8 zero_page OFF_TYPE (int NODE_INTERNAL)) (\<lambda>p1.
     ebind (setUint16 p1 OFF_NUM_CELLS (int (length items))) (\<lambda>p2.
     ebind (getUint32 page OFF_PARENT) (\<lambda>parent.
     ebind (setUint32 p2 OFF_PARENT (int parent)) (\<lambda>p3.
     ebind (setUint32 p3 HEADER_SIZE (int p0)) (\<lambda>p4.
       write_items p4 (HEADER_SIZE + 4) items)))))"

definition insertIntoInternal ::
  "VirtualDisk \<Rightarrow> nat \<Rightarrow> int \<Rightarrow> nat \<Rightarrow> (error + unit) \<times> VirtualDisk" where
  "insertIntoInternal d pageId key rightChildId =
     (let (page, d1) = readPage d pageId in
      case getUint16 page OFF_NUM_CELLS of
        Inl e \<Rightarrow> (Inl e, d1)
      | Inr numCells \<Rightarrow>
          if numCells \<ge> 100 then (Inl IndexPageFull, d1)
          else
            (case getUint32 page HEADER_SIZE of
               Inl e \<Rightarrow> (Inl e, d1)
             | Inr p0 \<Rightarrow>
                 (case read_items page (HEADER_SIZE + 4) numCells [] of
                    Inl e \<Rightarrow> (Inl e, d1)
                  | Inr items0 \<Rightarrow>
                      (let items = sort_key fst (items0 @ [(key, rightChildId)]) in
                       case internal_page_of page p0 items of
                         Inl e \<Rightarrow> (Inl e, d1)
                       | Inr newPage \<Rightarrow> (Inr (), writePage d1 pageId newPage)))))"

text \<open>
  In \<open>splitLeaf\<close> the list \<open>cells\<close> holds the new cell, so \<open>midIndex\<close>, half its length
  rounded down, is a valid index.
\<close>

definition splitLeaf :: "BTree \<Rightarrow> nat \<Rightarrow> int \<Rightarrow> byte list \<Rightarrow> (error + unit) \<times> BTree" where
  "splitLeaf t pageId key val =
     (let (page, d1) = readPage (disk t) pageId in
      case getUint16 page OFF_NUM_CELLS of
        Inl e \<Rightarrow> (Inl e, t\<lparr>disk := d1\<rparr>)
      | Inr numCells \<Rightarrow>
          (case read_cells page HEADER_SIZE numCells [] of
             Inl e \<Rightarrow> (Inl e, t\<lparr>disk := d1\<rparr>)
           | Inr cells0 \<Rightarrow>
               (let cells = sort_key fst (cells0 @ [(key, val)]);
                    (newPageId, d2) = allocatePage d1;
                    midIndex = length cells div 2;
                    splitKey = fst (cells ! midIndex);
                    leftCells = take midIndex cells
                in case writeCellsToLeaf d2 pageId leftCells of
                     (Inl e, d3) \<Rightarrow> (Inl e, t\<lparr>disk := d3\<rparr>)
                   | (Inr u, d3) \<Rightarrow>
                       (let rightCells = drop midIndex cells in
                        case writeCellsToLeaf d3 newPageId rightCells of
                          (Inl e, d4) \<Rightarrow> (Inl e, t\<lparr>disk := d4\<rparr>)
                        | (Inr u', d4) \<Rightarrow>
                            (case getUint32 page OFF_PARENT of
                               Inl e \<Rightarrow> (Inl e, t\<lparr>disk := d4\<rparr>)
                             | Inr parentPtr \<Rightarrow>
                                 if pageId = rootPageId t
                                 then createGenericRoot (t\<lparr>disk := d4\<rparr>) splitKey pageId newPageId
                                 else
                                   (let (r, d5) = insertIntoInternal d4 parentPtr splitKey newPageId
                                    in (r, t\<lparr>disk := d5\<rparr>)))))))"

fun insertIntoLeaf_scan ::
  "byte list \<Rightarrow> int \<Rightarrow> nat \<Rightarrow> nat \<Rightarrow> nat \<Rightarrow> nat \<Rightarrow> bool \<Rightarrow> error + nat \<times> nat" where
  "insertIntoLeaf_scan page key i 0 offset insertIndex found = Inr (insertIndex, offset)"
| "insertIntoLeaf_scan page key i (Suc n) offset insertIndex found =
     (case getUint32 page offset of
        Inl e \<Rightarrow> Inl e
      | Inr cKey \<Rightarrow>
          if int cKey = key then Inl (DuplicateKey key)
          else
            (let (insertIndex', found') =
                   (if \<not> found \<and> int cKey > key then (i, True) else (insertIndex, found))
             in case getUint32 page (offset + 4) of
                  Inl e \<Rightarrow> Inl e
                | Inr sz \<Rightarrow>
                    insertIntoLeaf_scan page key (i + 1) n (offset + 4 + (4 + sz))
                      insertIndex' found'))"

fun copy_cells ::
  "byte list \<Rightarrow> byte list \<Rightarrow> nat \<Rightarrow> nat \<Rightarrow> nat \<Rightarrow> error + byte list \<times> nat \<times> nat" where
  "copy_cells page newPage srcOffset dstOffset 0 = Inr (newPage, srcOffset, dstOffset)"
| "copy_cells page newPage srcOffset dstOffset (Suc n) =
     ebind (getUint32 page srcOffset) (\<lambda>k.
     ebind (getUint32 page (srcOffset + 4)) (\<lambda>s.
     ebind (setUint32 newPage dstOffset (int k)) (\<lambda>p1.
     ebind (setUint32 p1 (dstOffset + 4) (int s)) (\<lambda>p2.
     ebind (set_bytes p2 (slice page (srcOffset + 4 + 4) (srcOffset + 4 + 4 + s)) (dstOffset + 4 + 4))
       (\<lambda>p3. copy_cells page p3 (srcOffset + 4 + 4 + s) (dstOffset + 4 + 4 + s) n)))))"

definition leaf_page_insert ::
  "byte list \<Rightarrow> nat \<Rightarrow> nat \<Rightarrow> int \<Rightarrow> byte list \<Rightarrow> error + byte list" where
  "leaf_page_insert page numCells insertIndex key val =
     ebind (set_bytes zero_page (slice page 0 HEADER_SIZE) 0) (\<lambda>p0.
     ebind (setUint16 p0 OFF_NUM_CELLS (int numCells + 1)) (\<lambda>p1.
     ebind (copy_cells page p1 HEADER_SIZE HEADER_SIZE insertIndex) (\<lambda>(p2, srcOffset, dstOffset).
     ebind (setUint32 p2 dstOffset key) (\<lambda>p3.
     ebind (setUint32 p3 (dstOffset + 4) (int (length val))) (\<lambda>p4.
     ebind (set_bytes p4 val (dstOffset + 4 + 4)) (\<lambda>p5.
     ebind (copy_cells page p5 srcOffset (dstOffset + 4 + 4 + length val) (numCells - insertIndex))
       (\<lambda>(p6, srcOffset', dstOffset'). Inr p6)))))))"

definition insertIntoLeaf :: "BTree \<Rightarrow> nat \<Rightarrow> int \<Rightarrow> byte list \<Rightarrow> (error + unit) \<times> BTree" where
  "insertIntoLeaf t pageId key val =
     (let (page, d1) = readPage (disk t) pageId; t1 = t\<lparr>disk := d1\<rparr> in
      case getUint16 page OFF_NUM_CELLS of
        Inl e \<Rightarrow> (Inl e, t1)
      | Inr numCells \<Rightarrow>
          (let spaceNeeded = 8 + length val in
           case insertIntoLeaf_scan page key 0 numCells HEADER_SIZE numCells False of
             Inl e \<Rightarrow> (Inl e, t1)
           | Inr (insertIndex, currentSize) \<Rightarrow>
               if currentSize + spaceNeeded > PAGE_SIZE then splitLeaf t1 pageId key val
               else
                 (case leaf_page_insert page numCells insertIndex key val of
                    Inl e \<Rightarrow> (Inl e, t1)
                  | Inr newPage \<Rightarrow> (Inr (), t1\<lparr>disk := writePage d1 pageId newPage\<rparr>))))"

definition BTree_insert :: "nat \<Rightarrow> BTree \<Rightarrow> int \<Rightarrow> byte list \<Rightarrow> (error + unit) \<times> BTree" where
  "BTree_insert depth t key val =
     (case findLeafPage depth (disk t) (rootPageId t) key of
        (Inl e, d1) \<Rightarrow> (Inl e, t\<lparr>disk := d1\<rparr>)
      | (Inr leafPageId, d1) \<Rightarrow> insertIntoLeaf (t\<lparr>disk := d1\<rparr>) leafPageId key val)"

fun delete_cells ::
  "byte list \<Rightarrow> byte list \<Rightarrow> int \<Rightarrow> nat \<Rightarrow> nat \<Rightarrow> nat \<Rightarrow> bool \<Rightarrow> nat
     \<Rightarrow> error + byte list \<times> bool \<times> nat" where
  "delete_cells page newPage key srcOffset dstOffset 0 found newCount =
     Inr (newPage, found, newCount)"
| "delete_cells page newPage key srcOffset dstOffset (Suc n) found newCount =
     ebind (getUint32 page srcOffset) (\<lambda>k.
     ebind (getUint32 page (srcOffset + 4)) (\<lambda>s.
       if int k = key
       then delete_cells page newPage key (srcOffset + 4 + 4 + s) dstOffset n True newCount
       else
         ebind (setUint32 newPage dstOffset (int k)) (\<lambda>p1.
         ebind (setUint32 p1 (dstOffset + 4) (int s)) (\<lambda>p2.
         ebind (set_bytes p2 (slice page (srcOffset + 4 + 4) (srcOffset + 4 + 4 + s))
                  (dstOffset + 4 + 4)) (\<lambda>p3.
           delete_cells page p3 key (srcOffset + 4 + 4 + s) (dstOffset + 4 + 4 + s) n found
             (newCount + 1))))))"

definition BTree_delete :: "nat \<Rightarrow> BTree \<Rightarrow> int \<Rightarrow> (error + unit) \<times> BTree" where
  "BTree_delete depth t key =
     (case findLeafPage depth (disk t) (rootPageId t) key of
        (Inl e, d1) \<Rightarrow> (Inl e, t\<lparr>disk := d1\<rparr>)
      | (Inr leafId, d1) \<Rightarrow>
          (let (page, d2) = readPage d1 leafId; t2 = t\<lparr>disk := d2\<rparr> in
           case getUint16 page OFF_NUM_CELLS of
             Inl e \<Rightarrow> (Inl e, t2)
           | Inr numCells \<Rightarrow>
               (case ebind (setUint8 zero_page OFF_TYPE (int NODE_LEAF)) (\<lambda>p0.
                       delete_cells page p0 key HEADER_SIZE HEADER_SIZE numCells False 0) of
                  Inl e \<Rightarrow> (Inl e, t2)
                | Inr (p1, found, newCount) \<Rightarrow>
                    if found then
                      (case ebind (setUint16 p1 OFF_NUM_CELLS (int newCount)) (\<lambda>p2.
                              ebind (getUint32 page OFF_PARENT) (\<lambda>parent.
                                setUint32 p2 OFF_PARENT (int parent))) of
                         Inl e \<Rightarrow> (Inl e, t2)
                       | Inr newPage \<Rightarrow> (Inr (), t2\<lparr>disk := writePage d2 leafId newPage\<rparr>))
                    else (Inl (KeyNotFound key), t2))))"

section \<open>Properties of the byte views\<close>

lemma unat_byte: "x < 256 \<Longrightarrow> unat (of_nat x :: byte) = x"
  by (subst unat_of_nat) simp

lemma mod_shift: "k mod n = 0 \<Longrightarrow> x < n \<Longrightarrow> (k + x) mod n = (x::nat)"
  by (metis add_0 mod_add_left_eq mod_less)

lemma length_be16 [simp]: "length (be16 v) = 2"
  by (simp add: be16_def)

lemma length_be32 [simp]: "length (be32 v) = 4"
  by (simp add: be32_def)

lemma be_nat_be16: "be_nat (be16 v) = v mod 65536"
proof -
  have "v mod 65536 = 256 * (v div 256 mod 256) + v mod 256"
    using mod_mult2_eq[of v 256 256] by simp
  then show ?thesis
    by (simp add: be_nat_def be16_def unat_of_nat)
qed

lemma be_nat_be32: "be_nat (be32 v) = v mod 4294967296"
proof -
  have d1: "v div 65536 = v div 256 div 256"
    using div_mult2_eq[of v 256 256] by simp
  have d2: "v div 16777216 = v div 256 div 256 div 256"
    using div_mult2_eq[of v 65536 256] d1 by simp
  have a: "v mod 4294967296 = 256 * (v div 256 mod 16777216) + v mod 256"
    using mod_mult2_eq[of v 256 16777216] by simp
  have b: "v div 256 mod 16777216 = 256 * (v div 256 div 256 mod 65536) + v div 256 mod 256"
    using mod_mult2_eq[of "v div 256" 256 65536] by simp
  have c: "v div 256 div 256 mod 65536 =
           256 * (v div 256 div 256 div 256 mod 256) + v div 256 div 256 mod 256"
    using mod_mult2_eq[of "v div 256 div 256" 256 256] by simp
  show ?thesis
    by (simp add: be_nat_def be32_def unat_of_nat a b c d1 d2)
qed

lemma slice_append [simp]:
  "slice (pre @ bs @ post) (length pre) (length pre + length bs) = bs"
  by (simp add: slice_def)

lemma slice_append_n:
  "length bs = n \<Longrightarrow> slice (pre @ bs @ post) (length pre) (length pre + n) = bs"
  by (simp add: slice_def)

lemma getUint16_append:
  assumes "n < 65536"
  shows "getUint16 (pre @ be16 n @ post) (length pre) = Inr n"
proof -
  have s: "slice (pre @ be16 n @ post) (length pre) (length pre + 2) = be16 n"
    by (rule slice_append_n) simp
  show ?thesis
    unfolding getUint16_def s using assms by (simp add: be_nat_be16)
qed

lemma getUint32_append:
  assumes "n < 4294967296"
  shows "getUint32 (pre @ be32 n @ post) (length pre) = Inr n"
proof -
  have s: "slice (pre @ be32 n @ post) (length pre) (length pre + 4) = be32 n"
    by (rule slice_append_n) simp
  show ?thesis
    unfolding getUint32_def s using assms by (simp add: be_nat_be32)
qed

lemma int32_mod:
  assumes "- 2147483648 \<le> (n::int)" "n < 2147483648"
  shows "n mod 4294967296 = (if 0 \<le> n then n else n + 4294967296)"
proof (cases "0 \<le> n")
  case True
  then show ?thesis using assms by simp
next
  case False
  have "n mod 4294967296 = (n + 4294967296) mod 4294967296"
    by simp
  also have "\<dots> = n + 4294967296"
    by (rule mod_pos_pos_trivial) (use assms False in auto)
  finally show ?thesis using False by simp
qed

lemma getInt32_append:
  assumes "- 2147483648 \<le> n" "n < 2147483648"
  shows "getInt32 (pre @ be32 (nat (n mod 4294967296)) @ post) (length pre) = Inr n"
proof -
  have s: "slice (pre @ be32 (nat (n mod 4294967296)) @ post) (length pre) (length pre + 4)
           = be32 (nat (n mod 4294967296))"
    by (rule slice_append_n) simp
  have m: "nat (n mod 4294967296) mod 4294967296 = nat (n mod 4294967296)"
    by (simp add: nat_less_iff)
  have v: "int (nat (n mod 4294967296)) = (if 0 \<le> n then n else n + 4294967296)"
    using int32_mod[OF assms] assms by simp
  show ?thesis
    unfolding getInt32_def s be_nat_be32 m v Let_def using assms by simp
qed

section \<open>Properties of the text encoding helpers\<close>

definition scalar :: "nat \<Rightarrow> bool" where
  "scalar c \<longleftrightarrow> c \<le> 1114111 \<and> \<not> (55296 \<le> c \<and> c \<le> 57343)"

lemma utf8_decode_two:
  "194 \<le> unat b1 \<Longrightarrow> unat b1 \<le> 223 \<Longrightarrow> 128 \<le> unat b2 \<Longrightarrow> unat b2 \<le> 191 \<Longrightarrow>
   utf8_decode 0 0 128 191 (b1 # b2 # bs) =
     (unat b1 mod 32 * 64 + unat b2 mod 64) # utf8_decode 0 0 128 191 bs"
  by (simp add: Let_def)

lemma utf8_decode_three:
  "224 \<le> unat b1 \<Longrightarrow> unat b1 \<le> 239 \<Longrightarrow>
   (if unat b1 = 224 then 160 else 128) \<le> unat b2 \<Longrightarrow>
   unat b2 \<le> (if unat b1 = 237 then 159 else 191) \<Longrightarrow>
   128 \<le> unat b3 \<Longrightarrow> unat b3 \<le> 191 \<Longrightarrow>
   utf8_decode 0 0 128 191 (b1 # b2 # b3 # bs) =
     ((unat b1 mod 16 * 64 + unat b2 mod 64) * 64 + unat b3 mod 64)
       # utf8_decode 0 0 128 191 bs"
  by (simp add: Let_def)

lemma utf8_decode_four:
  "240 \<le> unat b1 \<Longrightarrow> unat b1 \<le> 244 \<Longrightarrow>
   (if unat b1 = 240 then 144 else 128) \<le> unat b2 \<Longrightarrow>
   unat b2 \<le> (if unat b1 = 244 then 143 else 191) \<Longrightarrow>
   128 \<le> unat b3 \<Longrightarrow> unat b3 \<le> 191 \<Longrightarrow> 128 \<le> unat b4 \<Longrightarrow> unat b4 \<le> 191 \<Longrightarrow>
   utf8_decode 0 0 128 191 (b1 # b2 # b3 # b4 # bs) =
     (((unat b1 mod 8 * 64 + unat b2 mod 64) * 64 + unat b3 mod 64) * 64 + unat b4 mod 64)
       # utf8_decode 0 0 128 191 bs"
  by (simp add: Let_def)

lemma utf8_roundtrip_two:
  assumes "128 \<le> c" "c < 2048"
  shows "utf8_decode 0 0 128 191 (map of_nat (utf8_encode_cp c) @ bs) =
         c # utf8_decode 0 0 128 191 bs"
proof -
  define a where "a = c div 64"
  define d where "d = c mod 64"
  have c: "c = a * 64 + d"
    unfolding a_def d_def by simp
  have ra: "2 \<le> a" "a < 32" unfolding a_def using assms by auto
  have rd: "d < 64" unfolding d_def by simp
  have b1: "unat (of_nat (192 + a) :: byte) = 192 + a"
    by (rule unat_byte) (use ra in arith)
  have b2: "unat (of_nat (128 + d) :: byte) = 128 + d"
    by (rule unat_byte) (use rd in arith)
  have e: "utf8_encode_cp c = [192 + a, 128 + d]"
    using assms by (simp add: utf8_encode_cp_def a_def d_def)
  have v1: "(192 + a) mod 32 = a" using ra by (simp add: mod_shift)
  have v2: "(128 + d) mod 64 = d" using rd by (simp add: mod_shift)
  have p1: "194 \<le> unat (of_nat (192 + a) :: byte)" "unat (of_nat (192 + a) :: byte) \<le> 223"
    unfolding b1 using ra by auto
  have p2: "128 \<le> unat (of_nat (128 + d) :: byte)" "unat (of_nat (128 + d) :: byte) \<le> 191"
    unfolding b2 using rd by auto
  have "utf8_decode 0 0 128 191 (of_nat (192 + a) # of_nat (128 + d) # bs)
        = (a * 64 + d) # utf8_decode 0 0 128 191 bs"
    using utf8_decode_two[OF p1 p2, of bs] unfolding b1 b2 v1 v2 .
  then show ?thesis
    unfolding e using c by (simp del: of_nat_add)
qed

lemma utf8_roundtrip_three:
  assumes "2048 \<le> c" "c < 65536" "\<not> (55296 \<le> c \<and> c \<le> 57343)"
  shows "utf8_decode 0 0 128 191 (map of_nat (utf8_encode_cp c) @ bs) =
         c # utf8_decode 0 0 128 191 bs"
proof -
  define a where "a = c div 4096"
  define b where "b = c div 64 mod 64"
  define d where "d = c mod 64"
  have dd: "c div 64 div 64 = a"
    unfolding a_def using div_mult2_eq[of c 64 64] by simp
  have cq: "c div 64 = a * 64 + b"
    unfolding b_def using div_mult_mod_eq[of "c div 64" 64] dd by simp
  have c: "c = (a * 64 + b) * 64 + d"
    unfolding d_def using div_mult_mod_eq[of c 64] cq by simp
  have ra: "a < 16" unfolding a_def using assms by simp
  have rb: "b < 64" unfolding b_def by simp
  have rd: "d < 64" unfolding d_def by simp
  have lo: "a = 0 \<Longrightarrow> 32 \<le> b" using c assms(1) rd by simp
  have hi: "a = 13 \<Longrightarrow> b < 32" using c assms rd rb by auto
  have b1: "unat (of_nat (224 + a) :: byte) = 224 + a"
    by (rule unat_byte) (use ra in arith)
  have b2: "unat (of_nat (128 + b) :: byte) = 128 + b"
    by (rule unat_byte) (use rb in arith)
  have b3: "unat (of_nat (128 + d) :: byte) = 128 + d"
    by (rule unat_byte) (use rd in arith)
  have e: "utf8_encode_cp c = [224 + a, 128 + b, 128 + d]"
    using assms by (auto simp add: utf8_encode_cp_def a_def b_def d_def)
  have v1: "(224 + a) mod 16 = a" using ra by (simp add: mod_shift)
  have v2: "(128 + b) mod 64 = b" using rb by (simp add: mod_shift)
  have v3: "(128 + d) mod 64 = d" using rd by (simp add: mod_shift)
  have p1: "224 \<le> unat (of_nat (224 + a) :: byte)" "unat (of_nat (224 + a) :: byte) \<le> 239"
    unfolding b1 using ra by auto
  have p2: "(if unat (of_nat (224 + a) :: byte) = 224 then 160 else 128)
              \<le> unat (of_nat (128 + b) :: byte)"
    unfolding b1 b2 using lo by auto
  have p3: "unat (of_nat (128 + b) :: byte)
              \<le> (if unat (of_nat (224 + a) :: byte) = 237 then 159 else 191)"
    unfolding b1 b2 using hi rb by auto
  have p4: "128 \<le> unat (of_nat (128 + d) :: byte)" "unat (of_nat (128 + d) :: byte) \<le> 191"
    unfolding b3 using rd by auto
  have "utf8_decode 0 0 128 191 (of_nat (224 + a) # of_nat (128 + b) # of_nat (128 + d) # bs)
        = ((a * 64 + b) * 64 + d) # utf8_decode 0 0 128 191 bs"
    using utf8_decode_three[OF p1 p2 p3 p4, of bs] unfolding b1 b2 b3 v1 v2 v3 .
  then show ?thesis
    unfolding e using c by (simp del: of_nat_add)
qed

lemma utf8_roundtrip_four:
  assumes "65536 \<le> c" "c \<le> 1114111"
  shows "utf8_decode 0 0 128 191 (map of_nat (utf8_encode_cp c) @ bs) =
         c # utf8_decode 0 0 128 191 bs"
proof -
  define a where "a = c div 262144"
  define b where "b = c div 4096 mod 64"
  define d where "d = c div 64 mod 64"
  define f where "f = c mod 64"
  have d1: "c div 64 div 64 = c div 4096"
    using div_mult2_eq[of c 64 64] by simp
  have d2: "c div 4096 div 64 = a"
    unfolding a_def using div_mult2_eq[of c 4096 64] by simp
  have c3: "c div 4096 = a * 64 + b"
    unfolding b_def using div_mult_mod_eq[of "c div 4096" 64] d2 by simp
  have c2: "c div 64 = (a * 64 + b) * 64 + d"
    unfolding d_def using div_mult_mod_eq[of "c div 64" 64] d1 c3 by simp
  have c: "c = ((a * 64 + b) * 64 + d) * 64 + f"
    unfolding f_def using div_mult_mod_eq[of c 64] c2 by simp
  have ra: "a < 5" unfolding a_def using assms by simp
  have rb: "b < 64" unfolding b_def by simp
  have rd: "d < 64" unfolding d_def by simp
  have rf: "f < 64" unfolding f_def by simp
  have lo: "a = 0 \<Longrightarrow> 16 \<le> b" using c assms(1) rd rf by simp
  have hi: "a = 4 \<Longrightarrow> b < 16" using c assms rd rf by simp
  have b1: "unat (of_nat (240 + a) :: byte) = 240 + a"
    by (rule unat_byte) (use ra in arith)
  have b2: "unat (of_nat (128 + b) :: byte) = 128 + b"
    by (rule unat_byte) (use rb in arith)
  have b3: "unat (of_nat (128 + d) :: byte) = 128 + d"
    by (rule unat_byte) (use rd in arith)
  have b4: "unat (of_nat (128 + f) :: byte) = 128 + f"
    by (rule unat_byte) (use rf in arith)
  have e: "utf8_encode_cp c = [240 + a, 128 + b, 128 + d, 128 + f]"
    using assms by (simp add: utf8_encode_cp_def a_def b_def d_def f_def)
  have v1: "(240 + a) mod 8 = a" using ra by (simp add: mod_shift)
  have v2: "(128 + b) mod 64 = b" using rb by (simp add: mod_shift)
  have v3: "(128 + d) mod 64 = d" using rd by (simp add: mod_shift)
  have v4: "(128 + f) mod 64 = f" using rf by (simp add: mod_shift)
  have p1: "240 \<le> unat (of_nat (240 + a) :: byte)" "unat (of_nat (240 + a) :: byte) \<le> 244"
    unfolding b1 using ra by auto
  have p2: "(if unat (of_nat (240 + a) :: byte) = 240 then 144 else 128)
              \<le> unat (of_nat (128 + b) :: byte)"
    unfolding b1 b2 using lo by auto
  have p3: "unat (of_nat (128 + b) :: byte)
              \<le> (if unat (of_nat (240 + a) :: byte) = 244 then 143 else 191)"
    unfolding b1 b2 using hi rb by auto
  have p4: "128 \<le> unat (of_nat (128 + d) :: byte)" "unat (of_nat (128 + d) :: byte) \<le> 191"
    unfolding b3 using rd by auto
  have p5: "128 \<le> unat (of_nat (128 + f) :: byte)" "unat (of_nat (128 + f) :: byte) \<le> 191"
    unfolding b4 using rf by auto
  have "utf8_decode 0 0 128 191
          (of_nat (240 + a) # of_nat (128 + b) # of_nat (128 + d) # of_nat (128 + f) # bs)
        = (((a * 64 + b) * 64 + d) * 64 + f) # utf8_decode 0 0 128 191 bs"
    using utf8_decode_four[OF p1 p2 p3 p4 p5, of bs] unfolding b1 b2 b3 b4 v1 v2 v3 v4 .
  then show ?thesis
    unfolding e using c by (simp del: of_nat_add)
qed

lemma utf8_roundtrip_cp:
  assumes "scalar c"
  shows "utf8_decode 0 0 128 191 (map of_nat (utf8_encode_cp c) @ bs) =
         c # utf8_decode 0 0 128 191 bs"
proof -
  consider "c < 128" | "128 \<le> c" "c < 2048" | "2048 \<le> c" "c < 65536" | "65536 \<le> c"
    by linarith
  then show ?thesis
  proof cases
    case 1
    then show ?thesis by (simp add: utf8_encode_cp_def unat_byte del: of_nat_add)
  next
    case 2
    then show ?thesis by (rule utf8_roundtrip_two)
  next
    case 3
    then show ?thesis using assms utf8_roundtrip_three by (simp add: scalar_def)
  next
    case 4
    then show ?thesis using assms utf8_roundtrip_four by (simp add: scalar_def)
  qed
qed

lemma utf8_roundtrip_string:
  "\<forall>c\<in>set s. scalar c \<Longrightarrow> utf8_decode 0 0 128 191 (TextEncoder_encode s) = s"
proof (induction s)
  case Nil
  then show ?case by (simp add: TextEncoder_encode_def)
next
  case (Cons c s)
  then show ?case
    using utf8_roundtrip_cp[of c "TextEncoder_encode s"] by (simp add: TextEncoder_encode_def)
qed

definition text_ok :: "jsstring \<Rightarrow> bool" where
  "text_ok s \<longleftrightarrow>
     (\<forall>c\<in>set s. scalar c \<and> c \<noteq> 0) \<and> (s \<noteq> [] \<longrightarrow> hd s \<noteq> 65279) \<and>
     length (stringToBytes s) < 65536"

lemma bytesToString_stringToBytes:
  assumes "text_ok s"
  shows "bytesToString (stringToBytes s) = s"
proof -
  have d: "utf8_decode 0 0 128 191 (TextEncoder_encode s) = s"
    using assms by (intro utf8_roundtrip_string) (simp add: text_ok_def)
  have "TextDecoder_decode (TextEncoder_encode s) = s"
    using assms unfolding TextDecoder_decode_def d
    by (cases s) (auto simp: text_ok_def)
  moreover have "filter (\<lambda>c. c \<noteq> 0) s = s"
    using assms by (simp add: text_ok_def)
  ultimately show ?thesis
    by (simp add: bytesToString_def stringToBytes_def)
qed

section \<open>Properties of the row codec\<close>

definition textcol :: "string \<Rightarrow> ColumnDefinition" where
  "textcol n = \<lparr>col_name = n, col_type = TEXT, isPrimaryKey = False\<rparr>"

definition intcol :: "string \<Rightarrow> bool \<Rightarrow> ColumnDefinition" where
  "intcol n pk = \<lparr>col_name = n, col_type = INTEGER, isPrimaryKey = pk\<rparr>"

definition prototype_text :: "string \<Rightarrow> jsstring" where
  "prototype_text name =
     (if name = ''__proto__'' then map of_char ''[object Object]''
      else map of_char (''function '' @ name @ ''() { [native code] }''))"

definition conv0 :: conv where
  "conv0 = \<lparr>num = (\<lambda>s. 0), str = (\<lambda>n. []), inherited = prototype_text\<rparr>"

lemma row_assign_other [simp]:
  "name \<noteq> ''__proto__'' \<Longrightarrow> row_assign row name v = row(name \<mapsto> v)"
  by (simp add: row_assign_def)

lemma column_bytes_own:
  "row (col_name col) = Some val \<Longrightarrow>
   column_bytes cv col row =
     Inr (if col_type col = INTEGER
          then be32 (nat ((case val of JNum n \<Rightarrow> n | JStr s \<Rightarrow> num cv s) mod 4294967296))
          else stringToBytes (case val of JStr s \<Rightarrow> s | JNum n \<Rightarrow> str cv n))"
  by (simp add: column_bytes_def)

lemma bytesToString_no_nul: "0 \<notin> set (bytesToString bs)"
  by (simp add: bytesToString_def)

definition no_nul_text :: "Row \<Rightarrow> bool" where
  "no_nul_text row \<longleftrightarrow> (\<forall>name s. row name = Some (JStr s) \<longrightarrow> 0 \<notin> set s)"

lemma no_nul_text_num: "no_nul_text acc \<Longrightarrow> no_nul_text (row_assign acc n (JNum v))"
  by (simp add: no_nul_text_def row_assign_def)

lemma no_nul_text_str:
  "no_nul_text acc \<Longrightarrow> no_nul_text (row_assign acc n (JStr (bytesToString bs)))"
  by (simp add: no_nul_text_def row_assign_def bytesToString_no_nul)

lemma deserializeRow_cols_no_nul:
  "deserializeRow_cols cols data offset acc = Inr row \<Longrightarrow> no_nul_text acc \<Longrightarrow> no_nul_text row"
proof (induction cols arbitrary: offset acc)
  case Nil
  then show ?case by simp
next
  case (Cons col cols)
  from Cons.prems show ?case
    by (auto simp: Let_def split: if_splits sum.splits
        elim!: Cons.IH intro: no_nul_text_num no_nul_text_str)
qed

text \<open>
  Claim C10.  Whatever the buffer and the schema, every string that row decoding stores in
  the row is free of NUL characters: \<open>bytesToString\<close> deletes every U+0000 from the decoded
  text before the value is placed in the row.
\<close>

theorem decoded_text_has_no_nul:
  assumes "deserializeRow cols data = Inr row" "row name = Some (JStr s)"
  shows "0 \<notin> set s"
proof -
  have "no_nul_text row"
  proof (cases "length data = 0")
    case True
    then show ?thesis using assms(1) by (auto simp: deserializeRow_def no_nul_text_def)
  next
    case False
    then have "deserializeRow_cols cols data 0 Map.empty = Inr row"
      using assms(1) by (simp add: deserializeRow_def)
    then show ?thesis
      by (rule deserializeRow_cols_no_nul) (simp add: no_nul_text_def)
  qed
  then show ?thesis using assms(2) by (auto simp: no_nul_text_def)
qed

theorem decoded_text_has_no_nul_witness:
  "deserializeRow [textcol ''t''] [0, 3, 97, 0, 98] = Inr [''t'' \<mapsto> JStr [97, 98]] \<and>
   [''t'' \<mapsto> JStr [97, 98]] ''t'' = Some (JStr [97, 98]) \<and> 0 \<notin> set [97, 98 :: nat]"
  using decoded_text_has_no_nul[of "[textcol ''t'']" "[0, 3, 97, 0, 98]"
      "[''t'' \<mapsto> JStr [97, 98]]" "''t''" "[97, 98]"]
  by (simp add: deserializeRow_def textcol_def getUint16_def slice_def be_nat_def
      bytesToString_def TextDecoder_decode_def Let_def row_assign_def)

text \<open>
  Claim C8.  The claim asks that decoding stop at the first column whose record does not
  fit in the rest of the buffer, so that every later column is absent.  The decoder leaves
  only the callback of the current column: the loop goes on with the next column, and when
  the length field had been read the offset has already moved past it.  With the schema
  \<open>(a TEXT, b TEXT)\<close> and the four bytes \<open>00 05 00 00\<close>, column \<open>a\<close> announces five bytes
  that are not there, and column \<open>b\<close> is then decoded from offset 2 as the empty string.
\<close>

theorem deserializeRow_goes_on_after_short_column:
  "deserializeRow [textcol ''a'', textcol ''b''] [0, 5, 0, 0] = Inr [''b'' \<mapsto> JStr []]"
  by (simp add: deserializeRow_def textcol_def getUint16_def slice_def be_nat_def
      bytesToString_def TextDecoder_decode_def Let_def row_assign_def)

definition int32 :: "int \<Rightarrow> bool" where
  "int32 n \<longleftrightarrow> - 2147483648 \<le> n \<and> n < 2147483648"

definition col_ok :: "Row \<Rightarrow> ColumnDefinition \<Rightarrow> bool" where
  "col_ok row col =
     (case col_type col of
        INTEGER \<Rightarrow> (case row (col_name col) of Some (JNum n) \<Rightarrow> int32 n | _ \<Rightarrow> False)
      | TEXT \<Rightarrow> (case row (col_name col) of Some (JStr s) \<Rightarrow> text_ok s | _ \<Rightarrow> False))"

definition row_satisfies :: "ColumnDefinition list \<Rightarrow> Row \<Rightarrow> bool" where
  "row_satisfies cols row \<longleftrightarrow>
     dom row = col_name ` set cols \<and> ''__proto__'' \<notin> col_name ` set cols \<and>
     list_all (col_ok row) cols"

lemma codec_roundtrip_cols:
  assumes "list_all (col_ok row) cols" "''__proto__'' \<notin> col_name ` set cols"
  shows "\<exists>bs. serializeRow_parts cv cols row parts = Inr (parts @ bs) \<and>
           (cols \<noteq> [] \<longrightarrow> bs \<noteq> []) \<and>
           (\<forall>pre post acc. deserializeRow_cols cols (pre @ bs @ post) (length pre) acc =
              Inr (\<lambda>x. if x \<in> col_name ` set cols then row x else acc x))"
  using assms
proof (induction cols arbitrary: parts)
  case Nil
  then show ?case by simp
next
  case (Cons col cols)
  have ok: "col_ok row col" and oks: "list_all (col_ok row) cols"
    and np: "col_name col \<noteq> ''__proto__''" and nps: "''__proto__'' \<notin> col_name ` set cols"
    using Cons.prems by auto
  show ?case
  proof (cases "col_type col")
    case INTEGER
    then obtain n where n: "row (col_name col) = Some (JNum n)" "int32 n"
      using ok by (auto simp: col_ok_def split: option.splits jsval.splits)
    define rec where "rec = be16 4 @ be32 (nat (n mod 4294967296))"
    obtain bs where bs: "serializeRow_parts cv cols row (parts @ rec) = Inr ((parts @ rec) @ bs)"
      and dec: "\<And>pre post acc. deserializeRow_cols cols (pre @ bs @ post) (length pre) acc =
              Inr (\<lambda>x. if x \<in> col_name ` set cols then row x else acc x)"
      using Cons.IH[OF oks nps, of "parts @ rec"] by blast
    have ser: "serializeRow_parts cv (col # cols) row parts = Inr (parts @ rec @ bs)"
      using bs n INTEGER by (simp add: rec_def Let_def column_bytes_own)
    have "\<forall>pre post acc. deserializeRow_cols (col # cols) (pre @ (rec @ bs) @ post) (length pre) acc =
              Inr (\<lambda>x. if x \<in> col_name ` set (col # cols) then row x else acc x)"
    proof (intro allI)
    fix pre post acc
    show "deserializeRow_cols (col # cols) (pre @ (rec @ bs) @ post) (length pre) acc =
              Inr (\<lambda>x. if x \<in> col_name ` set (col # cols) then row x else acc x)"
    proof -
      have g16: "getUint16 (pre @ be16 4 @ (be32 (nat (n mod 4294967296)) @ bs @ post)) (length pre) = Inr 4"
        by (rule getUint16_append) simp
      have g32: "getInt32 ((pre @ be16 4) @ be32 (nat (n mod 4294967296)) @ (bs @ post)) (length (pre @ be16 4)) = Inr n"
        by (rule getInt32_append) (use n in \<open>auto simp: int32_def\<close>)
      have d: "deserializeRow_cols cols ((pre @ rec) @ bs @ post) (length (pre @ rec)) (acc(col_name col \<mapsto> JNum n))
           = Inr (\<lambda>x. if x \<in> col_name ` set cols then row x else (acc(col_name col \<mapsto> JNum n)) x)"
        by (rule dec)
      have r: "(\<lambda>x. if x \<in> col_name ` set cols then row x else (acc(col_name col \<mapsto> JNum n)) x)
           = (\<lambda>x. if x \<in> col_name ` set (col # cols) then row x else acc x)"
        using n by auto
      show ?thesis
        using g16 g32 d INTEGER np unfolding r
        by (simp add: rec_def Let_def add.commute)
    qed
    qed
    moreover have "rec @ bs \<noteq> []"
      by (simp add: rec_def be16_def)
    ultimately show ?thesis using ser by blast
  next
    case TEXT
    then obtain s where s: "row (col_name col) = Some (JStr s)" "text_ok s"
      using ok by (auto simp: col_ok_def split: option.splits jsval.splits)
    define tb where "tb = stringToBytes s"
    define rec where "rec = be16 (length tb) @ tb"
    have len: "length tb < 65536" using s by (simp add: text_ok_def tb_def)
    obtain bs where bs: "serializeRow_parts cv cols row (parts @ rec) = Inr ((parts @ rec) @ bs)"
      and dec: "\<And>pre post acc. deserializeRow_cols cols (pre @ bs @ post) (length pre) acc =
              Inr (\<lambda>x. if x \<in> col_name ` set cols then row x else acc x)"
      using Cons.IH[OF oks nps, of "parts @ rec"] by blast
    have ser: "serializeRow_parts cv (col # cols) row parts = Inr (parts @ rec @ bs)"
      using bs s TEXT len by (simp add: rec_def tb_def Let_def column_bytes_own)
    have "\<forall>pre post acc. deserializeRow_cols (col # cols) (pre @ (rec @ bs) @ post) (length pre) acc =
              Inr (\<lambda>x. if x \<in> col_name ` set (col # cols) then row x else acc x)"
    proof (intro allI)
    fix pre post acc
    show "deserializeRow_cols (col # cols) (pre @ (rec @ bs) @ post) (length pre) acc =
              Inr (\<lambda>x. if x \<in> col_name ` set (col # cols) then row x else acc x)"
    proof -
      have g16: "getUint16 (pre @ be16 (length tb) @ (tb @ bs @ post)) (length pre) = Inr (length tb)"
        by (rule getUint16_append) (rule len)
      have sl: "slice ((pre @ be16 (length tb)) @ tb @ (bs @ post)) (length (pre @ be16 (length tb)))
                  (length (pre @ be16 (length tb)) + length tb) = tb"
        by (rule slice_append)
      have d: "deserializeRow_cols cols ((pre @ rec) @ bs @ post) (length (pre @ rec)) (acc(col_name col \<mapsto> JStr s))
           = Inr (\<lambda>x. if x \<in> col_name ` set cols then row x else (acc(col_name col \<mapsto> JStr s)) x)"
        by (rule dec)
      have r: "(\<lambda>x. if x \<in> col_name ` set cols then row x else (acc(col_name col \<mapsto> JStr s)) x)
           = (\<lambda>x. if x \<in> col_name ` set (col # cols) then row x else acc x)"
        using s by auto
      have bt: "bytesToString tb = s"
        unfolding tb_def using s(2) by (rule bytesToString_stringToBytes)
      show ?thesis
        using g16 sl d TEXT bt np unfolding r
        by (simp add: rec_def Let_def add.commute)
    qed
    qed
    moreover have "rec @ bs \<noteq> []"
      by (simp add: rec_def be16_def)
    ultimately show ?thesis using ser by blast
  qed
qed

text \<open>
  Claim C2, as amended.  A row satisfies its schema when no column of the schema is named
  \<open>__proto__\<close>, the row has exactly the schema's columns, every \<open>INTEGER\<close> value is a 32-bit
  signed integer and every \<open>TEXT\<close> value is a string of Unicode scalar values without
  U+0000, not starting with U+FEFF, whose UTF-8 encoding is shorter than 65536 bytes.
  For such a row encoding succeeds and decoding the encoded bytes gives the row back.
\<close>

theorem row_codec_roundtrip:
  assumes "row_satisfies cols row"
  shows "\<exists>data. serializeRow cv cols row = Inr data \<and> deserializeRow cols data = Inr row"
proof -
  obtain bs where ser: "serializeRow_parts cv cols row [] = Inr ([] @ bs)"
    and ne: "cols \<noteq> [] \<longrightarrow> bs \<noteq> []"
    and dec: "\<And>pre post acc. deserializeRow_cols cols (pre @ bs @ post) (length pre) acc =
              Inr (\<lambda>x. if x \<in> col_name ` set cols then row x else acc x)"
    using codec_roundtrip_cols[of row cols cv "[]"] assms by (auto simp: row_satisfies_def)
  have r: "(\<lambda>x. if x \<in> col_name ` set cols then row x else Map.empty x) = row"
  proof
    fix x
    show "(if x \<in> col_name ` set cols then row x else Map.empty x) = row x"
      using assms domIff[of x row] by (auto simp: row_satisfies_def)
  qed
  have d: "deserializeRow_cols cols bs 0 Map.empty = Inr row"
    using dec[of "[]" "[]" Map.empty] unfolding r by simp
  have "deserializeRow cols bs = Inr row"
  proof (cases "cols = []")
    case True
    then have "row = Map.empty" using assms by (simp add: row_satisfies_def)
    then show ?thesis using True d by (simp add: deserializeRow_def)
  next
    case False
    then show ?thesis using ne d by (simp add: deserializeRow_def)
  qed
  then show ?thesis using ser by (auto simp: serializeRow_def)
qed

theorem row_codec_roundtrip_witness:
  "row_satisfies [intcol ''id'' True, textcol ''name''] [''id'' \<mapsto> JNum 7, ''name'' \<mapsto> JStr [65, 108]] \<and>
   (\<exists>data. serializeRow conv0 [intcol ''id'' True, textcol ''name'']
              [''id'' \<mapsto> JNum 7, ''name'' \<mapsto> JStr [65, 108]] = Inr data \<and>
           deserializeRow [intcol ''id'' True, textcol ''name''] data =
              Inr [''id'' \<mapsto> JNum 7, ''name'' \<mapsto> JStr [65, 108]])"
proof -
  have "row_satisfies [intcol ''id'' True, textcol ''name''] [''id'' \<mapsto> JNum 7, ''name'' \<mapsto> JStr [65, 108]]"
    by (auto simp: row_satisfies_def col_ok_def intcol_def textcol_def int32_def text_ok_def
        scalar_def stringToBytes_def TextEncoder_encode_def utf8_encode_cp_def)
  then show ?thesis
    using row_codec_roundtrip[of "[intcol ''id'' True, textcol ''name'']"
        "[''id'' \<mapsto> JNum 7, ''name'' \<mapsto> JStr [65, 108]]" conv0]
    by simp
qed

text \<open>
  The claim as stated fails for a string that holds U+0000: the row \<open>{t: "a\0b"}\<close> is
  encoded as \<open>00 03 61 00 62\<close>, and decoding these bytes gives \<open>{t: "ab"}\<close>.
\<close>

theorem row_codec_nul_counterexample:
  "serializeRow conv0 [textcol ''t''] [''t'' \<mapsto> JStr [97, 0, 98]] = Inr [0, 3, 97, 0, 98] \<and>
   deserializeRow [textcol ''t''] [0, 3, 97, 0, 98] = Inr [''t'' \<mapsto> JStr [97, 98]] \<and>
   deserializeRow [textcol ''t''] [0, 3, 97, 0, 98] \<noteq> Inr [''t'' \<mapsto> JStr [97, 0, 98]]"
proof -
  have s: "serializeRow conv0 [textcol ''t''] [''t'' \<mapsto> JStr [97, 0, 98]] = Inr [0, 3, 97, 0, 98]"
    by (simp add: serializeRow_def column_bytes_def textcol_def stringToBytes_def
        TextEncoder_encode_def utf8_encode_cp_def be16_def Let_def)
  have d: "deserializeRow [textcol ''t''] [0, 3, 97, 0, 98] = Inr [''t'' \<mapsto> JStr [97, 98]]"
    by (simp add: deserializeRow_def textcol_def getUint16_def slice_def be_nat_def
        bytesToString_def TextDecoder_decode_def Let_def row_assign_def)
  have n: "[''t'' \<mapsto> JStr [97, 98]] \<noteq> [''t'' \<mapsto> JStr [97, 0, 98 :: nat]]"
  proof
    assume "[''t'' \<mapsto> JStr [97, 98]] = [''t'' \<mapsto> JStr [97, 0, 98 :: nat]]"
    then have "[''t'' \<mapsto> JStr [97, 98]] ''t'' = [''t'' \<mapsto> JStr [97, 0, 98 :: nat]] ''t''"
      by (rule arg_cong)
    then show False by simp
  qed
  show ?thesis using s d n by simp
qed

text \<open>
  A column named \<open>__proto__\<close>, which \<open>CREATE TABLE\<close> accepts: the decoder assigns to
  \<open>row["__proto__"]\<close> and nothing is stored, so a row that has the property does not come
  back; and the encoder never finds the value missing, since a row without the property
  reads as \<open>Object.prototype\<close>.
\<close>

lemma row_codec_proto_column:
  "serializeRow conv0 [textcol ''__proto__''] [''__proto__'' \<mapsto> JStr [97]] = Inr [0, 1, 97] \<and>
   deserializeRow [textcol ''__proto__''] [0, 1, 97] = Inr Map.empty \<and>
   serializeRow conv0 [textcol ''__proto__''] Map.empty =
     Inr ([0, 15] @ map of_char ''[object Object]'')"
proof -
  have s: "serializeRow conv0 [textcol ''__proto__''] [''__proto__'' \<mapsto> JStr [97]] = Inr [0, 1, 97]"
    by (simp add: serializeRow_def column_bytes_def textcol_def stringToBytes_def
        TextEncoder_encode_def utf8_encode_cp_def be16_def Let_def)
  have d: "deserializeRow [textcol ''__proto__''] [0, 1, 97] = Inr Map.empty"
    by (simp add: deserializeRow_def textcol_def getUint16_def slice_def be_nat_def
        bytesToString_def TextDecoder_decode_def Let_def row_assign_def)
  have e: "serializeRow conv0 [textcol ''__proto__''] Map.empty =
     Inr ([0, 15] @ map of_char ''[object Object]'')"
    by (simp add: serializeRow_def column_bytes_def textcol_def conv0_def prototype_text_def
        prototype_names_def stringToBytes_def TextEncoder_encode_def utf8_encode_cp_def be16_def Let_def)
  show ?thesis using s d e by simp
qed


section \<open>The disk as seen by its readers\<close>

text \<open>
  \<open>peek d i\<close> is the page that \<open>readPage\<close> returns for \<open>i\<close>.  Reading may fill the cache but
  never changes what later reads return; the B-tree is described through \<open>peek\<close> and
  \<open>maxPageId\<close> alone.
\<close>

definition peek :: "VirtualDisk \<Rightarrow> nat \<Rightarrow> byte list" where
  "peek d pageId = fst (readPage d pageId)"

definition in_tx :: "VirtualDisk \<Rightarrow> bool" where
  "in_tx d \<longleftrightarrow> transactionBuffer d \<noteq> None"

lemma readPage_fst: "fst (readPage d i) = peek d i"
  by (simp add: peek_def)

lemma peek_readPage [simp]: "peek (snd (readPage d i)) j = peek d j"
  by (auto simp: peek_def readPage_def split: option.splits)

lemma maxPageId_readPage [simp]: "maxPageId (snd (readPage d i)) = maxPageId d"
  by (auto simp: readPage_def split: option.splits)

lemma in_tx_readPage [simp]: "in_tx (snd (readPage d i)) = in_tx d"
  by (auto simp: readPage_def in_tx_def split: option.splits)

lemma getMetadata_readPage [simp]: "getMetadata (snd (readPage d i)) k = getMetadata d k"
  by (auto simp: readPage_def getMetadata_def split: option.splits)

lemma readPage_split: "readPage d i = (peek d i, snd (readPage d i))"
  by (simp add: peek_def)

lemma peek_writePage [simp]: "peek (writePage d i p) j = (if j = i then p else peek d j)"
  by (auto simp: peek_def readPage_def writePage_def writeToDisk_def saveMeta_def Let_def
      update_conv' split: option.splits)

lemma maxPageId_writePage: "maxPageId d \<le> maxPageId (writePage d i p)"
  by (auto simp: writePage_def writeToDisk_def saveMeta_def Let_def split: option.splits)

lemma in_tx_writePage [simp]: "in_tx (writePage d i p) = in_tx d"
  by (auto simp: writePage_def writeToDisk_def saveMeta_def in_tx_def Let_def split: option.splits)

lemma getMetadata_writePage [simp]: "getMetadata (writePage d i p) k = getMetadata d k"
  by (auto simp: writePage_def writeToDisk_def saveMeta_def getMetadata_def Let_def split: option.splits)

lemma fst_allocatePage [simp]: "fst (allocatePage d) = maxPageId d + 1"
  by (simp add: allocatePage_def saveMeta_def Let_def)

lemma peek_allocatePage [simp]: "peek (snd (allocatePage d)) j = peek d j"
  by (auto simp: peek_def readPage_def allocatePage_def saveMeta_def Let_def split: option.splits)

lemma maxPageId_allocatePage [simp]: "maxPageId (snd (allocatePage d)) = maxPageId d + 1"
  by (simp add: allocatePage_def saveMeta_def Let_def)

lemma in_tx_allocatePage [simp]: "in_tx (snd (allocatePage d)) = in_tx d"
  by (simp add: allocatePage_def saveMeta_def in_tx_def Let_def)

lemma getMetadata_allocatePage [simp]: "getMetadata (snd (allocatePage d)) k = getMetadata d k"
  by (auto simp: allocatePage_def saveMeta_def getMetadata_def Let_def split: option.splits)

lemma peek_setMetadata [simp]: "peek (setMetadata d k v) j = peek d j"
  by (auto simp: peek_def readPage_def setMetadata_def split: option.splits)

lemma maxPageId_setMetadata [simp]: "maxPageId (setMetadata d k v) = maxPageId d"
  by (auto simp: setMetadata_def split: option.splits)

lemma in_tx_setMetadata [simp]: "in_tx (setMetadata d k v) = in_tx d"
  by (auto simp: setMetadata_def in_tx_def split: option.splits)

lemma getMetadata_setMetadata [simp]:
  "getMetadata (setMetadata d k v) k' = (if k' = k then Some v else getMetadata d k')"
  by (auto simp: setMetadata_def getMetadata_def update_conv' split: option.splits)


section \<open>Cells on a page\<close>

text \<open>
  \<open>enc_cell\<close> is the byte image of a leaf cell as the writers produce it: the key and
  the payload length reduced modulo \<open>2^32\<close>, then the payload.  \<open>stored\<close> is the cell
  that is read back from that image.
\<close>

definition enc_cell :: "cell \<Rightarrow> byte list" where
  "enc_cell c = be32 (nat (fst c mod 4294967296)) @ be32 (length (snd c) mod 4294967296) @ snd c"

definition enc_cells :: "cell list \<Rightarrow> byte list" where
  "enc_cells cs = concat (map enc_cell cs)"

definition stored :: "cell \<Rightarrow> cell" where
  "stored c = (fst c mod 4294967296, snd c)"

lemma enc_cells_simps [simp]:
  "enc_cells [] = []"
  "enc_cells (c # cs) = enc_cell c @ enc_cells cs"
  "enc_cells (xs @ ys) = enc_cells xs @ enc_cells ys"
  by (simp_all add: enc_cells_def)

lemma length_enc_cell [simp]: "length (enc_cell c) = 8 + length (snd c)"
  by (simp add: enc_cell_def)

lemma getUint32_at:
  assumes "length pre = off"
  shows "getUint32 (pre @ be32 n @ post) off = Inr (n mod 4294967296)"
proof -
  have s: "slice (pre @ be32 n @ post) (length pre) (length pre + 4) = be32 n"
    by (rule slice_append_n) simp
  show ?thesis
    unfolding getUint32_def assms[symmetric] s by (simp add: be_nat_be32)
qed

lemma getUint16_at:
  assumes "length pre = off"
  shows "getUint16 (pre @ be16 n @ post) off = Inr (n mod 65536)"
proof -
  have s: "slice (pre @ be16 n @ post) (length pre) (length pre + 2) = be16 n"
    by (rule slice_append_n) simp
  show ?thesis
    unfolding getUint16_def assms[symmetric] s by (simp add: be_nat_be16)
qed

lemma slice_at:
  "length pre = off \<Longrightarrow> length bs = n \<Longrightarrow> slice (pre @ bs @ post) off (off + n) = bs"
  by (simp add: slice_def)

lemma set_bytes_at:
  "length pre = off \<Longrightarrow>
   set_bytes (pre @ rest) src off =
     (if length src \<le> length rest then Inr (pre @ src @ drop (length src) rest)
      else Inl RangeError)"
  by (auto simp: set_bytes_def)

lemma setUint32_at:
  "length pre = off \<Longrightarrow>
   setUint32 (pre @ rest) off v =
     (if 4 \<le> length rest then Inr (pre @ be32 (nat (v mod 4294967296)) @ drop 4 rest)
      else Inl RangeError)"
  by (simp add: setUint32_def set_bytes_at)

lemma nat_int_mod: "nat (int n mod 4294967296) = n mod 4294967296"
  by (simp add: nat_mod_distrib)

lemma ebind_simps [simp]:
  "ebind (Inl e) f = Inl e"
  "ebind (Inr x) f = f x"
  by (simp_all add: ebind_def)

lemma write_cell_at:
  assumes "length pre = off"
  shows "ebind (setUint32 (pre @ rest) off (fst c)) (\<lambda>p1.
         ebind (setUint32 p1 (off + 4) (int (length (snd c)))) (\<lambda>p2.
         ebind (set_bytes p2 (snd c) (off + 4 + 4)) f)) =
         (if length (enc_cell c) \<le> length rest
          then f (pre @ enc_cell c @ drop (length (enc_cell c)) rest)
          else Inl RangeError)"
proof -
  define k where "k = be32 (nat (fst c mod 4294967296))"
  define l where "l = be32 (length (snd c) mod 4294967296)"
  have lk: "length k = 4" and ll: "length l = 4"
    by (simp_all add: k_def l_def)
  have s1: "setUint32 (pre @ rest) off (fst c) =
      (if 4 \<le> length rest then Inr (pre @ k @ drop 4 rest) else Inl RangeError)"
    unfolding k_def using assms by (rule setUint32_at)
  have s2: "setUint32 ((pre @ k) @ drop 4 rest) (off + 4) (int (length (snd c))) =
     (if 4 \<le> length (drop 4 rest) then Inr ((pre @ k) @ l @ drop 4 (drop 4 rest))
      else Inl RangeError)"
    unfolding l_def nat_int_mod[symmetric]
    by (rule setUint32_at) (use assms lk in simp)
  have s3: "set_bytes ((pre @ k @ l) @ drop 8 rest) (snd c) (off + 4 + 4) =
     (if length (snd c) \<le> length (drop 8 rest)
      then Inr ((pre @ k @ l) @ snd c @ drop (length (snd c)) (drop 8 rest))
      else Inl RangeError)"
    by (rule set_bytes_at) (use assms lk ll in simp)
  have e: "enc_cell c = k @ l @ snd c"
    by (simp add: enc_cell_def k_def l_def)
  show ?thesis
  proof (cases "length (enc_cell c) \<le> length rest")
    case True
    then have b: "4 \<le> length rest" "4 \<le> length (drop 4 rest)"
      "length (snd c) \<le> length (drop 8 rest)"
      by simp_all
    have d: "drop (length (snd c)) (drop 8 rest) = drop (length (enc_cell c)) rest"
      by (simp add: add.commute)
    show ?thesis
      using True s1 s2 s3 b unfolding e d[unfolded e]
      by (simp add: lk ll)
  next
    case False
    then consider "\<not> 4 \<le> length rest" | "4 \<le> length rest" "\<not> 4 \<le> length (drop 4 rest)"
      | "4 \<le> length rest" "4 \<le> length (drop 4 rest)" "\<not> length (snd c) \<le> length (drop 8 rest)"
      by fastforce
    then show ?thesis
    proof cases
      case 1
      then show ?thesis using False s1 by simp
    next
      case 2
      then show ?thesis using False s1 s2 by simp
    next
      case 3
      then show ?thesis using False s1 s2 s3 by simp
    qed
  qed
qed

lemma write_cells_at:
  "length pre = off \<Longrightarrow>
   write_cells (pre @ rest) off cs =
     (if cs = [] \<or> length (enc_cells cs) \<le> length rest
      then Inr (pre @ enc_cells cs @ drop (length (enc_cells cs)) rest)
      else Inl RangeError)"
proof (induction cs arbitrary: pre rest off)
  case Nil
  then show ?case by simp
next
  case (Cons c cs)
  have ih: "write_cells ((pre @ enc_cell c) @ drop (length (enc_cell c)) rest)
          (off + 4 + 4 + length (snd c)) cs =
     (if cs = [] \<or> length (enc_cells cs) \<le> length (drop (length (enc_cell c)) rest)
      then Inr ((pre @ enc_cell c) @ enc_cells cs @
             drop (length (enc_cells cs)) (drop (length (enc_cell c)) rest))
      else Inl RangeError)"
    by (rule Cons.IH) (use Cons.prems in simp)
  show ?case
    unfolding write_cells.simps write_cell_at[OF Cons.prems]
    using ih by (auto simp: add.commute)
qed

lemma stored_sel [simp]:
  "fst (stored c) = fst c mod 4294967296"
  "snd (stored c) = snd c"
  by (simp_all add: stored_def)

lemma map_of_stored_Cons:
  "map_of (stored c # ps) key = (if key = fst c mod 4294967296 then Some (snd c) else map_of ps key)"
  by (simp add: stored_def)

definition small :: "cell list \<Rightarrow> bool" where
  "small cs \<longleftrightarrow> (\<forall>c\<in>set cs. length (snd c) < 4294967296)"

lemma small_simps [simp]:
  "small []"
  "small (c # cs) \<longleftrightarrow> length (snd c) < 4294967296 \<and> small cs"
  by (auto simp: small_def)

lemma cell_at:
  assumes "length pre = off" "length (snd c) < 4294967296"
  shows "getUint32 (pre @ enc_cell c @ rest) off = Inr (nat (fst c mod 4294967296))"
    and "getUint32 (pre @ enc_cell c @ rest) (off + 4) = Inr (length (snd c))"
    and "slice (pre @ enc_cell c @ rest) (off + 4 + 4) (off + 4 + 4 + length (snd c)) = snd c"
proof -
  define k where "k = be32 (nat (fst c mod 4294967296))"
  define l where "l = be32 (length (snd c) mod 4294967296)"
  have lk: "length k = 4" and ll: "length l = 4"
    by (simp_all add: k_def l_def)
  have e: "pre @ enc_cell c @ rest = pre @ k @ (l @ snd c @ rest)"
    "pre @ enc_cell c @ rest = (pre @ k) @ l @ (snd c @ rest)"
    "pre @ enc_cell c @ rest = (pre @ k @ l) @ snd c @ rest"
    by (simp_all add: enc_cell_def k_def l_def)
  have m: "nat (fst c mod 4294967296) mod 4294967296 = nat (fst c mod 4294967296)"
    by (simp add: nat_less_iff)
  show "getUint32 (pre @ enc_cell c @ rest) off = Inr (nat (fst c mod 4294967296))"
    unfolding e(1) k_def using getUint32_at[OF assms(1)] m by simp
  have "getUint32 ((pre @ k) @ l @ (snd c @ rest)) (off + 4) = Inr (length (snd c) mod 4294967296 mod 4294967296)"
    unfolding l_def by (rule getUint32_at) (use assms lk in simp)
  then show "getUint32 (pre @ enc_cell c @ rest) (off + 4) = Inr (length (snd c))"
    unfolding e(2) using assms(2) by simp
  show "slice (pre @ enc_cell c @ rest) (off + 4 + 4) (off + 4 + 4 + length (snd c)) = snd c"
    unfolding e(3) by (rule slice_at) (use assms lk ll in simp_all)
qed

lemma int_nat_mod: "int (nat (k mod 4294967296)) = k mod 4294967296"
  by simp

lemma read_cells_at:
  "small cs \<Longrightarrow> length pre = off \<Longrightarrow>
   read_cells (pre @ enc_cells cs @ post) off (length cs) acc = Inr (acc @ map stored cs)"
proof (induction cs arbitrary: pre off acc)
  case Nil
  then show ?case by simp
next
  case (Cons c cs)
  have sm: "length (snd c) < 4294967296" "small cs"
    using Cons.prems(1) by simp_all
  have p: "pre @ enc_cells (c # cs) @ post = pre @ enc_cell c @ (enc_cells cs @ post)"
    by simp
  have q: "pre @ enc_cells (c # cs) @ post = (pre @ enc_cell c) @ enc_cells cs @ post"
    by simp
  have ih: "read_cells ((pre @ enc_cell c) @ enc_cells cs @ post) (off + 4 + 4 + length (snd c))
              (length cs) (acc @ [stored c]) = Inr ((acc @ [stored c]) @ map stored cs)"
    by (rule Cons.IH[OF sm(2)]) (use Cons.prems(2) in simp)
  show ?case
    using cell_at[OF Cons.prems(2) sm(1), of "enc_cells cs @ post", folded p] ih[folded q]
    by (simp add: stored_def)
qed

lemma findMax_leaf_at:
  "small cs \<Longrightarrow> length pre = off \<Longrightarrow>
   findMax_leaf (pre @ enc_cells cs @ post) off (length cs) maxK =
     Inr (if cs = [] then maxK else nat (fst (last cs) mod 4294967296))"
proof (induction cs arbitrary: pre off maxK)
  case Nil
  then show ?case by simp
next
  case (Cons c cs)
  have sm: "length (snd c) < 4294967296" "small cs"
    using Cons.prems(1) by simp_all
  have p: "pre @ enc_cells (c # cs) @ post = pre @ enc_cell c @ (enc_cells cs @ post)"
    by simp
  have q: "pre @ enc_cells (c # cs) @ post = (pre @ enc_cell c) @ enc_cells cs @ post"
    by simp
  have ih: "findMax_leaf ((pre @ enc_cell c) @ enc_cells cs @ post) (off + 4 + (4 + length (snd c)))
              (length cs) (nat (fst c mod 4294967296)) =
            Inr (if cs = [] then nat (fst c mod 4294967296) else nat (fst (last cs) mod 4294967296))"
    by (rule Cons.IH[OF sm(2)]) (use Cons.prems(2) in simp)
  show ?case
    using cell_at(1,2)[OF Cons.prems(2) sm(1), of "enc_cells cs @ post", folded p] ih[folded q]
    by simp
qed

lemma findInLeaf_cells_at:
  "small cs \<Longrightarrow> length pre = off \<Longrightarrow>
   findInLeaf_cells (pre @ enc_cells cs @ post) key off (length cs) =
     Inr (map_of (map stored cs) key)"
proof (induction cs arbitrary: pre off)
  case Nil
  then show ?case by simp
next
  case (Cons c cs)
  have sm: "length (snd c) < 4294967296" "small cs"
    using Cons.prems(1) by simp_all
  have p: "pre @ enc_cells (c # cs) @ post = pre @ enc_cell c @ (enc_cells cs @ post)"
    by simp
  have q: "pre @ enc_cells (c # cs) @ post = (pre @ enc_cell c) @ enc_cells cs @ post"
    by simp
  have ih: "findInLeaf_cells ((pre @ enc_cell c) @ enc_cells cs @ post) key
              (off + 4 + 4 + length (snd c)) (length cs) = Inr (map_of (map stored cs) key)"
    by (rule Cons.IH[OF sm(2)]) (use Cons.prems(2) in simp)
  show ?case
    using cell_at[OF Cons.prems(2) sm(1), of "enc_cells cs @ post", folded p] ih[folded q]
    by (auto simp: map_of_stored_Cons)
qed

fun scan_index :: "int \<Rightarrow> cell list \<Rightarrow> nat \<Rightarrow> nat \<Rightarrow> bool \<Rightarrow> nat" where
  "scan_index key [] i ins found = ins"
| "scan_index key (c # cs) i ins found =
     (if \<not> found \<and> fst c > key then scan_index key cs (i + 1) i True
      else scan_index key cs (i + 1) ins found)"

lemma insertIntoLeaf_scan_at:
  "small cs \<Longrightarrow> length pre = off \<Longrightarrow>
   insertIntoLeaf_scan (pre @ enc_cells cs @ post) key i (length cs) off ins found =
     (if key \<in> fst ` set (map stored cs) then Inl (DuplicateKey key)
      else Inr (scan_index key (map stored cs) i ins found, off + length (enc_cells cs)))"
proof (induction cs arbitrary: pre off i ins found)
  case Nil
  then show ?case by simp
next
  case (Cons c cs)
  have sm: "length (snd c) < 4294967296" "small cs"
    using Cons.prems(1) by simp_all
  have p: "pre @ enc_cells (c # cs) @ post = pre @ enc_cell c @ (enc_cells cs @ post)"
    by simp
  have q: "pre @ enc_cells (c # cs) @ post = (pre @ enc_cell c) @ enc_cells cs @ post"
    by simp
  have ih: "insertIntoLeaf_scan ((pre @ enc_cell c) @ enc_cells cs @ post) key (i + 1) (length cs)
              (off + 4 + (4 + length (snd c))) ins' found' =
     (if key \<in> fst ` set (map stored cs) then Inl (DuplicateKey key)
      else Inr (scan_index key (map stored cs) (i + 1) ins' found',
                (off + 4 + (4 + length (snd c))) + length (enc_cells cs)))" for ins' found'
    by (rule Cons.IH[OF sm(2)]) (use Cons.prems(2) in simp)
  show ?case
    using cell_at(1,2)[OF Cons.prems(2) sm(1), of "enc_cells cs @ post", folded p] ih[folded q]
    by (auto simp: Let_def)
qed

lemma enc_cell_read:
  "enc_cell (int (nat (fst c mod 4294967296)), snd c) = enc_cell c"
  by (simp add: enc_cell_def)

lemma enc_cell_stored [simp]: "enc_cell (stored c) = enc_cell c"
  by (simp add: enc_cell_def stored_def)

lemma enc_cells_stored [simp]: "enc_cells (map stored cs) = enc_cells cs"
  by (induction cs) simp_all

lemma copy_cells_at:
  "small cs \<Longrightarrow> length spre = src \<Longrightarrow> length dpre = dst \<Longrightarrow>
   copy_cells (spre @ enc_cells cs @ spost) (dpre @ drest) src dst (length cs) =
     (if cs = [] \<or> length (enc_cells cs) \<le> length drest
      then Inr (dpre @ enc_cells cs @ drop (length (enc_cells cs)) drest,
                src + length (enc_cells cs), dst + length (enc_cells cs))
      else Inl RangeError)"
proof (induction cs arbitrary: spre src dpre dst drest)
  case Nil
  then show ?case by simp
next
  case (Cons c cs)
  have sm: "length (snd c) < 4294967296" "small cs"
    using Cons.prems(1) by simp_all
  define page where "page = spre @ enc_cells (c # cs) @ spost"
  have p: "page = spre @ enc_cell c @ (enc_cells cs @ spost)"
    by (simp add: page_def)
  have q: "page = (spre @ enc_cell c) @ enc_cells cs @ spost"
    by (simp add: page_def)
  note rd = cell_at[OF Cons.prems(2) sm(1), of "enc_cells cs @ spost", folded p]
  have ih: "copy_cells page ((dpre @ enc_cell c) @ drop (length (enc_cell c)) drest)
              (src + 4 + 4 + length (snd c)) (dst + 4 + 4 + length (snd c)) (length cs) =
     (if cs = [] \<or> length (enc_cells cs) \<le> length (drop (length (enc_cell c)) drest)
      then Inr ((dpre @ enc_cell c) @ enc_cells cs @
                  drop (length (enc_cells cs)) (drop (length (enc_cell c)) drest),
                (src + 4 + 4 + length (snd c)) + length (enc_cells cs),
                (dst + 4 + 4 + length (snd c)) + length (enc_cells cs))
      else Inl RangeError)"
    unfolding q
    by (rule Cons.IH[OF sm(2)]) (use Cons.prems in simp_all)
  have w: "ebind (setUint32 (dpre @ drest) dst (int (nat (fst c mod 4294967296)))) (\<lambda>p1.
         ebind (setUint32 p1 (dst + 4) (int (length (snd c)))) (\<lambda>p2.
         ebind (set_bytes p2 (snd c) (dst + 4 + 4)) f)) =
         (if length (enc_cell c) \<le> length drest
          then f (dpre @ enc_cell c @ drop (length (enc_cell c)) drest)
          else Inl RangeError)" for f :: "byte list \<Rightarrow> error + byte list \<times> nat \<times> nat"
    using write_cell_at[OF Cons.prems(3), of drest "(int (nat (fst c mod 4294967296)), snd c)" f]
    unfolding fst_conv snd_conv enc_cell_read .
  show ?case
    unfolding page_def[symmetric] length_Cons copy_cells.simps rd ebind_simps w
    using ih by (auto simp: add.commute add.left_commute)
qed

lemma delete_cells_at:
  "small cs \<Longrightarrow> length spre = src \<Longrightarrow> length dpre = dst \<Longrightarrow>
   delete_cells (spre @ enc_cells cs @ spost) (dpre @ drest) key src dst (length cs) found cnt =
     (let kept = filter (\<lambda>c. fst c mod 4294967296 \<noteq> key) cs in
      if kept = [] \<or> length (enc_cells kept) \<le> length drest
      then Inr (dpre @ enc_cells kept @ drop (length (enc_cells kept)) drest,
                found \<or> key \<in> fst ` set (map stored cs), cnt + length kept)
      else Inl RangeError)"
proof (induction cs arbitrary: spre src dpre dst drest found cnt)
  case Nil
  then show ?case by simp
next
  case (Cons c cs)
  have sm: "length (snd c) < 4294967296" "small cs"
    using Cons.prems(1) by simp_all
  define page where "page = spre @ enc_cells (c # cs) @ spost"
  define kept where "kept = filter (\<lambda>c. fst c mod 4294967296 \<noteq> key) cs"
  have p: "page = spre @ enc_cell c @ (enc_cells cs @ spost)"
    by (simp add: page_def)
  have q: "page = (spre @ enc_cell c) @ enc_cells cs @ spost"
    by (simp add: page_def)
  note rd = cell_at[OF Cons.prems(2) sm(1), of "enc_cells cs @ spost", folded p]
  have ih1: "delete_cells page (dpre @ drest) key (src + 4 + 4 + length (snd c)) dst (length cs)
               True cnt =
     (if kept = [] \<or> length (enc_cells kept) \<le> length drest
      then Inr (dpre @ enc_cells kept @ drop (length (enc_cells kept)) drest,
                True \<or> key \<in> fst ` set (map stored cs), cnt + length kept)
      else Inl RangeError)"
    unfolding q kept_def
    using Cons.IH[OF sm(2), of "spre @ enc_cell c" "src + 4 + 4 + length (snd c)" dpre dst drest True cnt]
      Cons.prems by (simp add: Let_def)
  have ih2: "delete_cells page ((dpre @ enc_cell c) @ drop (length (enc_cell c)) drest) key
              (src + 4 + 4 + length (snd c)) (dst + 4 + 4 + length (snd c)) (length cs) found (cnt + 1) =
     (if kept = [] \<or> length (enc_cells kept) \<le> length (drop (length (enc_cell c)) drest)
      then Inr ((dpre @ enc_cell c) @ enc_cells kept @
                  drop (length (enc_cells kept)) (drop (length (enc_cell c)) drest),
                found \<or> key \<in> fst ` set (map stored cs), (cnt + 1) + length kept)
      else Inl RangeError)"
    unfolding q kept_def
    using Cons.IH[OF sm(2), of "spre @ enc_cell c" "src + 4 + 4 + length (snd c)"
        "dpre @ enc_cell c" "dst + 4 + 4 + length (snd c)" "drop (length (enc_cell c)) drest" found "cnt + 1"]
      Cons.prems by (simp add: Let_def)
  have w: "ebind (setUint32 (dpre @ drest) dst (fst c mod 4294967296)) (\<lambda>p1.
         ebind (setUint32 p1 (dst + 4) (int (length (snd c)))) (\<lambda>p2.
         ebind (set_bytes p2 (snd c) (dst + 4 + 4)) f)) =
         (if length (enc_cell c) \<le> length drest
          then f (dpre @ enc_cell c @ drop (length (enc_cell c)) drest)
          else Inl RangeError)" for f :: "byte list \<Rightarrow> error + byte list \<times> bool \<times> nat"
    using write_cell_at[OF Cons.prems(3), of drest "stored c" f]
    unfolding stored_sel enc_cell_stored .
  show ?case
  proof (cases "fst c mod 4294967296 = key")
    case True
    then show ?thesis
      unfolding page_def[symmetric] length_Cons delete_cells.simps rd ebind_simps int_nat_mod
      using ih1 by (simp add: Let_def kept_def)
  next
    case False
    then show ?thesis
      unfolding page_def[symmetric] length_Cons delete_cells.simps rd ebind_simps int_nat_mod w
      using ih2 by (auto simp: Let_def kept_def add.commute add.left_commute)
  qed
qed


section \<open>Leaf pages\<close>

definition hdr :: "nat \<Rightarrow> nat \<Rightarrow> nat \<Rightarrow> byte list" where
  "hdr t n parent = [of_nat (t mod 256)] @ be16 (n mod 65536) @ be32 (parent mod 4294967296)"

lemma length_hdr [simp]: "length (hdr t n parent) = 7"
  by (simp add: hdr_def)

lemma getUint8_at:
  assumes "length pre = off"
  shows "getUint8 (pre @ [of_nat (t mod 256)] @ post) off = Inr (t mod 256)"
proof -
  have s: "slice (pre @ [of_nat (t mod 256)] @ post) (length pre) (length pre + 1) = [of_nat (t mod 256)]"
    by (rule slice_append_n) simp
  show ?thesis
    unfolding getUint8_def assms[symmetric] s by (simp add: be_nat_def unat_of_nat)
qed

lemma hdr_read:
  "getUint8 (hdr t n parent @ rest) OFF_TYPE = Inr (t mod 256)"
  "getUint16 (hdr t n parent @ rest) OFF_NUM_CELLS = Inr (n mod 65536)"
  "getUint32 (hdr t n parent @ rest) OFF_PARENT = Inr (parent mod 4294967296)"
proof -
  show "getUint8 (hdr t n parent @ rest) OFF_TYPE = Inr (t mod 256)"
    using getUint8_at[of "[]" 0 t "be16 (n mod 65536) @ be32 (parent mod 4294967296) @ rest"]
    by (simp add: hdr_def OFF_TYPE_def)
  show "getUint16 (hdr t n parent @ rest) OFF_NUM_CELLS = Inr (n mod 65536)"
    using getUint16_at[of "[of_nat (t mod 256)]" 1 "n mod 65536" "be32 (parent mod 4294967296) @ rest"]
    by (simp add: hdr_def OFF_NUM_CELLS_def)
  show "getUint32 (hdr t n parent @ rest) OFF_PARENT = Inr (parent mod 4294967296)"
    using getUint32_at[of "[of_nat (t mod 256)] @ be16 (n mod 65536)" 3 "parent mod 4294967296" rest]
    by (simp add: hdr_def OFF_PARENT_def)
qed

lemma be32_zero: "be32 0 = [0, 0, 0, 0]"
  by (simp add: be32_def)

lemma zero_page_split: "n \<le> PAGE_SIZE \<Longrightarrow> zero_page = replicate n 0 @ replicate (PAGE_SIZE - n) 0"
  by (simp add: zero_page_def replicate_add[symmetric])

lemma drop_zeros [simp]: "drop n (replicate m (0::byte)) = replicate (m - n) 0"
  by simp

lemma header_written:
  "ebind (setUint8 zero_page OFF_TYPE (int t)) (\<lambda>p1.
   ebind (setUint16 p1 OFF_NUM_CELLS (int n)) f) =
   f (hdr t n 0 @ replicate (PAGE_SIZE - 7) 0)"
proof -
  have a: "setUint8 zero_page OFF_TYPE (int t) = Inr ([of_nat (t mod 256)] @ replicate (PAGE_SIZE - 1) 0)"
    using set_bytes_at[of "[]" 0 zero_page "[of_nat (t mod 256)]"]
    by (simp add: setUint8_def OFF_TYPE_def zero_page_def PAGE_SIZE_def nat_mod_distrib)
  have b: "setUint16 ([of_nat (t mod 256)] @ replicate (PAGE_SIZE - 1) 0) OFF_NUM_CELLS (int n) =
      Inr ([of_nat (t mod 256)] @ be16 (n mod 65536) @ replicate (PAGE_SIZE - 3) 0)"
    using set_bytes_at[of "[of_nat (t mod 256)]" 1 "replicate (PAGE_SIZE - 1) 0" "be16 (n mod 65536)"]
    by (simp add: setUint16_def OFF_NUM_CELLS_def PAGE_SIZE_def nat_mod_distrib)
  have c: "[of_nat (t mod 256)] @ be16 (n mod 65536) @ replicate (PAGE_SIZE - 3) 0 =
       hdr t n 0 @ replicate (PAGE_SIZE - 7) 0"
  proof -
    have "replicate (PAGE_SIZE - 3) (0::byte) = replicate 4 0 @ replicate (PAGE_SIZE - 7) 0"
      unfolding replicate_add[symmetric] by (simp add: PAGE_SIZE_def)
    moreover have "replicate 4 (0::byte) = [0, 0, 0, 0]"
      by (simp add: numeral_eq_Suc)
    ultimately show ?thesis
      by (simp add: hdr_def be32_zero)
  qed
  show ?thesis
    unfolding a b ebind_simps c ..
qed

definition keys_ok :: "cell list \<Rightarrow> bool" where
  "keys_ok cs \<longleftrightarrow> (\<forall>c\<in>set cs. 0 \<le> fst c \<and> fst c < 4294967296)"

definition is_leaf :: "byte list \<Rightarrow> nat \<Rightarrow> cell list \<Rightarrow> bool" where
  "is_leaf page parent cs \<longleftrightarrow>
     length page = PAGE_SIZE \<and> parent < 4294967296 \<and> keys_ok cs \<and>
     (\<exists>tail. page = hdr NODE_LEAF (length cs) parent @ enc_cells cs @ tail)"

lemma keys_ok_simps [simp]:
  "keys_ok []"
  "keys_ok (c # cs) \<longleftrightarrow> 0 \<le> fst c \<and> fst c < 4294967296 \<and> keys_ok cs"
  "keys_ok (xs @ ys) \<longleftrightarrow> keys_ok xs \<and> keys_ok ys"
  by (auto simp: keys_ok_def)

lemma keys_ok_stored [simp]: "keys_ok (map stored cs)"
  by (auto simp: keys_ok_def)

lemma stored_id: "0 \<le> fst c \<Longrightarrow> fst c < 4294967296 \<Longrightarrow> stored c = c"
  by (simp add: stored_def)

lemma map_stored_id: "keys_ok cs \<Longrightarrow> map stored cs = cs"
  by (induction cs) (simp_all add: stored_id)

lemma length_enc_cells_ge: "8 * length cs \<le> length (enc_cells cs)"
  by (induction cs) simp_all

lemma length_enc_cells_mem: "c \<in> set cs \<Longrightarrow> 8 + length (snd c) \<le> length (enc_cells cs)"
  by (induction cs) auto

lemma small_enc: "length (enc_cells cs) < 4294967296 \<Longrightarrow> small cs"
  using length_enc_cells_mem by (fastforce simp: small_def)

lemma length_enc_cells_filter: "length (enc_cells (filter P cs)) \<le> length (enc_cells cs)"
  by (induction cs) simp_all

lemma is_leaf_size:
  assumes "is_leaf page parent cs"
  shows "7 + length (enc_cells cs) \<le> PAGE_SIZE" "length cs < 512" "small cs"
proof -
  obtain tail where p: "page = hdr NODE_LEAF (length cs) parent @ enc_cells cs @ tail"
    and l: "length page = PAGE_SIZE"
    using assms by (auto simp: is_leaf_def)
  have "length page = 7 + length (enc_cells cs) + length tail"
    unfolding p by simp
  then show a: "7 + length (enc_cells cs) \<le> PAGE_SIZE"
    using l by simp
  show "length cs < 512"
    using a length_enc_cells_ge[of cs] by (simp add: PAGE_SIZE_def)
  show "small cs"
    by (rule small_enc) (use a in \<open>simp add: PAGE_SIZE_def\<close>)
qed

lemma is_leaf_reads:
  assumes "is_leaf page parent cs"
  shows "getUint8 page OFF_TYPE = Inr NODE_LEAF"
    and "getUint16 page OFF_NUM_CELLS = Inr (length cs)"
    and "getUint32 page OFF_PARENT = Inr parent"
    and "read_cells page HEADER_SIZE (length cs) acc = Inr (acc @ cs)"
    and "findInLeaf_cells page key HEADER_SIZE (length cs) = Inr (map_of cs key)"
    and "findMax_leaf page HEADER_SIZE (length cs) maxK =
           Inr (if cs = [] then maxK else nat (fst (last cs)))"
    and "insertIntoLeaf_scan page key i (length cs) HEADER_SIZE ins found =
           (if key \<in> fst ` set cs then Inl (DuplicateKey key)
            else Inr (scan_index key cs i ins found, HEADER_SIZE + length (enc_cells cs)))"
proof -
  obtain tail where p: "page = hdr NODE_LEAF (length cs) parent @ enc_cells cs @ tail"
    and par: "parent < 4294967296" and ok: "keys_ok cs"
    using assms by (auto simp: is_leaf_def)
  note sz = is_leaf_size[OF assms]
  have st: "map stored cs = cs"
    using ok by (rule map_stored_id)
  show "getUint8 page OFF_TYPE = Inr NODE_LEAF"
    unfolding p hdr_read by (simp add: NODE_LEAF_def)
  show "getUint16 page OFF_NUM_CELLS = Inr (length cs)"
    unfolding p hdr_read using sz(2) by simp
  show "getUint32 page OFF_PARENT = Inr parent"
    unfolding p hdr_read using par by simp
  show "read_cells page HEADER_SIZE (length cs) acc = Inr (acc @ cs)"
    unfolding p using read_cells_at[OF sz(3), of "hdr NODE_LEAF (length cs) parent" HEADER_SIZE tail acc]
    by (simp add: HEADER_SIZE_def st)
  show "findInLeaf_cells page key HEADER_SIZE (length cs) = Inr (map_of cs key)"
    unfolding p using findInLeaf_cells_at[OF sz(3), of "hdr NODE_LEAF (length cs) parent" HEADER_SIZE tail key]
    by (simp add: HEADER_SIZE_def st)
  have lm: "cs \<noteq> [] \<Longrightarrow> fst (last cs) mod 4294967296 = fst (last cs)"
    using ok last_in_set[of cs] by (auto simp: keys_ok_def)
  show "findMax_leaf page HEADER_SIZE (length cs) maxK =
           Inr (if cs = [] then maxK else nat (fst (last cs)))"
    unfolding p using findMax_leaf_at[OF sz(3), of "hdr NODE_LEAF (length cs) parent" HEADER_SIZE tail maxK] lm
    by (simp add: HEADER_SIZE_def)
  show "insertIntoLeaf_scan page key i (length cs) HEADER_SIZE ins found =
           (if key \<in> fst ` set cs then Inl (DuplicateKey key)
            else Inr (scan_index key cs i ins found, HEADER_SIZE + length (enc_cells cs)))"
    unfolding p
    using insertIntoLeaf_scan_at[OF sz(3), of "hdr NODE_LEAF (length cs) parent" HEADER_SIZE tail key i ins found]
    unfolding st by (simp add: HEADER_SIZE_def)
qed

lemma leaf_page_of_eq:
  "leaf_page_of cs =
     (if length (enc_cells cs) \<le> PAGE_SIZE - 7
      then Inr (hdr NODE_LEAF (length cs) 0 @ enc_cells cs @
                replicate (PAGE_SIZE - 7 - length (enc_cells cs)) 0)
      else Inl RangeError)"
proof -
  have w: "write_cells (hdr NODE_LEAF (length cs) 0 @ replicate (PAGE_SIZE - 7) 0) HEADER_SIZE cs =
     (if cs = [] \<or> length (enc_cells cs) \<le> length (replicate (PAGE_SIZE - 7) (0::byte))
      then Inr (hdr NODE_LEAF (length cs) 0 @ enc_cells cs @
             drop (length (enc_cells cs)) (replicate (PAGE_SIZE - 7) 0))
      else Inl RangeError)"
    by (rule write_cells_at) (simp add: HEADER_SIZE_def)
  show ?thesis
    unfolding leaf_page_of_def header_written w by auto
qed

lemma leaf_page_of_is_leaf:
  assumes "leaf_page_of cs = Inr page"
  shows "is_leaf page 0 (map stored cs)" "length (enc_cells cs) \<le> PAGE_SIZE - 7"
proof -
  have f: "length (enc_cells cs) \<le> PAGE_SIZE - 7"
    using assms unfolding leaf_page_of_eq by (simp split: if_splits)
  then show "length (enc_cells cs) \<le> PAGE_SIZE - 7" .
  have p: "page = hdr NODE_LEAF (length cs) 0 @ enc_cells cs @
                replicate (PAGE_SIZE - 7 - length (enc_cells cs)) 0"
    using assms f unfolding leaf_page_of_eq by simp
  show "is_leaf page 0 (map stored cs)"
    unfolding is_leaf_def p using f by (auto simp: PAGE_SIZE_def)
qed


lemma hdr_set_count:
  "setUint16 (hdr t n parent @ rest) OFF_NUM_CELLS (int m) = Inr (hdr t m parent @ rest)"
proof -
  have "set_bytes ([of_nat (t mod 256)] @ (be16 (n mod 65536) @ be32 (parent mod 4294967296) @ rest))
          (be16 (nat (int m mod 65536))) OFF_NUM_CELLS =
        (if length (be16 (nat (int m mod 65536))) \<le> length (be16 (n mod 65536) @ be32 (parent mod 4294967296) @ rest)
         then Inr ([of_nat (t mod 256)] @ be16 (nat (int m mod 65536)) @
                drop (length (be16 (nat (int m mod 65536)))) (be16 (n mod 65536) @ be32 (parent mod 4294967296) @ rest))
         else Inl RangeError)"
    by (rule set_bytes_at) (simp add: OFF_NUM_CELLS_def)
  then show ?thesis
    by (simp add: setUint16_def hdr_def nat_mod_distrib)
qed

lemma hdr_set_parent:
  "setUint32 (hdr t n parent @ rest) OFF_PARENT (int q) = Inr (hdr t n q @ rest)"
proof -
  have "set_bytes (([of_nat (t mod 256)] @ be16 (n mod 65536)) @ (be32 (parent mod 4294967296) @ rest))
          (be32 (nat (int q mod 4294967296))) OFF_PARENT =
        (if length (be32 (nat (int q mod 4294967296))) \<le> length (be32 (parent mod 4294967296) @ rest)
         then Inr (([of_nat (t mod 256)] @ be16 (n mod 65536)) @ be32 (nat (int q mod 4294967296)) @
                drop (length (be32 (nat (int q mod 4294967296)))) (be32 (parent mod 4294967296) @ rest))
         else Inl RangeError)"
    by (rule set_bytes_at) (simp add: OFF_PARENT_def)
  then show ?thesis
    by (simp add: setUint32_def hdr_def nat_mod_distrib)
qed

lemma leaf_page_insert_eq:
  assumes "is_leaf page parent cs" "idx \<le> length cs"
    and "HEADER_SIZE + length (enc_cells cs) + (8 + length val) \<le> PAGE_SIZE"
  shows "\<exists>np. leaf_page_insert page (length cs) idx key val = Inr np \<and>
           is_leaf np parent (take idx cs @ [stored (key, val)] @ drop idx cs)"
proof -
  obtain tail where p: "page = hdr NODE_LEAF (length cs) parent @ enc_cells cs @ tail"
    and par: "parent < 4294967296" and ok: "keys_ok cs"
    using assms(1) by (auto simp: is_leaf_def)
  note sz = is_leaf_size[OF assms(1)]
  define H where "H = hdr NODE_LEAF (length cs) parent"
  define H' where "H' = hdr NODE_LEAF (length cs + 1) parent"
  define A where "A = enc_cells (take idx cs)"
  define B where "B = enc_cells (drop idx cs)"
  define C where "C = enc_cell (key, val)"
  define Z where "Z = replicate (PAGE_SIZE - 7) (0::byte)"
  have AB: "enc_cells cs = A @ B"
    unfolding A_def B_def enc_cells_simps(3)[symmetric] by simp
  have lens: "length A + length B = length (enc_cells cs)" "length C = 8 + length val"
    "length H = 7" "length H' = 7" "length Z = PAGE_SIZE - 7"
    by (simp_all add: AB C_def H_def H'_def Z_def)
  have fit: "length A + length C + length B \<le> length Z"
    using assms(3) lens by (simp add: HEADER_SIZE_def PAGE_SIZE_def)
  have s0: "slice page 0 HEADER_SIZE = H"
    unfolding p H_def[symmetric] by (simp add: slice_def HEADER_SIZE_def lens)
  have s1: "set_bytes zero_page H 0 = Inr (H @ Z)"
    using set_bytes_at[of "[]" 0 zero_page H]
    by (simp add: zero_page_def lens Z_def PAGE_SIZE_def)
  have s2: "setUint16 (H @ Z) OFF_NUM_CELLS (int (length cs) + 1) = Inr (H' @ Z)"
    using hdr_set_count[of NODE_LEAF "length cs" parent Z "length cs + 1"]
    by (simp add: H_def H'_def add.commute)
  have s3: "copy_cells page (H' @ Z) HEADER_SIZE HEADER_SIZE idx =
      Inr (H' @ A @ drop (length A) Z, HEADER_SIZE + length A, HEADER_SIZE + length A)"
  proof -
    have "copy_cells (H @ enc_cells (take idx cs) @ (B @ tail)) (H' @ Z) HEADER_SIZE HEADER_SIZE
            (length (take idx cs)) =
     (if take idx cs = [] \<or> length (enc_cells (take idx cs)) \<le> length Z
      then Inr (H' @ enc_cells (take idx cs) @ drop (length (enc_cells (take idx cs))) Z,
                HEADER_SIZE + length (enc_cells (take idx cs)), HEADER_SIZE + length (enc_cells (take idx cs)))
      else Inl RangeError)"
      by (rule copy_cells_at) (use sz(3) in \<open>auto simp: small_def lens HEADER_SIZE_def dest: in_set_takeD\<close>)
    then show ?thesis
      using fit assms(2) unfolding p H_def[symmetric] AB A_def[symmetric] by (simp add: min_absorb2)
  qed
  have s4: "ebind (setUint32 ((H' @ A) @ drop (length A) Z) (HEADER_SIZE + length A) key) (\<lambda>p3.
         ebind (setUint32 p3 (HEADER_SIZE + length A + 4) (int (length val))) (\<lambda>p4.
         ebind (set_bytes p4 val (HEADER_SIZE + length A + 4 + 4)) f)) =
         f ((H' @ A) @ C @ drop (length C) (drop (length A) Z))" for f :: "byte list \<Rightarrow> error + byte list"
  proof -
    have c: "length C \<le> length (drop (length A) Z)"
      using fit lens by simp
    have l: "length (H' @ A) = HEADER_SIZE + length A"
      by (simp add: lens HEADER_SIZE_def)
    show ?thesis
      using write_cell_at[OF l, of "drop (length A) Z" "(key, val)" f]
      unfolding fst_conv snd_conv C_def[symmetric] if_P[OF c] .
  qed
  have s5: "copy_cells page ((H' @ A @ C) @ drop (length C) (drop (length A) Z)) (HEADER_SIZE + length A)
             (HEADER_SIZE + length A + 4 + 4 + length val) (length cs - idx) =
      Inr ((H' @ A @ C) @ B @ drop (length B) (drop (length C) (drop (length A) Z)),
           (HEADER_SIZE + length A) + length B, (HEADER_SIZE + length A + 4 + 4 + length val) + length B)"
  proof -
    have "copy_cells ((H @ A) @ enc_cells (drop idx cs) @ tail) ((H' @ A @ C) @ drop (length C) (drop (length A) Z))
            (HEADER_SIZE + length A) (HEADER_SIZE + length A + 4 + 4 + length val)
            (length (drop idx cs)) =
     (if drop idx cs = [] \<or> length (enc_cells (drop idx cs)) \<le> length (drop (length C) (drop (length A) Z))
      then Inr ((H' @ A @ C) @ enc_cells (drop idx cs) @
                  drop (length (enc_cells (drop idx cs))) (drop (length C) (drop (length A) Z)),
                (HEADER_SIZE + length A) + length (enc_cells (drop idx cs)),
                (HEADER_SIZE + length A + 4 + 4 + length val) + length (enc_cells (drop idx cs)))
      else Inl RangeError)"
      by (rule copy_cells_at) (use sz(3) in \<open>auto simp: small_def lens HEADER_SIZE_def dest: in_set_dropD\<close>)
    moreover have "drop idx cs = [] \<or>
        length (enc_cells (drop idx cs)) \<le> length (drop (length C) (drop (length A) Z))"
      using fit unfolding B_def length_drop by arith
    ultimately show ?thesis
      unfolding p H_def[symmetric] AB B_def[symmetric] by simp
  qed
  define np where "np = (H' @ A @ C) @ B @ drop (length B) (drop (length C) (drop (length A) Z))"
  have r: "leaf_page_insert page (length cs) idx key val = Inr np"
    unfolding leaf_page_insert_def s0 s1 ebind_simps s2 s3 prod.case
    using s4 s5 by (simp add: np_def)
  have st: "enc_cells (take idx cs @ [stored (key, val)] @ drop idx cs) = A @ C @ B"
    by (simp add: A_def B_def C_def)
  have "is_leaf np parent (take idx cs @ [stored (key, val)] @ drop idx cs)"
    unfolding is_leaf_def st
  proof (intro conjI)
    show "length np = PAGE_SIZE"
      using fit by (simp add: np_def lens PAGE_SIZE_def)
    show "parent < 4294967296" by (rule par)
    show "keys_ok (take idx cs @ [stored (key, val)] @ drop idx cs)"
      using ok by (auto simp: keys_ok_def dest: in_set_takeD in_set_dropD)
    have "length (take idx cs @ [stored (key, val)] @ drop idx cs) = length cs + 1"
      using assms(2) by simp
    then show "\<exists>tail. np = hdr NODE_LEAF (length (take idx cs @ [stored (key, val)] @ drop idx cs)) parent @
                   (A @ C @ B) @ tail"
      by (simp add: np_def H'_def)
  qed
  then show ?thesis using r by blast
qed


lemma setUint8_zero_page:
  "setUint8 zero_page OFF_TYPE (int t) = Inr (hdr t 0 0 @ replicate (PAGE_SIZE - 7) 0)"
proof -
  have "ebind (setUint8 zero_page OFF_TYPE (int t)) (\<lambda>p1.
        ebind (setUint16 p1 OFF_NUM_CELLS (int 0)) Inr) = Inr (hdr t 0 0 @ replicate (PAGE_SIZE - 7) 0)"
    by (rule header_written)
  moreover have "setUint8 zero_page OFF_TYPE (int t) = Inr ([of_nat (t mod 256)] @ replicate (PAGE_SIZE - 1) 0)"
    using set_bytes_at[of "[]" 0 zero_page "[of_nat (t mod 256)]"]
    by (simp add: setUint8_def OFF_TYPE_def zero_page_def PAGE_SIZE_def nat_mod_distrib)
  moreover have "[of_nat (t mod 256)] @ replicate (PAGE_SIZE - 1) (0::byte) = hdr t 0 0 @ replicate (PAGE_SIZE - 7) 0"
  proof -
    have "replicate (PAGE_SIZE - 1) (0::byte) = replicate 6 0 @ replicate (PAGE_SIZE - 7) 0"
      unfolding replicate_add[symmetric] by (simp add: PAGE_SIZE_def)
    moreover have "replicate 6 (0::byte) = [0, 0, 0, 0, 0, 0]"
      by (simp add: numeral_eq_Suc)
    ultimately show ?thesis
      by (simp add: hdr_def be32_def be16_def)
  qed
  ultimately show ?thesis by simp
qed

lemma delete_page_eq:
  fixes key :: int
  assumes "is_leaf page parent cs"
  defines "kept \<equiv> filter (\<lambda>c. fst c \<noteq> key) cs"
  shows "\<exists>p1 np.
     ebind (setUint8 zero_page OFF_TYPE (int NODE_LEAF)) (\<lambda>p0.
        delete_cells page p0 key HEADER_SIZE HEADER_SIZE (length cs) False 0) =
        Inr (p1, key \<in> fst ` set cs, length kept) \<and>
     ebind (setUint16 p1 OFF_NUM_CELLS (int (length kept))) (\<lambda>p2.
        ebind (getUint32 page OFF_PARENT) (\<lambda>parent.
          setUint32 p2 OFF_PARENT (int parent))) = Inr np \<and>
     is_leaf np parent kept"
proof -
  obtain tail where p: "page = hdr NODE_LEAF (length cs) parent @ enc_cells cs @ tail"
    and par: "parent < 4294967296" and ok: "keys_ok cs"
    using assms(1) by (auto simp: is_leaf_def)
  note sz = is_leaf_size[OF assms(1)]
  note rd = is_leaf_reads[OF assms(1)]
  define Z where "Z = replicate (PAGE_SIZE - 7) (0::byte)"
  have st: "map stored cs = cs" using ok by (rule map_stored_id)
  have kept': "filter (\<lambda>c. fst c mod 4294967296 \<noteq> key) cs = kept"
    unfolding kept_def using ok by (intro filter_cong) (auto simp: keys_ok_def)
  have fit: "length (enc_cells kept) \<le> length Z"
    using length_enc_cells_filter[of "\<lambda>c. fst c \<noteq> key" cs] sz(1)
    by (simp add: kept_def Z_def PAGE_SIZE_def)
  have d: "delete_cells (hdr NODE_LEAF (length cs) parent @ enc_cells cs @ tail) (hdr NODE_LEAF 0 0 @ Z) key
             HEADER_SIZE HEADER_SIZE (length cs) False 0 =
     (let kept = filter (\<lambda>c. fst c mod 4294967296 \<noteq> key) cs in
      if kept = [] \<or> length (enc_cells kept) \<le> length Z
      then Inr (hdr NODE_LEAF 0 0 @ enc_cells kept @ drop (length (enc_cells kept)) Z,
                False \<or> key \<in> fst ` set (map stored cs), 0 + length kept)
      else Inl RangeError)"
    by (rule delete_cells_at[OF sz(3)]) (simp_all add: HEADER_SIZE_def)
  define p1 where "p1 = hdr NODE_LEAF 0 0 @ enc_cells kept @ drop (length (enc_cells kept)) Z"
  define np where "np = hdr NODE_LEAF (length kept) parent @ enc_cells kept @ drop (length (enc_cells kept)) Z"
  have a: "ebind (setUint8 zero_page OFF_TYPE (int NODE_LEAF)) (\<lambda>p0.
        delete_cells page p0 key HEADER_SIZE HEADER_SIZE (length cs) False 0) =
        Inr (p1, key \<in> fst ` set cs, length kept)"
    unfolding setUint8_zero_page ebind_simps Z_def[symmetric] p
    using d fit unfolding kept' st Let_def by (simp add: p1_def)
  have b: "ebind (setUint16 p1 OFF_NUM_CELLS (int (length kept))) (\<lambda>p2.
        ebind (getUint32 page OFF_PARENT) (\<lambda>parent.
          setUint32 p2 OFF_PARENT (int parent))) = Inr np"
    unfolding p1_def hdr_set_count ebind_simps rd(3) hdr_set_parent np_def ..
  have "keys_ok kept"
    using ok by (auto simp: keys_ok_def kept_def)
  then have c: "is_leaf np parent kept"
    unfolding is_leaf_def np_def using par fit by (auto simp: Z_def PAGE_SIZE_def)
  show ?thesis using a b c by blast
qed

section \<open>Internal pages\<close>

type_synonym item = "int \<times> nat"

definition enc_item :: "item \<Rightarrow> byte list" where
  "enc_item it = be32 (nat (fst it mod 4294967296)) @ be32 (snd it mod 4294967296)"

definition enc_items :: "item list \<Rightarrow> byte list" where
  "enc_items its = concat (map enc_item its)"

definition stored_item :: "item \<Rightarrow> item" where
  "stored_item it = (fst it mod 4294967296, snd it mod 4294967296)"

lemma enc_items_simps [simp]:
  "enc_items [] = []"
  "enc_items (c # cs) = enc_item c @ enc_items cs"
  "enc_items (xs @ ys) = enc_items xs @ enc_items ys"
  by (simp_all add: enc_items_def)

lemma length_enc_item [simp]: "length (enc_item c) = 8"
  by (simp add: enc_item_def)

lemma length_enc_items [simp]: "length (enc_items its) = 8 * length its"
  by (induction its) simp_all

lemma stored_item_sel [simp]:
  "fst (stored_item c) = fst c mod 4294967296"
  "snd (stored_item c) = snd c mod 4294967296"
  by (simp_all add: stored_item_def)

lemma enc_item_stored [simp]: "enc_item (stored_item c) = enc_item c"
  by (simp add: enc_item_def stored_item_def)

lemma enc_items_stored [simp]: "enc_items (map stored_item cs) = enc_items cs"
  by (induction cs) simp_all

lemma item_at:
  assumes "length pre = off"
  shows "getUint32 (pre @ enc_item c @ rest) off = Inr (nat (fst c mod 4294967296))"
    and "getUint32 (pre @ enc_item c @ rest) (off + 4) = Inr (snd c mod 4294967296)"
proof -
  define k where "k = be32 (nat (fst c mod 4294967296))"
  define l where "l = be32 (snd c mod 4294967296)"
  have lk: "length k = 4" and ll: "length l = 4"
    by (simp_all add: k_def l_def)
  have e: "pre @ enc_item c @ rest = pre @ k @ (l @ rest)"
    "pre @ enc_item c @ rest = (pre @ k) @ l @ rest"
    by (simp_all add: enc_item_def k_def l_def)
  have m: "nat (fst c mod 4294967296) mod 4294967296 = nat (fst c mod 4294967296)"
    by (simp add: nat_less_iff)
  show "getUint32 (pre @ enc_item c @ rest) off = Inr (nat (fst c mod 4294967296))"
    unfolding e(1) k_def using getUint32_at[OF assms(1)] m by simp
  have "getUint32 ((pre @ k) @ l @ rest) (off + 4) = Inr (snd c mod 4294967296 mod 4294967296)"
    unfolding l_def by (rule getUint32_at) (use assms lk in simp)
  then show "getUint32 (pre @ enc_item c @ rest) (off + 4) = Inr (snd c mod 4294967296)"
    unfolding e(2) by simp
qed

lemma read_items_at:
  "length pre = off \<Longrightarrow>
   read_items (pre @ enc_items its @ post) off (length its) acc = Inr (acc @ map stored_item its)"
proof (induction its arbitrary: pre off acc)
  case Nil
  then show ?case by simp
next
  case (Cons c cs)
  have p: "pre @ enc_items (c # cs) @ post = pre @ enc_item c @ (enc_items cs @ post)"
    by simp
  have q: "pre @ enc_items (c # cs) @ post = (pre @ enc_item c) @ enc_items cs @ post"
    by simp
  have ih: "read_items ((pre @ enc_item c) @ enc_items cs @ post) (off + 4 + 4)
              (length cs) (acc @ [stored_item c]) = Inr ((acc @ [stored_item c]) @ map stored_item cs)"
    by (rule Cons.IH) (use Cons.prems in simp)
  show ?case
    using item_at[OF Cons.prems, of c "enc_items cs @ post", folded p] ih[folded q]
    by (simp add: stored_item_def)
qed

fun route :: "int \<Rightarrow> nat \<Rightarrow> item list \<Rightarrow> nat" where
  "route key child [] = child"
| "route key child (it # its) = (if key < fst it then child else route key (snd it) its)"

lemma findLeaf_child_at:
  "length pre = off \<Longrightarrow>
   findLeaf_child (pre @ enc_items its @ post) key off (length its) child =
     Inr (route key child (map stored_item its))"
proof (induction its arbitrary: pre off child)
  case Nil
  then show ?case by simp
next
  case (Cons c cs)
  have p: "pre @ enc_items (c # cs) @ post = pre @ enc_item c @ (enc_items cs @ post)"
    by simp
  have q: "pre @ enc_items (c # cs) @ post = (pre @ enc_item c) @ enc_items cs @ post"
    by simp
  have ih: "findLeaf_child ((pre @ enc_item c) @ enc_items cs @ post) key (off + 4 + 4)
              (length cs) child' = Inr (route key child' (map stored_item cs))" for child'
    by (rule Cons.IH) (use Cons.prems in simp)
  show ?case
    using item_at[OF Cons.prems, of c "enc_items cs @ post", folded p] ih[folded q]
    by simp
qed

lemma findMax_internal_at:
  "length pre = off \<Longrightarrow>
   findMax_internal (pre @ enc_items its @ post) off (length its) child =
     Inr (if its = [] then child else snd (last its) mod 4294967296)"
proof (induction its arbitrary: pre off child)
  case Nil
  then show ?case by simp
next
  case (Cons c cs)
  have p: "pre @ enc_items (c # cs) @ post = pre @ enc_item c @ (enc_items cs @ post)"
    by simp
  have q: "pre @ enc_items (c # cs) @ post = (pre @ enc_item c) @ enc_items cs @ post"
    by simp
  have ih: "findMax_internal ((pre @ enc_item c) @ enc_items cs @ post) (off + 4 + 4)
              (length cs) child' =
            Inr (if cs = [] then child' else snd (last cs) mod 4294967296)" for child'
    by (rule Cons.IH) (use Cons.prems in simp)
  show ?case
    using item_at[OF Cons.prems, of c "enc_items cs @ post", folded p] ih[folded q]
    by simp
qed


definition items_ok :: "item list \<Rightarrow> bool" where
  "items_ok its \<longleftrightarrow> (\<forall>c\<in>set its. 0 \<le> fst c \<and> fst c < 4294967296 \<and> snd c < 4294967296)"

definition is_internal :: "byte list \<Rightarrow> nat \<Rightarrow> nat \<Rightarrow> item list \<Rightarrow> bool" where
  "is_internal page parent p0 its \<longleftrightarrow>
     length page = PAGE_SIZE \<and> parent < 4294967296 \<and> p0 < 4294967296 \<and> items_ok its \<and>
     (\<exists>tail. page = hdr NODE_INTERNAL (length its) parent @ be32 p0 @ enc_items its @ tail)"

lemma items_ok_stored [simp]: "items_ok (map stored_item its)"
  by (auto simp: items_ok_def)

lemma stored_item_id: "0 \<le> fst c \<Longrightarrow> fst c < 4294967296 \<Longrightarrow> snd c < 4294967296 \<Longrightarrow> stored_item c = c"
  by (simp add: stored_item_def prod_eq_iff)

lemma map_stored_item_id: "items_ok its \<Longrightarrow> map stored_item its = its"
  by (induction its) (simp_all add: stored_item_id items_ok_def)

lemma is_internal_size:
  assumes "is_internal page parent p0 its"
  shows "11 + 8 * length its \<le> PAGE_SIZE" "length its < 512"
proof -
  obtain tail where p: "page = hdr NODE_INTERNAL (length its) parent @ be32 p0 @ enc_items its @ tail"
    and l: "length page = PAGE_SIZE"
    using assms by (auto simp: is_internal_def)
  have "length page = 11 + 8 * length its + length tail"
    unfolding p by simp
  then show a: "11 + 8 * length its \<le> PAGE_SIZE"
    using l by simp
  then show "length its < 512"
    by (simp add: PAGE_SIZE_def)
qed

lemma is_internal_reads:
  assumes "is_internal page parent p0 its"
  shows "getUint8 page OFF_TYPE = Inr NODE_INTERNAL"
    and "getUint16 page OFF_NUM_CELLS = Inr (length its)"
    and "getUint32 page OFF_PARENT = Inr parent"
    and "getUint32 page HEADER_SIZE = Inr p0"
    and "read_items page (HEADER_SIZE + 4) (length its) acc = Inr (acc @ its)"
    and "findLeaf_child page key (HEADER_SIZE + 4) (length its) child = Inr (route key child its)"
    and "findMax_internal page (HEADER_SIZE + 4) (length its) child =
           Inr (if its = [] then child else snd (last its))"
proof -
  obtain tail where p: "page = hdr NODE_INTERNAL (length its) parent @ be32 p0 @ enc_items its @ tail"
    and par: "parent < 4294967296" and p0: "p0 < 4294967296" and ok: "items_ok its"
    using assms by (auto simp: is_internal_def)
  note sz = is_internal_size[OF assms]
  have st: "map stored_item its = its"
    using ok by (rule map_stored_item_id)
  have q: "page = (hdr NODE_INTERNAL (length its) parent @ be32 p0) @ enc_items its @ tail"
    unfolding p by simp
  show "getUint8 page OFF_TYPE = Inr NODE_INTERNAL"
    unfolding p hdr_read by (simp add: NODE_INTERNAL_def)
  show "getUint16 page OFF_NUM_CELLS = Inr (length its)"
    unfolding p hdr_read using sz(2) by simp
  show "getUint32 page OFF_PARENT = Inr parent"
    unfolding p hdr_read using par by simp
  show "getUint32 page HEADER_SIZE = Inr p0"
    unfolding p using getUint32_at[of "hdr NODE_INTERNAL (length its) parent" HEADER_SIZE p0 "enc_items its @ tail"] p0
    by (simp add: HEADER_SIZE_def)
  show "read_items page (HEADER_SIZE + 4) (length its) acc = Inr (acc @ its)"
    unfolding q using read_items_at[of "hdr NODE_INTERNAL (length its) parent @ be32 p0" "HEADER_SIZE + 4" its tail acc]
    by (simp add: HEADER_SIZE_def st)
  show "findLeaf_child page key (HEADER_SIZE + 4) (length its) child = Inr (route key child its)"
    unfolding q using findLeaf_child_at[of "hdr NODE_INTERNAL (length its) parent @ be32 p0" "HEADER_SIZE + 4" its tail key child]
    by (simp add: HEADER_SIZE_def st)
  have lm: "its \<noteq> [] \<Longrightarrow> snd (last its) mod 4294967296 = snd (last its)"
    using ok last_in_set[of its] by (auto simp: items_ok_def)
  show "findMax_internal page (HEADER_SIZE + 4) (length its) child =
           Inr (if its = [] then child else snd (last its))"
    unfolding q using findMax_internal_at[of "hdr NODE_INTERNAL (length its) parent @ be32 p0" "HEADER_SIZE + 4" its tail child] lm
    by (simp add: HEADER_SIZE_def)
qed

lemma write_item_at:
  assumes "length pre = off"
  shows "ebind (setUint32 (pre @ rest) off (fst c)) (\<lambda>p1.
         ebind (setUint32 p1 (off + 4) (int (snd c))) f) =
         (if 8 \<le> length rest then f (pre @ enc_item c @ drop 8 rest) else Inl RangeError)"
proof -
  define k where "k = be32 (nat (fst c mod 4294967296))"
  define l where "l = be32 (snd c mod 4294967296)"
  have lk: "length k = 4" and ll: "length l = 4"
    by (simp_all add: k_def l_def)
  have s1: "setUint32 (pre @ rest) off (fst c) =
      (if 4 \<le> length rest then Inr (pre @ k @ drop 4 rest) else Inl RangeError)"
    unfolding k_def using assms by (rule setUint32_at)
  have s2: "setUint32 ((pre @ k) @ drop 4 rest) (off + 4) (int (snd c)) =
     (if 4 \<le> length (drop 4 rest) then Inr ((pre @ k) @ l @ drop 4 (drop 4 rest))
      else Inl RangeError)"
    unfolding l_def nat_int_mod[symmetric]
    by (rule setUint32_at) (use assms lk in simp)
  have e: "enc_item c = k @ l"
    by (simp add: enc_item_def k_def l_def)
  show ?thesis
  proof (cases "8 \<le> length rest")
    case True
    then have b: "4 \<le> length rest" "4 \<le> length (drop 4 rest)"
      by simp_all
    show ?thesis
      using True s1 s2 b unfolding e by simp
  next
    case False
    then consider "\<not> 4 \<le> length rest" | "4 \<le> length rest" "\<not> 4 \<le> length (drop 4 rest)"
      by fastforce
    then show ?thesis
    proof cases
      case 1
      then show ?thesis using False s1 by simp
    next
      case 2
      then show ?thesis using False s1 s2 by simp
    qed
  qed
qed

lemma write_items_at:
  "length pre = off \<Longrightarrow>
   write_items (pre @ rest) off its =
     (if 8 * length its \<le> length rest
      then Inr (pre @ enc_items its @ drop (8 * length its) rest)
      else Inl RangeError)"
proof (induction its arbitrary: pre rest off)
  case Nil
  then show ?case by simp
next
  case (Cons c cs)
  have ih: "write_items ((pre @ enc_item c) @ drop 8 rest) (off + 4 + 4) cs =
     (if 8 * length cs \<le> length (drop 8 rest)
      then Inr ((pre @ enc_item c) @ enc_items cs @ drop (8 * length cs) (drop 8 rest))
      else Inl RangeError)"
    by (rule Cons.IH) (use Cons.prems in simp)
  show ?case
    unfolding write_items.simps write_item_at[OF Cons.prems]
    using ih by (auto simp: add.commute)
qed

lemma ebind_Inr: "ebind m Inr = m"
  by (cases m) simp_all

lemma root_page_of_eq:
  "\<exists>page. root_page_of key l r = Inr page \<and>
     is_internal page 0 (l mod 4294967296) [stored_item (key, r)]"
proof -
  define Z where "Z = replicate (PAGE_SIZE - 7) (0::byte)"
  define H where "H = hdr NODE_INTERNAL 1 0"
  have lz: "length Z = PAGE_SIZE - 7" by (simp add: Z_def)
  have s3: "setUint32 (H @ Z) OFF_PARENT 0 = Inr (H @ Z)"
    using hdr_set_parent[of NODE_INTERNAL 1 0 Z 0] by (simp add: H_def)
  have s4: "setUint32 (H @ Z) HEADER_SIZE (int l) = Inr (H @ be32 (l mod 4294967296) @ drop 4 Z)"
    using setUint32_at[of H HEADER_SIZE Z "int l"]
    by (simp add: H_def HEADER_SIZE_def lz PAGE_SIZE_def nat_int_mod)
  have s5: "ebind (setUint32 ((H @ be32 (l mod 4294967296)) @ drop 4 Z) (HEADER_SIZE + 4) key) (\<lambda>p5.
       ebind (setUint32 p5 (HEADER_SIZE + 4 + 4) (int r)) Inr) =
       Inr ((H @ be32 (l mod 4294967296)) @ enc_item (key, r) @ drop 8 (drop 4 Z))"
    using write_item_at[of "H @ be32 (l mod 4294967296)" "HEADER_SIZE + 4" "drop 4 Z" "(key, r)" Inr]
    by (simp add: H_def HEADER_SIZE_def lz PAGE_SIZE_def)
  define page where "page = (H @ be32 (l mod 4294967296)) @ enc_item (key, r) @ drop 8 (drop 4 Z)"
  have hw: "ebind (setUint8 zero_page OFF_TYPE (int NODE_INTERNAL)) (\<lambda>p1.
              ebind (setUint16 p1 OFF_NUM_CELLS 1) f) = f (H @ Z)" for f :: "byte list \<Rightarrow> error + byte list"
    using header_written[of NODE_INTERNAL 1 f] by (simp add: H_def Z_def)
  have s5': "ebind (setUint32 (H @ be32 (l mod 4294967296) @ drop 4 Z) (HEADER_SIZE + 4) key) (\<lambda>p5.
       setUint32 p5 (HEADER_SIZE + 4 + 4) (int r)) = Inr page"
    using s5 unfolding ebind_Inr page_def by simp
  have e: "root_page_of key l r = Inr page"
    unfolding root_page_of_def hw s3 ebind_simps s4 s5' ..
  have "is_internal page 0 (l mod 4294967296) [stored_item (key, r)]"
    unfolding is_internal_def page_def H_def
    by (auto simp: lz PAGE_SIZE_def items_ok_def)
  then show ?thesis using e by blast
qed


section \<open>Reading leaves the disk as it was\<close>

text \<open>A read fills the page cache and nothing else: every later read, the page counter, the
  persistent storage and both transaction buffers stay the same.\<close>

definition unchanged :: "VirtualDisk \<Rightarrow> VirtualDisk \<Rightarrow> bool" where
  "unchanged d d' \<longleftrightarrow>
     (\<forall>i. peek d' i = peek d i) \<and> maxPageId d' = maxPageId d \<and> storage d' = storage d \<and>
     transactionBuffer d' = transactionBuffer d \<and> metaBuffer d' = metaBuffer d"

lemma unchanged_refl [simp]: "unchanged d d"
  by (simp add: unchanged_def)

lemma unchanged_trans: "unchanged d d1 \<Longrightarrow> unchanged d1 d2 \<Longrightarrow> unchanged d d2"
  by (simp add: unchanged_def)

lemma unchanged_readPage [simp]: "unchanged d (snd (readPage d i))"
  by (auto simp: unchanged_def) (auto simp: readPage_def split: option.splits)

lemma unchanged_readPage': "readPage d i = (page, d1) \<Longrightarrow> unchanged d d1"
  using unchanged_readPage[of d i] by simp

lemma unchanged_peek: "unchanged d d' \<Longrightarrow> peek d' i = peek d i"
  by (simp add: unchanged_def)

lemma unchanged_maxPageId: "unchanged d d' \<Longrightarrow> maxPageId d' = maxPageId d"
  by (simp add: unchanged_def)

lemma unchanged_getMetadata: "unchanged d d' \<Longrightarrow> getMetadata d' k = getMetadata d k"
  by (auto simp: unchanged_def getMetadata_def split: option.splits)

lemma unchanged_in_tx: "unchanged d d' \<Longrightarrow> in_tx d' = in_tx d"
  by (simp add: unchanged_def in_tx_def)

lemma findMaxInPage_unchanged: "unchanged d (snd (findMaxInPage depth d p))"
proof (induction depth arbitrary: d p)
  case 0
  then show ?case by simp
next
  case (Suc depth)
  obtain page d1 where r: "readPage d p = (page, d1)" by (cases "readPage d p")
  have u: "unchanged d d1" using r by (rule unchanged_readPage')
  show ?case
    using u Suc.IH[of d1] unchanged_trans[OF u]
    by (auto simp: r split: sum.splits)
qed

lemma findLeafPage_unchanged: "unchanged d (snd (findLeafPage depth d p key))"
proof (induction depth arbitrary: d p)
  case 0
  then show ?case by simp
next
  case (Suc depth)
  obtain page d1 where r: "readPage d p = (page, d1)" by (cases "readPage d p")
  have u: "unchanged d d1" using r by (rule unchanged_readPage')
  show ?case
    using u Suc.IH[of d1] unchanged_trans[OF u]
    by (auto simp: r split: sum.splits)
qed

lemma traverse_unchanged:
  "unchanged d (snd (traverse depth d p))"
  "unchanged d (snd (traverse_children depth d page off n acc))"
proof (induction depth d p and depth d page off n acc rule: traverse_traverse_children.induct)
  case (1 d pageId)
  then show ?case by simp
next
  case (2 depth d pageId)
  obtain page d1 where r: "readPage d pageId = (page, d1)" by (cases "readPage d pageId")
  have u: "unchanged d d1" using r by (rule unchanged_readPage')
  show ?case
  proof (cases "length page = 0")
    case True
    then show ?thesis using u by (simp add: r)
  next
    case False
    show ?thesis
    proof (cases "getUint8 page OFF_TYPE")
      case (Inl e)
      then show ?thesis using u False by (simp add: r)
    next
      case t: (Inr type)
      show ?thesis
      proof (cases "getUint16 page OFF_NUM_CELLS")
        case (Inl e)
        then show ?thesis using u False t by (simp add: r)
      next
        case n: (Inr numCells)
        show ?thesis
        proof (cases "type = NODE_LEAF")
          case True
          then show ?thesis using u False t n by (simp add: r)
        next
          case nl: False
          show ?thesis
          proof (cases "getUint32 page HEADER_SIZE")
            case (Inl e)
            then show ?thesis using u False t n nl by (simp add: r)
          next
            case p0: (Inr p0)
            obtain res d2 where tr: "traverse depth d1 p0 = (res, d2)" by (cases "traverse depth d1 p0")
            have u2: "unchanged d1 d2"
              using "2.IH"(1)[OF r[symmetric] refl False t n nl p0] tr by simp
            show ?thesis
            proof (cases res)
              case (Inl e)
              then show ?thesis
                using u u2 False t n nl p0 tr by (simp add: r unchanged_trans[OF u u2])
            next
              case (Inr r0)
              have "unchanged d2 (snd (traverse_children depth d2 page (HEADER_SIZE + 4) numCells r0))"
                using "2.IH"(2)[OF r[symmetric] refl False t n nl p0 tr[symmetric] Inr] by simp
              then show ?thesis
                using False t n nl p0 tr Inr unchanged_trans[OF unchanged_trans[OF u u2]]
                by (simp add: r)
            qed
          qed
        qed
      qed
    qed
  qed
next
  case (3 depth d page offset results)
  then show ?case by simp
next
  case (4 depth d page offset n results)
  show ?case
  proof (cases "getUint32 page (offset + 4)")
    case (Inl e)
    then show ?thesis by simp
  next
    case p: (Inr p)
    obtain res d1 where tr: "traverse depth d p = (res, d1)" by (cases "traverse depth d p")
    have u: "unchanged d d1" using "4.IH"(1)[OF p] tr by simp
    show ?thesis
    proof (cases res)
      case (Inl e)
      then show ?thesis using u p tr by simp
    next
      case (Inr r)
      have "unchanged d1 (snd (traverse_children depth d1 page (offset + 4 + 4) n (results @ r)))"
        using "4.IH"(2)[OF p tr[symmetric] Inr] by simp
      then show ?thesis using p tr Inr unchanged_trans[OF u] by simp
    qed
  qed
qed

lemma findInLeaf_unchanged: "unchanged d (snd (findInLeaf d p key))"
  by (auto simp: findInLeaf_def Let_def split: prod.splits sum.splits dest: unchanged_readPage')


section \<open>Lookups in well-formed trees\<close>

lemma is_leaf_nonempty: "is_leaf page parent cs \<Longrightarrow> length page \<noteq> 0"
  by (simp add: is_leaf_def PAGE_SIZE_def)

lemma readPage_cases:
  obtains d1 where "readPage d p = (peek d p, d1)" "unchanged d d1" "d1 = snd (readPage d p)"
  using unchanged_readPage[of d p] readPage_split[of d p] by blast

lemma findLeafPage_leaf:
  assumes "getUint8 (peek d p) OFF_TYPE = Inr NODE_LEAF"
  shows "fst (findLeafPage (Suc depth) d p key) = Inr p"
proof -
  obtain d1 where r: "readPage d p = (peek d p, d1)"
    by (rule readPage_cases)
  show ?thesis using assms by (simp add: r)
qed

lemma findLeafPage_internal:
  assumes "is_internal (peek d r) parent p0 its"
  shows "findLeafPage (Suc depth) d r key =
         findLeafPage depth (snd (readPage d r)) (route key p0 its) key"
proof -
  obtain d1 where r: "readPage d r = (peek d r, d1)"
    by (rule readPage_cases)
  show ?thesis
    using is_internal_reads(1,2,4)[OF assms] is_internal_reads(6)[OF assms, of key p0]
    by (simp add: r NODE_INTERNAL_def NODE_LEAF_def)
qed

lemma traverse_leaf:
  assumes "is_leaf (peek d p) parent cs"
  shows "fst (traverse (Suc depth) d p) = Inr cs"
proof -
  obtain d1 where r: "readPage d p = (peek d p, d1)"
    by (rule readPage_cases)
  show ?thesis
    using is_leaf_reads(1,2)[OF assms] is_leaf_reads(4)[OF assms, of "[]"] is_leaf_nonempty[OF assms]
    by (simp add: r)
qed

lemma is_internal_single_ptr:
  assumes "is_internal page parent p0 [(sep, c1)]"
  shows "getUint32 page (HEADER_SIZE + 4 + 4) = Inr c1"
proof -
  obtain tail where p: "page = hdr NODE_INTERNAL 1 parent @ be32 p0 @ enc_items [(sep, c1)] @ tail"
    and ok: "c1 < 4294967296"
    using assms by (auto simp: is_internal_def items_ok_def)
  have "getUint32 ((hdr NODE_INTERNAL 1 parent @ be32 p0) @ enc_item (sep, c1) @ tail) (HEADER_SIZE + 4 + 4)
        = Inr (snd (sep, c1) mod 4294967296)"
    by (rule item_at(2)) (simp add: HEADER_SIZE_def)
  then show ?thesis using ok by (simp add: p)
qed

lemma traverse_root:
  assumes "is_internal (peek d r) parent c0 [(sep, c1)]"
    and "is_leaf (peek d c0) pa L" and "is_leaf (peek d c1) pb R"
  shows "fst (traverse (Suc (Suc depth)) d r) = Inr (L @ R)"
proof -
  obtain d1 where r: "readPage d r = (peek d r, d1)" and u1: "unchanged d d1"
    by (rule readPage_cases)
  define d2 where "d2 = snd (traverse (Suc depth) d1 c0)"
  have u2: "unchanged d d2"
    unfolding d2_def using u1 traverse_unchanged(1)[of d1 "Suc depth" c0] by (rule unchanged_trans)
  have l0: "is_leaf (peek d1 c0) pa L" using assms(2) u1 by (simp add: unchanged_peek)
  have l1: "is_leaf (peek d2 c1) pb R" using assms(3) u2 by (simp add: unchanged_peek)
  have t0: "traverse (Suc depth) d1 c0 = (Inr L, d2)"
    using traverse_leaf[OF l0, of depth] by (simp add: d2_def prod_eq_iff)
  obtain d3 where t1: "traverse (Suc depth) d2 c1 = (Inr R, d3)"
    using traverse_leaf[OF l1, of depth] by (cases "traverse (Suc depth) d2 c1") simp
  have nz: "length (peek d r) \<noteq> 0"
    using assms(1) by (simp add: is_internal_def PAGE_SIZE_def)
  have one: "(1::nat) = Suc 0" by simp
  show ?thesis
    using is_internal_reads(1,2,4)[OF assms(1)] is_internal_single_ptr[OF assms(1)] nz t0 t1
    unfolding traverse.simps(2)[of "Suc depth" d r] r
    by (simp add: NODE_INTERNAL_def NODE_LEAF_def del: traverse.simps)
qed

lemma findInLeaf_leaf:
  assumes "is_leaf (peek d p) parent cs"
  shows "fst (findInLeaf d p key) = Inr (map_of cs key)"
proof -
  obtain d1 where r: "readPage d p = (peek d p, d1)"
    by (rule readPage_cases)
  show ?thesis
    using is_leaf_reads(2,5)[OF assms]
    by (simp add: findInLeaf_def r)
qed

lemma search_leaf_root:
  assumes "is_leaf (peek (disk t) (rootPageId t)) parent cs"
  shows "fst (search (Suc depth) t key) = Inr (map_of cs key)"
proof -
  define d1 where "d1 = snd (findLeafPage (Suc depth) (disk t) (rootPageId t) key)"
  have f: "findLeafPage (Suc depth) (disk t) (rootPageId t) key = (Inr (rootPageId t), d1)"
    using findLeafPage_leaf[OF is_leaf_reads(1)[OF assms], of depth key]
    by (simp add: d1_def prod_eq_iff)
  have u: "unchanged (disk t) d1"
    unfolding d1_def by (rule findLeafPage_unchanged)
  have "is_leaf (peek d1 (rootPageId t)) parent cs"
    using assms u by (simp add: unchanged_peek)
  then have "fst (findInLeaf d1 (rootPageId t) key) = Inr (map_of cs key)"
    by (rule findInLeaf_leaf)
  then show ?thesis
    unfolding search_def f by (auto simp: Let_def split: prod.splits)
qed

lemma findLeafPage_root:
  assumes "is_internal (peek d r) parent c0 [(sep, c1)]"
    and "is_leaf (peek d c0) pa L" and "is_leaf (peek d c1) pb R"
  shows "fst (findLeafPage (Suc (Suc depth)) d r key) = Inr (if key < sep then c0 else c1)"
proof -
  define d1 where "d1 = snd (readPage d r)"
  have u1: "unchanged d d1" by (simp add: d1_def)
  have l0: "getUint8 (peek d1 c0) OFF_TYPE = Inr NODE_LEAF"
    using is_leaf_reads(1)[OF assms(2)] u1 by (simp add: unchanged_peek)
  have l1: "getUint8 (peek d1 c1) OFF_TYPE = Inr NODE_LEAF"
    using is_leaf_reads(1)[OF assms(3)] u1 by (simp add: unchanged_peek)
  show ?thesis
    unfolding findLeafPage_internal[OF assms(1)] d1_def[symmetric]
    using findLeafPage_leaf[OF l0, of depth key] findLeafPage_leaf[OF l1, of depth key]
    by (simp del: findLeafPage.simps)
qed

lemma search_split_root:
  assumes "is_internal (peek (disk t) (rootPageId t)) parent c0 [(sep, c1)]"
    and "is_leaf (peek (disk t) c0) pa L" and "is_leaf (peek (disk t) c1) pb R"
  shows "fst (search (Suc (Suc depth)) t key) = Inr (map_of (if key < sep then L else R) key)"
proof -
  define leaf where "leaf = (if key < sep then c0 else c1)"
  define d1 where "d1 = snd (findLeafPage (Suc (Suc depth)) (disk t) (rootPageId t) key)"
  have f: "findLeafPage (Suc (Suc depth)) (disk t) (rootPageId t) key = (Inr leaf, d1)"
    using findLeafPage_root[OF assms, of depth key]
    by (simp add: d1_def leaf_def prod_eq_iff del: findLeafPage.simps)
  have u: "unchanged (disk t) d1"
    unfolding d1_def by (rule findLeafPage_unchanged)
  have "is_leaf (peek d1 leaf) (if key < sep then pa else pb) (if key < sep then L else R)"
    using assms(2,3) u by (simp add: unchanged_peek leaf_def)
  then have "fst (findInLeaf d1 leaf key) = Inr (map_of (if key < sep then L else R) key)"
    by (rule findInLeaf_leaf)
  then show ?thesis
    unfolding search_def f by (auto simp: Let_def split: prod.splits)
qed


section \<open>Insertion into a leaf and the leaf split\<close>

lemma maxPageId_writePage_same:
  "i \<le> maxPageId d \<Longrightarrow> maxPageId (writePage d i p) = maxPageId d"
  by (auto simp: writePage_def writeToDisk_def saveMeta_def Let_def split: option.splits)

definition fits :: "cell list \<Rightarrow> bool" where
  "fits cs \<longleftrightarrow> length (enc_cells cs) \<le> PAGE_SIZE - 7"

lemma writeCellsToLeaf_eq:
  "writeCellsToLeaf d p cs =
     (if fits cs
      then (Inr (), writePage d p (hdr NODE_LEAF (length cs) 0 @ enc_cells cs @
                replicate (PAGE_SIZE - 7 - length (enc_cells cs)) 0))
      else (Inl RangeError, d))"
  by (simp add: writeCellsToLeaf_def leaf_page_of_eq fits_def)

definition leaf_image :: "cell list \<Rightarrow> byte list" where
  "leaf_image cs = hdr NODE_LEAF (length cs) 0 @ enc_cells cs @
                replicate (PAGE_SIZE - 7 - length (enc_cells cs)) 0"

lemma is_leaf_leaf_image: "fits cs \<Longrightarrow> is_leaf (leaf_image cs) 0 (map stored cs)"
  using leaf_page_of_is_leaf(1)[of cs "leaf_image cs"]
  by (simp add: leaf_page_of_eq leaf_image_def fits_def)

lemma insertIntoInternal_frame:
  assumes "insertIntoInternal d pg key rc = (res, d')"
  shows "(\<forall>j. j \<noteq> pg \<longrightarrow> peek d' j = peek d j) \<and> maxPageId d \<le> maxPageId d' \<and>
         in_tx d' = in_tx d \<and> (\<forall>k. getMetadata d' k = getMetadata d k) \<and>
         (\<forall>e. res = Inl e \<longrightarrow> unchanged d d')"
proof -
  obtain d1 where r: "readPage d pg = (peek d pg, d1)" and u: "unchanged d d1"
    by (rule readPage_cases)
  have w: "(\<forall>j. j \<noteq> pg \<longrightarrow> peek (writePage d1 pg np) j = peek d j) \<and>
           maxPageId d \<le> maxPageId (writePage d1 pg np) \<and>
           in_tx (writePage d1 pg np) = in_tx d \<and>
           (\<forall>k. getMetadata (writePage d1 pg np) k = getMetadata d k)" for np
    using u maxPageId_writePage[of d1 pg np]
    by (simp add: unchanged_peek unchanged_maxPageId unchanged_in_tx unchanged_getMetadata)
  have v: "(\<forall>j. j \<noteq> pg \<longrightarrow> peek d1 j = peek d j) \<and> maxPageId d \<le> maxPageId d1 \<and>
         in_tx d1 = in_tx d \<and> (\<forall>k. getMetadata d1 k = getMetadata d k)"
    using u by (simp add: unchanged_peek unchanged_maxPageId unchanged_in_tx unchanged_getMetadata)
  show ?thesis
    using assms u v w unfolding insertIntoInternal_def r
    by (auto simp: Let_def split: sum.splits if_splits)
qed

lemma scan_index_le:
  "ins \<le> m \<Longrightarrow> i + length cs \<le> m \<Longrightarrow> scan_index key cs i ins found \<le> m"
  by (induction cs arbitrary: i ins found) auto

definition leaf_insert :: "int \<Rightarrow> byte list \<Rightarrow> cell list \<Rightarrow> cell list" where
  "leaf_insert key val cs =
     (let idx = scan_index key cs 0 (length cs) False
      in take idx cs @ [stored (key, val)] @ drop idx cs)"

lemma insertIntoLeaf_dup:
  assumes "is_leaf (peek (disk t) p) parent cs" "key \<in> fst ` set cs"
  shows "\<exists>d1. insertIntoLeaf t p key val = (Inl (DuplicateKey key), t\<lparr>disk := d1\<rparr>) \<and>
           unchanged (disk t) d1"
proof -
  obtain d1 where r: "readPage (disk t) p = (peek (disk t) p, d1)" and u: "unchanged (disk t) d1"
    by (rule readPage_cases)
  have "insertIntoLeaf t p key val = (Inl (DuplicateKey key), t\<lparr>disk := d1\<rparr>)"
    unfolding insertIntoLeaf_def r
    using is_leaf_reads(2)[OF assms(1)]
      is_leaf_reads(7)[OF assms(1), of key 0 "length cs" False] assms(2)
    by (simp add: Let_def)
  then show ?thesis using u by blast
qed

lemma insertIntoLeaf_fit:
  assumes "is_leaf (peek (disk t) p) parent cs" "key \<notin> fst ` set cs"
    and "HEADER_SIZE + length (enc_cells cs) + (8 + length val) \<le> PAGE_SIZE"
  shows "\<exists>d1 np. insertIntoLeaf t p key val = (Inr (), t\<lparr>disk := writePage d1 p np\<rparr>) \<and>
           unchanged (disk t) d1 \<and> is_leaf np parent (leaf_insert key val cs)"
proof -
  obtain d1 where r: "readPage (disk t) p = (peek (disk t) p, d1)" and u: "unchanged (disk t) d1"
    by (rule readPage_cases)
  define idx where "idx = scan_index key cs 0 (length cs) False"
  have le: "idx \<le> length cs"
    unfolding idx_def by (rule scan_index_le) simp_all
  obtain np where np: "leaf_page_insert (peek (disk t) p) (length cs) idx key val = Inr np"
    and l: "is_leaf np parent (take idx cs @ [stored (key, val)] @ drop idx cs)"
    using leaf_page_insert_eq[OF assms(1) le assms(3)] by blast
  have "insertIntoLeaf t p key val = (Inr (), t\<lparr>disk := writePage d1 p np\<rparr>)"
    unfolding insertIntoLeaf_def r
    using is_leaf_reads(2)[OF assms(1)]
      is_leaf_reads(7)[OF assms(1), of key 0 "length cs" False] assms(2,3) np
    by (simp add: Let_def idx_def add.commute add.left_commute)
  then show ?thesis using u l by (auto simp: leaf_insert_def idx_def Let_def)
qed

lemma insertIntoLeaf_split:
  assumes "is_leaf (peek (disk t) p) parent cs" "key \<notin> fst ` set cs"
    and "\<not> HEADER_SIZE + length (enc_cells cs) + (8 + length val) \<le> PAGE_SIZE"
  shows "\<exists>d1. insertIntoLeaf t p key val = splitLeaf (t\<lparr>disk := d1\<rparr>) p key val \<and>
           unchanged (disk t) d1"
proof -
  obtain d1 where r: "readPage (disk t) p = (peek (disk t) p, d1)" and u: "unchanged (disk t) d1"
    by (rule readPage_cases)
  have "insertIntoLeaf t p key val = splitLeaf (t\<lparr>disk := d1\<rparr>) p key val"
    unfolding insertIntoLeaf_def r
    using is_leaf_reads(2)[OF assms(1)]
      is_leaf_reads(7)[OF assms(1), of key 0 "length cs" False] assms(2,3)
    by (simp add: Let_def add.commute add.left_commute)
  then show ?thesis using u by blast
qed

definition split_cells :: "int \<Rightarrow> byte list \<Rightarrow> cell list \<Rightarrow> cell list" where
  "split_cells key val cs = sort_key fst (cs @ [(key, val)])"

lemma splitLeaf_eq:
  assumes "is_leaf (peek (disk t) p) parent cs"
  shows "\<exists>d1. unchanged (disk t) d1 \<and>
     splitLeaf t p key val =
       (let cells = split_cells key val cs;
            mid = length cells div 2;
            n1 = maxPageId d1 + 1;
            d2 = snd (allocatePage d1)
        in if \<not> fits (take mid cells) then (Inl RangeError, t\<lparr>disk := d2\<rparr>)
           else if \<not> fits (drop mid cells)
           then (Inl RangeError, t\<lparr>disk := writePage d2 p (leaf_image (take mid cells))\<rparr>)
           else
             (let d4 = writePage (writePage d2 p (leaf_image (take mid cells))) n1
                         (leaf_image (drop mid cells))
              in if p = rootPageId t
                 then createGenericRoot (t\<lparr>disk := d4\<rparr>) (fst (cells ! mid)) p n1
                 else (let (r, d5) = insertIntoInternal d4 parent (fst (cells ! mid)) n1
                       in (r, t\<lparr>disk := d5\<rparr>))))"
proof -
  obtain d1 where r: "readPage (disk t) p = (peek (disk t) p, d1)" and u: "unchanged (disk t) d1"
    by (rule readPage_cases)
  obtain d2 where a: "allocatePage d1 = (maxPageId d1 + 1, d2)"
    using fst_allocatePage[of d1] by (cases "allocatePage d1") simp
  have "splitLeaf t p key val =
       (let cells = split_cells key val cs;
            mid = length cells div 2;
            n1 = maxPageId d1 + 1;
            d2 = snd (allocatePage d1)
        in if \<not> fits (take mid cells) then (Inl RangeError, t\<lparr>disk := d2\<rparr>)
           else if \<not> fits (drop mid cells)
           then (Inl RangeError, t\<lparr>disk := writePage d2 p (leaf_image (take mid cells))\<rparr>)
           else
             (let d4 = writePage (writePage d2 p (leaf_image (take mid cells))) n1
                         (leaf_image (drop mid cells))
              in if p = rootPageId t
                 then createGenericRoot (t\<lparr>disk := d4\<rparr>) (fst (cells ! mid)) p n1
                 else (let (r, d5) = insertIntoInternal d4 parent (fst (cells ! mid)) n1
                       in (r, t\<lparr>disk := d5\<rparr>))))"
    unfolding splitLeaf_def r
    using is_leaf_reads(2,3)[OF assms(1)] is_leaf_reads(4)[OF assms(1), of "[]"]
    by (simp add: Let_def a writeCellsToLeaf_eq split_cells_def leaf_image_def)
  then show ?thesis using u by blast
qed

lemma createGenericRoot_eq:
  "\<exists>rootp. createGenericRoot t key l r =
      (Inr (), \<lparr>disk = setMetadata (writePage (snd (allocatePage (disk t))) (maxPageId (disk t) + 1) rootp)
                         ''root'' (MetaNum (maxPageId (disk t) + 1)),
                rootPageId = maxPageId (disk t) + 1\<rparr>) \<and>
      is_internal rootp 0 (l mod 4294967296) [stored_item (key, r)]"
proof -
  obtain rootp where p: "root_page_of key l r = Inr rootp"
    and i: "is_internal rootp 0 (l mod 4294967296) [stored_item (key, r)]"
    using root_page_of_eq by blast
  obtain d2 where a: "allocatePage (disk t) = (maxPageId (disk t) + 1, d2)"
    using fst_allocatePage[of "disk t"] by (cases "allocatePage (disk t)") simp
  show ?thesis
    using i by (auto simp: createGenericRoot_def a p)
qed


section \<open>Leaves with strictly increasing keys\<close>

definition strict_keys :: "cell list \<Rightarrow> bool" where
  "strict_keys cs \<longleftrightarrow> sorted_wrt (<) (map fst cs)"

lemma strict_keys_simps [simp]:
  "strict_keys []"
  "strict_keys (c # cs) \<longleftrightarrow> (\<forall>x\<in>set cs. fst c < fst x) \<and> strict_keys cs"
  by (auto simp: strict_keys_def)

lemma strict_keys_append:
  "strict_keys (xs @ ys) \<longleftrightarrow>
     strict_keys xs \<and> strict_keys ys \<and> (\<forall>x\<in>set xs. \<forall>y\<in>set ys. fst x < fst y)"
  by (auto simp: strict_keys_def sorted_wrt_append)

lemma strict_keys_distinct: "strict_keys cs \<Longrightarrow> distinct (map fst cs)"
  unfolding strict_keys_def strict_sorted_iff by simp

lemma strict_keys_take: "strict_keys cs \<Longrightarrow> strict_keys (take n cs)"
  using strict_keys_append[of "take n cs" "drop n cs"] by simp

lemma strict_keys_drop: "strict_keys cs \<Longrightarrow> strict_keys (drop n cs)"
  using strict_keys_append[of "take n cs" "drop n cs"] by simp

lemma strict_keys_take_drop:
  "strict_keys cs \<Longrightarrow> x \<in> set (take n cs) \<Longrightarrow> y \<in> set (drop n cs) \<Longrightarrow> fst x < fst y"
  using strict_keys_append[of "take n cs" "drop n cs"] by simp

lemma strict_keys_filter: "strict_keys cs \<Longrightarrow> strict_keys (filter P cs)"
  by (induction cs) auto

lemma strict_keys_sort:
  assumes "distinct (map fst cs)"
  shows "strict_keys (sort_key fst cs)"
proof -
  have "sorted (map fst (sort_key fst cs))" by (rule sorted_sort_key)
  moreover have "distinct (map fst (sort_key fst cs))"
    using assms by (simp add: distinct_map)
  ultimately show ?thesis unfolding strict_keys_def strict_sorted_iff by simp
qed

lemma strict_keys_drop_nth:
  assumes "strict_keys cs" "n < length cs" "y \<in> set (drop n cs)"
  shows "fst (cs ! n) \<le> fst y"
proof -
  have d: "drop n cs = cs ! n # drop (Suc n) cs"
    using assms(2) by (simp add: Cons_nth_drop_Suc)
  have "strict_keys (drop n cs)" using assms(1) by (rule strict_keys_drop)
  then show ?thesis using assms(3) unfolding d by auto
qed

lemma strict_keys_take_nth:
  assumes "strict_keys cs" "n < length cs" "x \<in> set (take n cs)"
  shows "fst x < fst (cs ! n)"
proof -
  have "cs ! n \<in> set (drop n cs)"
    using assms(2) by (simp add: Cons_nth_drop_Suc[symmetric])
  then show ?thesis using assms(1,3) by (rule strict_keys_take_drop[rotated 2])
qed


section \<open>Insertion into an internal page\<close>

lemma internal_page_of_eq:
  assumes "getUint32 page OFF_PARENT = Inr parent" "parent < 4294967296"
    and "11 + 8 * length items \<le> PAGE_SIZE"
  shows "\<exists>np. internal_page_of page p0 items = Inr np \<and>
           is_internal np parent (p0 mod 4294967296) (map stored_item items)"
proof -
  define Z where "Z = replicate (PAGE_SIZE - 7) (0::byte)"
  define H where "H = hdr NODE_INTERNAL (length items) parent"
  define P where "P = be32 (p0 mod 4294967296)"
  have lz: "length Z = PAGE_SIZE - 7" by (simp add: Z_def)
  have lh: "length H = HEADER_SIZE" by (simp add: H_def HEADER_SIZE_def)
  have lp: "length P = 4" by (simp add: P_def)
  have hw: "ebind (setUint8 zero_page OFF_TYPE (int NODE_INTERNAL)) (\<lambda>p1.
              ebind (setUint16 p1 OFF_NUM_CELLS (int (length items))) f) =
            f (hdr NODE_INTERNAL (length items) 0 @ Z)" for f :: "byte list \<Rightarrow> error + byte list"
    unfolding Z_def by (rule header_written)
  have s3: "setUint32 (hdr NODE_INTERNAL (length items) 0 @ Z) OFF_PARENT (int parent) = Inr (H @ Z)"
    unfolding H_def by (rule hdr_set_parent)
  have s4: "setUint32 (H @ Z) HEADER_SIZE (int p0) = Inr (H @ P @ drop 4 Z)"
    using setUint32_at[OF lh, of Z "int p0"]
    by (simp add: lz PAGE_SIZE_def nat_int_mod P_def)
  have s5: "write_items ((H @ P) @ drop 4 Z) (HEADER_SIZE + 4) items =
      Inr ((H @ P) @ enc_items items @ drop (8 * length items) (drop 4 Z))"
    using write_items_at[of "H @ P" "HEADER_SIZE + 4" "drop 4 Z" items] assms(3)
    by (simp add: lh lp lz PAGE_SIZE_def)
  define np where "np = (H @ P) @ enc_items items @ drop (8 * length items) (drop 4 Z)"
  have s5': "write_items (H @ P @ drop 4 Z) (HEADER_SIZE + 4) items = Inr np"
    using s5 unfolding np_def by simp
  have e: "internal_page_of page p0 items = Inr np"
    unfolding internal_page_of_def hw assms(1) ebind_simps s3 s4 s5' ..
  have "length np = PAGE_SIZE"
    using assms(3) by (simp add: np_def lh lp lz HEADER_SIZE_def PAGE_SIZE_def)
  then have "is_internal np parent (p0 mod 4294967296) (map stored_item items)"
    unfolding is_internal_def using assms(2)
    by (auto simp: np_def H_def P_def)
  then show ?thesis using e by blast
qed

lemma insertIntoInternal_full:
  assumes "is_internal (peek d p) parent p0 its" "100 \<le> length its"
  shows "\<exists>d1. insertIntoInternal d p key r = (Inl IndexPageFull, d1) \<and> unchanged d d1"
proof -
  obtain d1 where r: "readPage d p = (peek d p, d1)" and u: "unchanged d d1"
    by (rule readPage_cases)
  have "insertIntoInternal d p key r = (Inl IndexPageFull, d1)"
    unfolding insertIntoInternal_def r
    using is_internal_reads(2)[OF assms(1)] assms(2) by simp
  then show ?thesis using u by blast
qed

lemma insertIntoInternal_ok:
  assumes "is_internal (peek d p) parent p0 its" "length its < 100"
  shows "\<exists>d1 np. insertIntoInternal d p key r = (Inr (), writePage d1 p np) \<and> unchanged d d1 \<and>
           is_internal np parent p0 (map stored_item (sort_key fst (its @ [(key, r)])))"
proof -
  obtain d1 where r: "readPage d p = (peek d p, d1)" and u: "unchanged d d1"
    by (rule readPage_cases)
  have par: "parent < 4294967296" and p0: "p0 < 4294967296"
    using assms(1) by (simp_all add: is_internal_def)
  have "11 + 8 * length (sort_key fst (its @ [(key, r)])) \<le> PAGE_SIZE"
    using assms(2) by (simp add: PAGE_SIZE_def)
  from internal_page_of_eq[OF is_internal_reads(3)[OF assms(1)] par this, of p0]
  obtain np where np: "internal_page_of (peek d p) p0 (sort_key fst (its @ [(key, r)])) = Inr np"
    and i: "is_internal np parent p0 (map stored_item (sort_key fst (its @ [(key, r)])))"
    using p0 by auto
  have "insertIntoInternal d p key r = (Inr (), writePage d1 p np)"
    unfolding insertIntoInternal_def r
    using is_internal_reads(2,4)[OF assms(1)] is_internal_reads(5)[OF assms(1), of "[]"] assms(2) np
    by (simp add: Let_def)
  then show ?thesis using u i by blast
qed

definition fresh_disk :: VirtualDisk where
  "fresh_disk = new_VirtualDisk \<lparr>ls_page = Map.empty, ls_maxPageId = None, ls_meta = Map.empty\<rparr>"

definition internal_image :: "nat \<Rightarrow> nat \<Rightarrow> item list \<Rightarrow> byte list" where
  "internal_image parent p0 its =
     hdr NODE_INTERNAL (length its) parent @ be32 p0 @ enc_items its @
     replicate (PAGE_SIZE - 11 - 8 * length its) 0"

lemma is_internal_image:
  assumes "parent < 4294967296" "p0 < 4294967296" "items_ok its" "11 + 8 * length its \<le> PAGE_SIZE"
  shows "is_internal (internal_image parent p0 its) parent p0 its"
  unfolding is_internal_def internal_image_def using assms by auto

text \<open>
  Claim C9.  \<open>insertIntoInternal\<close> on a well-formed internal page raises the
  index-page-full error exactly when the page already holds 100 entries or more; the
  size of the rewritten page plays no part.  With fewer than 100 entries the new pair
  is appended, the entries are sorted by key, and the page is rewritten with the same
  parent and leftmost child, key and child stored as unsigned 32-bit numbers.
\<close>

theorem insertIntoInternal_full_iff:
  assumes "is_internal (peek d p) parent p0 its"
  shows "(fst (insertIntoInternal d p key r) = Inl IndexPageFull \<longleftrightarrow> 100 \<le> length its) \<and>
         (length its < 100 \<longrightarrow>
            (\<exists>d1 np. insertIntoInternal d p key r = (Inr (), writePage d1 p np) \<and>
               unchanged d d1 \<and>
               is_internal np parent p0 (map stored_item (sort_key fst (its @ [(key, r)])))))"
proof (cases "100 \<le> length its")
  case True
  then show ?thesis using insertIntoInternal_full[OF assms True, of key r] by auto
next
  case False
  then have l: "length its < 100" by simp
  show ?thesis using insertIntoInternal_ok[OF assms l, of key r] False by auto
qed

theorem insertIntoInternal_full_iff_witness:
  "is_internal (peek (writePage fresh_disk 1 (internal_image 0 1 [(5, 2)])) 1) 0 1 [(5, 2)] \<and>
   fst (insertIntoInternal (writePage fresh_disk 1 (internal_image 0 1 [(5, 2)])) 1 3 4)
     \<noteq> Inl IndexPageFull \<and>
   (\<exists>d1 np. insertIntoInternal (writePage fresh_disk 1 (internal_image 0 1 [(5, 2)])) 1 3 4 =
        (Inr (), writePage d1 1 np) \<and>
      is_internal np 0 1 [(3, 4), (5, 2)])"
proof -
  have i: "is_internal (peek (writePage fresh_disk 1 (internal_image 0 1 [(5, 2)])) 1) 0 1 [(5, 2)]"
    using is_internal_image[of 0 1 "[(5, 2)]"] by (simp add: items_ok_def PAGE_SIZE_def)
  show ?thesis
    using insertIntoInternal_full_iff[OF i, of 3 4] i by (auto simp: stored_item_def)
qed

theorem insertIntoInternal_full_counterexample:
  "fst (insertIntoInternal (writePage fresh_disk 1 (internal_image 0 1 (replicate 100 (5, 2)))) 1 3 4)
     = Inl IndexPageFull \<and>
   HEADER_SIZE + 4 + 8 * length (sort_key fst (replicate 100 (5, 2) @ [(3, 4)])) \<le> PAGE_SIZE \<and>
   \<not> isl (internal_page_of (internal_image 0 1 (replicate 100 (5, 2))) 1
            (sort_key fst (replicate 100 (5, 2) @ [(3, 4)])))"
proof -
  have i: "is_internal (internal_image 0 1 (replicate 100 (5, 2))) 0 1 (replicate 100 (5, 2))"
    by (rule is_internal_image) (simp_all add: items_ok_def PAGE_SIZE_def)
  then have j: "is_internal (peek (writePage fresh_disk 1 (internal_image 0 1 (replicate 100 (5, 2)))) 1)
      0 1 (replicate 100 (5, 2))"
    by simp
  have a: "fst (insertIntoInternal (writePage fresh_disk 1 (internal_image 0 1 (replicate 100 (5, 2)))) 1 3 4)
     = Inl IndexPageFull"
    using insertIntoInternal_full[OF j, of 3 4] by auto
  have b: "11 + 8 * length (sort_key fst (replicate 100 (5::int, 2::nat) @ [(3, 4)])) \<le> PAGE_SIZE"
    by (simp add: PAGE_SIZE_def)
  have c: "\<not> isl (internal_page_of (internal_image 0 1 (replicate 100 (5, 2))) 1
            (sort_key fst (replicate 100 (5, 2) @ [(3, 4)])))"
    using internal_page_of_eq[OF is_internal_reads(3)[OF i] _ b, of 1] by auto
  show ?thesis using a b c by (simp add: HEADER_SIZE_def)
qed


section \<open>The two halves of a split leaf\<close>

lemma split_cells_length [simp]: "length (split_cells key val cs) = Suc (length cs)"
  by (simp add: split_cells_def)

lemma split_cells_set [simp]: "set (split_cells key val cs) = insert (key, val) (set cs)"
  by (simp add: split_cells_def)

lemma split_cells_keys_ok:
  "keys_ok cs \<Longrightarrow> 0 \<le> key \<Longrightarrow> key < 4294967296 \<Longrightarrow> keys_ok (split_cells key val cs)"
  by (simp add: keys_ok_def)

lemma keys_ok_take: "keys_ok cs \<Longrightarrow> keys_ok (take n cs)"
  by (auto simp: keys_ok_def dest: in_set_takeD)

lemma keys_ok_drop: "keys_ok cs \<Longrightarrow> keys_ok (drop n cs)"
  by (auto simp: keys_ok_def dest: in_set_dropD)

lemma is_leaf_keys_ok: "is_leaf page parent cs \<Longrightarrow> keys_ok cs"
  by (simp add: is_leaf_def)

lemma splitLeaf_written:
  fixes key :: int and val :: "byte list"
  assumes "is_leaf (peek (disk t) p) parent cs" "p \<le> maxPageId (disk t)"
  defines "cells \<equiv> split_cells key val cs"
  defines "mid \<equiv> length cells div 2"
  defines "n1 \<equiv> maxPageId (disk t) + 1"
  assumes "fits (take mid cells)" "fits (drop mid cells)"
  shows "\<exists>d4. peek d4 p = leaf_image (take mid cells) \<and>
           peek d4 n1 = leaf_image (drop mid cells) \<and>
           (\<forall>j. j \<noteq> p \<and> j \<noteq> n1 \<longrightarrow> peek d4 j = peek (disk t) j) \<and>
           maxPageId d4 = n1 \<and> in_tx d4 = in_tx (disk t) \<and>
           (\<forall>k. getMetadata d4 k = getMetadata (disk t) k) \<and>
           splitLeaf t p key val =
             (if p = rootPageId t
              then createGenericRoot (t\<lparr>disk := d4\<rparr>) (fst (cells ! mid)) p n1
              else (let (r, d5) = insertIntoInternal d4 parent (fst (cells ! mid)) n1
                    in (r, t\<lparr>disk := d5\<rparr>)))"
proof -
  obtain d1 where u: "unchanged (disk t) d1" and
    s: "splitLeaf t p key val =
       (let cells = split_cells key val cs;
            mid = length cells div 2;
            n1 = maxPageId d1 + 1;
            d2 = snd (allocatePage d1)
        in if \<not> fits (take mid cells) then (Inl RangeError, t\<lparr>disk := d2\<rparr>)
           else if \<not> fits (drop mid cells)
           then (Inl RangeError, t\<lparr>disk := writePage d2 p (leaf_image (take mid cells))\<rparr>)
           else
             (let d4 = writePage (writePage d2 p (leaf_image (take mid cells))) n1
                         (leaf_image (drop mid cells))
              in if p = rootPageId t
                 then createGenericRoot (t\<lparr>disk := d4\<rparr>) (fst (cells ! mid)) p n1
                 else (let (r, d5) = insertIntoInternal d4 parent (fst (cells ! mid)) n1
                       in (r, t\<lparr>disk := d5\<rparr>))))"
    using splitLeaf_eq[OF assms(1), of key val] by blast
  define d4 where "d4 = writePage (writePage (snd (allocatePage d1)) p (leaf_image (take mid cells))) n1
                         (leaf_image (drop mid cells))"
  have m: "maxPageId d1 = maxPageId (disk t)"
    using u by (rule unchanged_maxPageId)
  have pn: "p \<noteq> n1" using assms(2) by (simp add: n1_def)
  have a: "peek d4 p = leaf_image (take mid cells)" "peek d4 n1 = leaf_image (drop mid cells)"
    using pn by (simp_all add: d4_def)
  have b: "\<forall>j. j \<noteq> p \<and> j \<noteq> n1 \<longrightarrow> peek d4 j = peek (disk t) j"
    using u by (simp add: d4_def unchanged_peek)
  have c: "maxPageId d4 = n1"
    using assms(2) m by (simp add: d4_def n1_def maxPageId_writePage_same)
  have d: "in_tx d4 = in_tx (disk t)" "\<forall>k. getMetadata d4 k = getMetadata (disk t) k"
    using u by (simp_all add: d4_def unchanged_in_tx unchanged_getMetadata)
  have "splitLeaf t p key val =
             (if p = rootPageId t
              then createGenericRoot (t\<lparr>disk := d4\<rparr>) (fst (cells ! mid)) p n1
              else (let (r, d5) = insertIntoInternal d4 parent (fst (cells ! mid)) n1
                    in (r, t\<lparr>disk := d5\<rparr>)))"
    unfolding s using assms(6,7) m
    by (simp add: Let_def cells_def[symmetric] mid_def[symmetric] d4_def n1_def)
  then show ?thesis using a b c d by blast
qed

lemma splitLeaf_too_big:
  fixes key :: int and val :: "byte list"
  assumes "is_leaf (peek (disk t) p) parent cs"
  defines "cells \<equiv> split_cells key val cs"
  defines "mid \<equiv> length cells div 2"
  assumes "\<not> (fits (take mid cells) \<and> fits (drop mid cells))"
  shows "fst (splitLeaf t p key val) = Inl RangeError"
proof -
  obtain d1 where
    s: "splitLeaf t p key val =
       (let cells = split_cells key val cs;
            mid = length cells div 2;
            n1 = maxPageId d1 + 1;
            d2 = snd (allocatePage d1)
        in if \<not> fits (take mid cells) then (Inl RangeError, t\<lparr>disk := d2\<rparr>)
           else if \<not> fits (drop mid cells)
           then (Inl RangeError, t\<lparr>disk := writePage d2 p (leaf_image (take mid cells))\<rparr>)
           else
             (let d4 = writePage (writePage d2 p (leaf_image (take mid cells))) n1
                         (leaf_image (drop mid cells))
              in if p = rootPageId t
                 then createGenericRoot (t\<lparr>disk := d4\<rparr>) (fst (cells ! mid)) p n1
                 else (let (r, d5) = insertIntoInternal d4 parent (fst (cells ! mid)) n1
                       in (r, t\<lparr>disk := d5\<rparr>))))"
    using splitLeaf_eq[OF assms(1), of key val] by blast
  show ?thesis
    unfolding s using assms(4)
    by (auto simp: Let_def cells_def[symmetric] mid_def[symmetric])
qed

lemma createGenericRoot_written:
  assumes "l < 4294967296" "r < 4294967296" "0 \<le> key" "key < 4294967296"
  shows "\<exists>t'. createGenericRoot t key l r = (Inr (), t') \<and>
           rootPageId t' = maxPageId (disk t) + 1 \<and>
           maxPageId (disk t') = maxPageId (disk t) + 1 \<and>
           is_internal (peek (disk t') (maxPageId (disk t) + 1)) 0 l [(key, r)] \<and>
           (\<forall>j. j \<noteq> maxPageId (disk t) + 1 \<longrightarrow> peek (disk t') j = peek (disk t) j) \<and>
           in_tx (disk t') = in_tx (disk t) \<and>
           getMetadata (disk t') ''root'' = Some (MetaNum (maxPageId (disk t) + 1))"
proof -
  obtain rootp where
    e: "createGenericRoot t key l r =
      (Inr (), \<lparr>disk = setMetadata (writePage (snd (allocatePage (disk t))) (maxPageId (disk t) + 1) rootp)
                         ''root'' (MetaNum (maxPageId (disk t) + 1)),
                rootPageId = maxPageId (disk t) + 1\<rparr>)"
    and i: "is_internal rootp 0 (l mod 4294967296) [stored_item (key, r)]"
    using createGenericRoot_eq[of t key l r] by blast
  have "stored_item (key, r) = (key, r)"
    using assms by (simp add: stored_item_id)
  then have i': "is_internal rootp 0 l [(key, r)]"
    using i assms(1) by simp
  show ?thesis
    unfolding e using i' by (simp add: maxPageId_writePage_same)
qed

lemma is_leaf_leaf_image_id: "fits cs \<Longrightarrow> keys_ok cs \<Longrightarrow> is_leaf (leaf_image cs) 0 cs"
  using is_leaf_leaf_image[of cs] by (simp add: map_stored_id)

lemma splitLeaf_root_succeeds:
  fixes key :: int and val :: "byte list"
  assumes "is_leaf (peek (disk t) p) parent cs" "p \<le> maxPageId (disk t)"
    and "maxPageId (disk t) + 1 < 4294967296" "0 \<le> key" "key < 4294967296"
    and "p = rootPageId t"
  defines "cells \<equiv> split_cells key val cs"
  defines "mid \<equiv> length cells div 2"
  assumes "fits (take mid cells)" "fits (drop mid cells)"
  shows "\<exists>t'. splitLeaf t p key val = (Inr (), t')"
proof -
  obtain d4 where m: "maxPageId d4 = maxPageId (disk t) + 1"
    and s: "splitLeaf t p key val =
             (if p = rootPageId t
              then createGenericRoot (t\<lparr>disk := d4\<rparr>) (fst (cells ! mid)) p (maxPageId (disk t) + 1)
              else (let (r, d5) = insertIntoInternal d4 parent (fst (cells ! mid)) (maxPageId (disk t) + 1)
                    in (r, t\<lparr>disk := d5\<rparr>)))"
    using splitLeaf_written[OF assms(1,2) assms(9,10)[unfolded mid_def cells_def]]
    unfolding cells_def mid_def by blast
  have ok: "keys_ok cells"
    unfolding cells_def using is_leaf_keys_ok[OF assms(1)] assms(4,5) by (rule split_cells_keys_ok)
  have "mid < length cells" by (simp add: mid_def cells_def)
  then have "cells ! mid \<in> set cells" by simp
  then have k: "0 \<le> fst (cells ! mid)" "fst (cells ! mid) < 4294967296"
    using ok by (auto simp: keys_ok_def)
  have "p < 4294967296" using assms(2,3) by simp
  from createGenericRoot_written[OF this assms(3) k, of "t\<lparr>disk := d4\<rparr>"]
  show ?thesis unfolding s using assms(6) by auto
qed

lemma createGenericRoot_stored:
  assumes "l < 4294967296" "r < 4294967296"
  shows "\<exists>t'. createGenericRoot t key l r = (Inr (), t') \<and>
           rootPageId t' = maxPageId (disk t) + 1 \<and>
           maxPageId (disk t') = maxPageId (disk t) + 1 \<and>
           is_internal (peek (disk t') (maxPageId (disk t) + 1)) 0 l [(key mod 4294967296, r)] \<and>
           (\<forall>j. j \<noteq> maxPageId (disk t) + 1 \<longrightarrow> peek (disk t') j = peek (disk t) j) \<and>
           getMetadata (disk t') ''root'' = Some (MetaNum (maxPageId (disk t) + 1))"
proof -
  obtain rootp where
    e: "createGenericRoot t key l r =
      (Inr (), \<lparr>disk = setMetadata (writePage (snd (allocatePage (disk t))) (maxPageId (disk t) + 1) rootp)
                         ''root'' (MetaNum (maxPageId (disk t) + 1)),
                rootPageId = maxPageId (disk t) + 1\<rparr>)"
    and i: "is_internal rootp 0 (l mod 4294967296) [stored_item (key, r)]"
    using createGenericRoot_eq[of t key l r] by blast
  have "stored_item (key, r) = (key mod 4294967296, r)"
    using assms(2) by (simp add: stored_item_def)
  then have i': "is_internal rootp 0 l [(key mod 4294967296, r)]"
    using i assms(1) by simp
  show ?thesis
    unfolding e using i' by (simp add: maxPageId_writePage_same)
qed

text \<open>
  A split of a well-formed leaf \<open>p\<close> that returns normally: \<open>cells\<close> is the old cells and
  the new one sorted by key and \<open>mid\<close> is half their number, rounded down.  The cells
  before \<open>mid\<close> are written to \<open>p\<close>, the cells from \<open>mid\<close> on to the newly allocated page
  \<open>n1\<close>, and the separator is the key of \<open>cells ! mid\<close>.  When \<open>p\<close> was the root, the next
  allocated page is the new root: an internal page with one entry, leftmost child \<open>p\<close>,
  key the separator, right child \<open>n1\<close>, parent 0; \<open>rootPageId\<close> is that page and it is
  recorded under the metadata key \<open>root\<close>.  Otherwise the separator and \<open>n1\<close> are passed
  to \<open>insertIntoInternal\<close> for the page that the leaf names as its parent.  Keys are
  written as unsigned 32-bit numbers: \<open>stored\<close> is a cell with its key reduced modulo
  \<open>2^32\<close>, the cell itself when the key is in that range.
\<close>

lemma splitLeaf_returned:
  fixes key :: int and val :: "byte list"
  assumes "is_leaf (peek (disk t) p) parent cs" "p \<le> maxPageId (disk t)"
    and "maxPageId (disk t) + 1 < 4294967296"
  defines "cells \<equiv> sort_key fst (cs @ [(key, val)])"
  defines "mid \<equiv> length cells div 2"
  defines "n1 \<equiv> maxPageId (disk t) + 1"
  assumes "splitLeaf t p key val = (Inr (), t')"
  shows "mid < length cells \<and>
    (p = rootPageId t \<longrightarrow>
       is_leaf (peek (disk t') p) 0 (map stored (take mid cells)) \<and>
       is_leaf (peek (disk t') n1) 0 (map stored (drop mid cells)) \<and>
       rootPageId t' = n1 + 1 \<and> maxPageId (disk t') = n1 + 1 \<and>
       is_internal (peek (disk t') (n1 + 1)) 0 p [(fst (stored (cells ! mid)), n1)] \<and>
       getMetadata (disk t') ''root'' = Some (MetaNum (n1 + 1)) \<and>
       (\<forall>j. j \<noteq> p \<and> j \<noteq> n1 \<and> j \<noteq> n1 + 1 \<longrightarrow> peek (disk t') j = peek (disk t) j)) \<and>
    (p \<noteq> rootPageId t \<longrightarrow>
       rootPageId t' = rootPageId t \<and>
       (\<exists>d4. is_leaf (peek d4 p) 0 (map stored (take mid cells)) \<and>
          is_leaf (peek d4 n1) 0 (map stored (drop mid cells)) \<and> maxPageId d4 = n1 \<and>
          (\<forall>j. j \<noteq> p \<and> j \<noteq> n1 \<longrightarrow> peek d4 j = peek (disk t) j) \<and>
          insertIntoInternal d4 parent (fst (cells ! mid)) n1 = (Inr (), disk t')))"
proof -
  have c: "cells = split_cells key val cs" by (simp add: cells_def split_cells_def)
  have f: "fits (take mid cells)" "fits (drop mid cells)"
    using splitLeaf_too_big[OF assms(1), of key val] assms(7) unfolding c mid_def by auto
  obtain d4 where a: "peek d4 p = leaf_image (take mid cells)"
    "peek d4 n1 = leaf_image (drop mid cells)"
    and b: "\<forall>j. j \<noteq> p \<and> j \<noteq> n1 \<longrightarrow> peek d4 j = peek (disk t) j"
    and m: "maxPageId d4 = n1"
    and s: "splitLeaf t p key val =
             (if p = rootPageId t
              then createGenericRoot (t\<lparr>disk := d4\<rparr>) (fst (cells ! mid)) p n1
              else (let (r, d5) = insertIntoInternal d4 parent (fst (cells ! mid)) n1
                    in (r, t\<lparr>disk := d5\<rparr>)))"
    using splitLeaf_written[OF assms(1,2) f[unfolded mid_def c]]
    unfolding c mid_def n1_def by blast
  have l: "is_leaf (peek d4 p) 0 (map stored (take mid cells))"
    "is_leaf (peek d4 n1) 0 (map stored (drop mid cells))"
    unfolding a using f by (simp_all add: is_leaf_leaf_image)
  have ml: "mid < length cells" by (simp add: mid_def c)
  have pn: "p \<noteq> n1" "p \<noteq> n1 + 1" using assms(2) by (simp_all add: n1_def)
  have root: ?thesis if r: "p = rootPageId t"
  proof -
    have pl: "p < 4294967296" using assms(2,3) by simp
    have nl: "n1 < 4294967296" using assms(3) by (simp add: n1_def)
    obtain t2 where e: "createGenericRoot (t\<lparr>disk := d4\<rparr>) (fst (cells ! mid)) p n1 = (Inr (), t2)"
      and g: "rootPageId t2 = n1 + 1" "maxPageId (disk t2) = n1 + 1"
        "is_internal (peek (disk t2) (n1 + 1)) 0 p [(fst (cells ! mid) mod 4294967296, n1)]"
        "\<forall>j. j \<noteq> n1 + 1 \<longrightarrow> peek (disk t2) j = peek d4 j"
        "getMetadata (disk t2) ''root'' = Some (MetaNum (n1 + 1))"
      using createGenericRoot_stored[OF pl nl, of "t\<lparr>disk := d4\<rparr>"] m by auto
    have t': "t' = t2" using assms(7) s e r by simp
    show ?thesis
      unfolding t' using r ml g l b pn by simp
  qed
  have inner: ?thesis if r: "p \<noteq> rootPageId t"
  proof -
    obtain res d5 where i: "insertIntoInternal d4 parent (fst (cells ! mid)) n1 = (res, d5)"
      by (cases "insertIntoInternal d4 parent (fst (cells ! mid)) n1")
    have "res = Inr ()" "t' = t\<lparr>disk := d5\<rparr>"
      using assms(7) s r i by simp_all
    then show ?thesis
      using r ml l b m i by auto
  qed
  show ?thesis using root inner by blast
qed

lemma maxPageId_fresh_disk [simp]: "maxPageId fresh_disk = 0"
  by (simp add: fresh_disk_def new_VirtualDisk_def load_def)

lemma in_tx_fresh_disk [simp]: "\<not> in_tx fresh_disk"
  by (simp add: fresh_disk_def new_VirtualDisk_def load_def in_tx_def)

lemma maxPageId_writePage_new:
  "\<not> in_tx d \<Longrightarrow> maxPageId d < i \<Longrightarrow> maxPageId (writePage d i p) = i"
  by (auto simp: writePage_def writeToDisk_def saveMeta_def in_tx_def Let_def split: option.splits)

lemma splitLeaf_returned_root:
  "\<exists>t'. splitLeaf \<lparr>disk = writePage fresh_disk 1 (leaf_image [(1, [])]), rootPageId = 1\<rparr> 1 2 []
           = (Inr (), t') \<and>
     is_leaf (peek (disk t') 1) 0 [(1, [])] \<and> is_leaf (peek (disk t') 2) 0 [(2, [])] \<and>
     rootPageId t' = 3 \<and> is_internal (peek (disk t') 3) 0 1 [(2, 2)] \<and>
     getMetadata (disk t') ''root'' = Some (MetaNum 3)"
proof -
  define t where "t = \<lparr>disk = writePage fresh_disk 1 (leaf_image [(1, [])]), rootPageId = 1\<rparr>"
  have m: "maxPageId (disk t) = 1"
    by (simp add: t_def maxPageId_writePage_new)
  have f: "fits [(1, [])]" "fits [(2, [])]"
    by (simp_all add: fits_def enc_cell_def PAGE_SIZE_def)
  have l: "is_leaf (peek (disk t) 1) 0 [(1, [])]"
    using is_leaf_leaf_image_id[OF f(1)] by (simp add: t_def)
  have c: "split_cells 2 [] [(1, [])] = [(1, []), (2, [])]"
    by (simp add: split_cells_def)
  have r: "1 = rootPageId t" by (simp add: t_def)
  have b: "1 \<le> maxPageId (disk t)" "maxPageId (disk t) + 1 < 4294967296"
    by (simp_all add: m)
  have f': "fits (take (length (split_cells 2 [] [(1, [])]) div 2) (split_cells 2 [] [(1, [])]))"
    "fits (drop (length (split_cells 2 [] [(1, [])]) div 2) (split_cells 2 [] [(1, [])]))"
    using f by (simp_all add: c)
  obtain t' where s: "splitLeaf t 1 2 [] = (Inr (), t')"
    using splitLeaf_root_succeeds[OF l b _ _ r f'] by auto
  have "is_leaf (peek (disk t') 1) 0 [(1, [])] \<and> is_leaf (peek (disk t') 2) 0 [(2, [])] \<and>
     rootPageId t' = 3 \<and> is_internal (peek (disk t') 3) 0 1 [(2, 2)] \<and>
     getMetadata (disk t') ''root'' = Some (MetaNum 3)"
    using splitLeaf_returned[OF l b s]
    by (simp add: m t_def[THEN arg_cong, of rootPageId] eval_nat_numeral stored_def)
  then show ?thesis
    using s unfolding t_def by blast
qed


section \<open>Insertion and deletion, page by page\<close>

lemma scan_index_found: "scan_index key cs i ins True = ins"
  by (induction cs arbitrary: i) simp_all

lemma scan_index_takeWhile:
  "scan_index key cs i (i + length cs) False = i + length (takeWhile (\<lambda>c. fst c \<le> key) cs)"
proof (induction cs arbitrary: i)
  case Nil
  then show ?case by simp
next
  case (Cons c cs)
  show ?case
    using Cons.IH[of "i + 1"] by (simp add: scan_index_found not_less)
qed

lemma leaf_insert_eq:
  "leaf_insert key val cs =
     takeWhile (\<lambda>c. fst c \<le> key) cs @ stored (key, val) # dropWhile (\<lambda>c. fst c \<le> key) cs"
  using scan_index_takeWhile[of key cs 0]
  by (simp add: leaf_insert_def Let_def takeWhile_eq_take[symmetric] dropWhile_eq_drop[symmetric])

lemma set_takeWhile_dropWhile:
  "set (takeWhile P xs @ x # dropWhile P xs) = insert x (set xs)"
proof -
  have "set (takeWhile P xs) \<union> set (dropWhile P xs) = set (takeWhile P xs @ dropWhile P xs)"
    by (simp only: set_append)
  then have "set (takeWhile P xs) \<union> set (dropWhile P xs) = set xs"
    by simp
  then show ?thesis by auto
qed

lemma leaf_insert_set:
  "set (leaf_insert key val cs) = insert (stored (key, val)) (set cs)"
  unfolding leaf_insert_eq by (rule set_takeWhile_dropWhile)

lemma strict_keys_insert:
  "strict_keys cs \<Longrightarrow> key \<notin> fst ` set cs \<Longrightarrow>
   strict_keys (takeWhile (\<lambda>c. fst c \<le> key) cs @ (key, val) # dropWhile (\<lambda>c. fst c \<le> key) cs)"
proof (induction cs)
  case Nil
  then show ?case by simp
next
  case (Cons c cs)
  have s: "set (takeWhile (\<lambda>c. fst c \<le> key) cs @ (key, val) # dropWhile (\<lambda>c. fst c \<le> key) cs)
            = insert (key, val) (set cs)"
    by (rule set_takeWhile_dropWhile)
  show ?case
  proof (cases "fst c \<le> key")
    case True
    then have "fst c < key" using Cons.prems(2) by force
    then show ?thesis
      using True Cons s by (auto simp del: set_append)
  next
    case False
    then show ?thesis
      using Cons.prems by (auto simp: strict_keys_append)
  qed
qed

lemma strict_keys_leaf_insert:
  assumes "strict_keys cs" "key \<notin> fst ` set cs" "0 \<le> key" "key < 4294967296"
  shows "strict_keys (leaf_insert key val cs)"
  unfolding leaf_insert_eq stored_id[of "(key, val)", simplified, OF assms(3,4)]
  using assms(1,2) by (rule strict_keys_insert)

lemma strict_keys_split_cells:
  assumes "strict_keys cs" "key \<notin> fst ` set cs"
  shows "strict_keys (split_cells key val cs)"
  unfolding split_cells_def
  by (rule strict_keys_sort) (use assms strict_keys_distinct[OF assms(1)] in auto)

lemma BTree_insert_at:
  assumes "fst (findLeafPage depth (disk t) (rootPageId t) key) = Inr leaf"
  shows "\<exists>d1. unchanged (disk t) d1 \<and>
           BTree_insert depth t key val = insertIntoLeaf (t\<lparr>disk := d1\<rparr>) leaf key val"
proof -
  define d1 where "d1 = snd (findLeafPage depth (disk t) (rootPageId t) key)"
  have f: "findLeafPage depth (disk t) (rootPageId t) key = (Inr leaf, d1)"
    using assms by (simp add: d1_def prod_eq_iff)
  have "unchanged (disk t) d1"
    unfolding d1_def by (rule findLeafPage_unchanged)
  then show ?thesis
    by (auto simp: BTree_insert_def f)
qed

lemma BTree_delete_at:
  assumes "fst (findLeafPage depth (disk t) (rootPageId t) key) = Inr leaf"
    and "is_leaf (peek (disk t) leaf) parent cs"
  shows "\<exists>d2 np. unchanged (disk t) d2 \<and>
           is_leaf np parent (filter (\<lambda>c. fst c \<noteq> key) cs) \<and>
           BTree_delete depth t key =
             (if key \<in> fst ` set cs then (Inr (), t\<lparr>disk := writePage d2 leaf np\<rparr>)
              else (Inl (KeyNotFound key), t\<lparr>disk := d2\<rparr>))"
proof -
  define d1 where "d1 = snd (findLeafPage depth (disk t) (rootPageId t) key)"
  have f: "findLeafPage depth (disk t) (rootPageId t) key = (Inr leaf, d1)"
    using assms(1) by (simp add: d1_def prod_eq_iff)
  have u1: "unchanged (disk t) d1"
    unfolding d1_def by (rule findLeafPage_unchanged)
  obtain d2 where r: "readPage d1 leaf = (peek d1 leaf, d2)" and u2: "unchanged d1 d2"
    by (rule readPage_cases)
  have u: "unchanged (disk t) d2" using u1 u2 by (rule unchanged_trans)
  have l: "is_leaf (peek d1 leaf) parent cs"
    using assms(2) u1 by (simp add: unchanged_peek)
  obtain p1 np where
    a: "ebind (setUint8 zero_page OFF_TYPE (int NODE_LEAF)) (\<lambda>p0.
        delete_cells (peek d1 leaf) p0 key HEADER_SIZE HEADER_SIZE (length cs) False 0) =
        Inr (p1, key \<in> fst ` set cs, length (filter (\<lambda>c. fst c \<noteq> key) cs))"
    and b: "ebind (setUint16 p1 OFF_NUM_CELLS (int (length (filter (\<lambda>c. fst c \<noteq> key) cs)))) (\<lambda>p2.
        ebind (getUint32 (peek d1 leaf) OFF_PARENT) (\<lambda>parent.
          setUint32 p2 OFF_PARENT (int parent))) = Inr np"
    and c: "is_leaf np parent (filter (\<lambda>c. fst c \<noteq> key) cs)"
    using delete_page_eq[OF l, of key] by blast
  have "BTree_delete depth t key =
             (if key \<in> fst ` set cs then (Inr (), t\<lparr>disk := writePage d2 leaf np\<rparr>)
              else (Inl (KeyNotFound key), t\<lparr>disk := d2\<rparr>))"
    unfolding BTree_delete_def f using is_leaf_reads(2)[OF l] a b
    by (simp add: r Let_def)
  then show ?thesis using u c by blast
qed

lemma insertIntoLeaf_not_dup:
  assumes "is_leaf (peek (disk t) p) parent cs" "insertIntoLeaf t p key val = (Inr (), t')"
  shows "key \<notin> fst ` set cs"
  using insertIntoLeaf_dup[OF assms(1), of key val] assms(2) by auto

lemma insertIntoLeaf_fit_state:
  assumes "is_leaf (peek (disk t) p) parent cs" "p \<le> maxPageId (disk t)"
    and "HEADER_SIZE + length (enc_cells cs) + (8 + length val) \<le> PAGE_SIZE"
    and "insertIntoLeaf t p key val = (Inr (), t')"
  shows "rootPageId t' = rootPageId t \<and> maxPageId (disk t') = maxPageId (disk t) \<and>
         in_tx (disk t') = in_tx (disk t) \<and>
         is_leaf (peek (disk t') p) parent (leaf_insert key val cs) \<and>
         (\<forall>j. j \<noteq> p \<longrightarrow> peek (disk t') j = peek (disk t) j)"
proof -
  have n: "key \<notin> fst ` set cs" using assms(1,4) by (rule insertIntoLeaf_not_dup)
  obtain d1 np where e: "insertIntoLeaf t p key val = (Inr (), t\<lparr>disk := writePage d1 p np\<rparr>)"
    and u: "unchanged (disk t) d1" and l: "is_leaf np parent (leaf_insert key val cs)"
    using insertIntoLeaf_fit[OF assms(1) n assms(3)] by blast
  have t': "t' = t\<lparr>disk := writePage d1 p np\<rparr>" using e assms(4) by simp
  have "p \<le> maxPageId d1" using assms(2) u by (simp add: unchanged_maxPageId)
  then show ?thesis
    unfolding t' using u l
    by (simp add: maxPageId_writePage_same unchanged_maxPageId unchanged_peek unchanged_in_tx)
qed

lemma insertIntoLeaf_split_state:
  fixes key :: int and val :: "byte list"
  assumes "is_leaf (peek (disk t) p) parent cs" "p \<le> maxPageId (disk t)"
    and "\<not> HEADER_SIZE + length (enc_cells cs) + (8 + length val) \<le> PAGE_SIZE"
    and "insertIntoLeaf t p key val = (Inr (), t')"
  defines "cells \<equiv> split_cells key val cs"
  defines "mid \<equiv> length cells div 2"
  defines "n1 \<equiv> maxPageId (disk t) + 1"
  shows "\<exists>d4. fits (take mid cells) \<and> fits (drop mid cells) \<and>
           peek d4 p = leaf_image (take mid cells) \<and>
           peek d4 n1 = leaf_image (drop mid cells) \<and>
           (\<forall>j. j \<noteq> p \<and> j \<noteq> n1 \<longrightarrow> peek d4 j = peek (disk t) j) \<and>
           maxPageId d4 = n1 \<and> in_tx d4 = in_tx (disk t) \<and>
           (if p = rootPageId t
            then createGenericRoot (t\<lparr>disk := d4\<rparr>) (fst (cells ! mid)) p n1 = (Inr (), t')
            else rootPageId t' = rootPageId t \<and>
                 insertIntoInternal d4 parent (fst (cells ! mid)) n1 = (Inr (), disk t'))"
proof -
  have n: "key \<notin> fst ` set cs" using assms(1,4) by (rule insertIntoLeaf_not_dup)
  obtain d1 where e: "insertIntoLeaf t p key val = splitLeaf (t\<lparr>disk := d1\<rparr>) p key val"
    and u: "unchanged (disk t) d1"
    using insertIntoLeaf_split[OF assms(1) n assms(3)] by blast
  define t1 where "t1 = t\<lparr>disk := d1\<rparr>"
  have l1: "is_leaf (peek (disk t1) p) parent cs"
    using assms(1) u by (simp add: t1_def unchanged_peek)
  have p1: "p \<le> maxPageId (disk t1)"
    using assms(2) u by (simp add: t1_def unchanged_maxPageId)
  have s: "splitLeaf t1 p key val = (Inr (), t')"
    using e assms(4) by (simp add: t1_def)
  have f: "fits (take mid cells)" "fits (drop mid cells)"
    using splitLeaf_too_big[OF l1, of key val] s unfolding cells_def mid_def by auto
  have n1: "n1 = maxPageId (disk t1) + 1"
    using u by (simp add: n1_def t1_def unchanged_maxPageId)
  obtain d4 where a: "peek d4 p = leaf_image (take mid cells)"
    "peek d4 n1 = leaf_image (drop mid cells)"
    and b: "\<forall>j. j \<noteq> p \<and> j \<noteq> n1 \<longrightarrow> peek d4 j = peek (disk t1) j"
    and m: "maxPageId d4 = n1" "in_tx d4 = in_tx (disk t1)"
    and w: "splitLeaf t1 p key val =
             (if p = rootPageId t1
              then createGenericRoot (t1\<lparr>disk := d4\<rparr>) (fst (cells ! mid)) p n1
              else (let (r, d5) = insertIntoInternal d4 parent (fst (cells ! mid)) n1
                    in (r, t1\<lparr>disk := d5\<rparr>)))"
    using splitLeaf_written[OF l1 p1 f[unfolded mid_def cells_def]]
    unfolding cells_def mid_def n1 by blast
  have b': "\<forall>j. j \<noteq> p \<and> j \<noteq> n1 \<longrightarrow> peek d4 j = peek (disk t) j"
    using b u by (simp add: t1_def unchanged_peek)
  have m': "in_tx d4 = in_tx (disk t)"
    using m(2) u by (simp add: t1_def unchanged_in_tx)
  have c: "if p = rootPageId t
            then createGenericRoot (t\<lparr>disk := d4\<rparr>) (fst (cells ! mid)) p n1 = (Inr (), t')
            else rootPageId t' = rootPageId t \<and>
                 insertIntoInternal d4 parent (fst (cells ! mid)) n1 = (Inr (), disk t')"
    using s unfolding w by (auto simp: t1_def split: prod.splits)
  show ?thesis using f a b' m(1) m' c by blast
qed


section \<open>The shape of the trees that the operations build\<close>

text \<open>
  A tree starts as a single leaf.  The first split gives it a root with one separator
  and two leaves.  A later split of one of these leaves keeps the left half in place and
  reports the right half to page 0, the parent that every rewritten leaf names; the root
  is never written again.  So a tree is either a single leaf or a root over two leaves.
\<close>

definition leaf_tree :: "BTree \<Rightarrow> cell list \<Rightarrow> bool" where
  "leaf_tree t cs \<longleftrightarrow>
     rootPageId t \<noteq> 0 \<and> rootPageId t \<le> maxPageId (disk t) \<and>
     maxPageId (disk t) + 2 < 4294967296 \<and>
     (\<exists>parent. is_leaf (peek (disk t) (rootPageId t)) parent cs) \<and> strict_keys cs"

definition split_at :: "BTree \<Rightarrow> nat \<Rightarrow> int \<Rightarrow> nat \<Rightarrow> cell list \<Rightarrow> cell list \<Rightarrow> bool" where
  "split_at t c0 sep c1 L R \<longleftrightarrow>
     rootPageId t \<noteq> 0 \<and> c0 \<noteq> 0 \<and> c1 \<noteq> 0 \<and>
     c0 \<noteq> c1 \<and> c0 \<noteq> rootPageId t \<and> c1 \<noteq> rootPageId t \<and>
     rootPageId t \<le> maxPageId (disk t) \<and> c0 \<le> maxPageId (disk t) \<and> c1 \<le> maxPageId (disk t) \<and>
     is_internal (peek (disk t) (rootPageId t)) 0 c0 [(sep, c1)] \<and>
     is_leaf (peek (disk t) c0) 0 L \<and> is_leaf (peek (disk t) c1) 0 R \<and>
     strict_keys L \<and> strict_keys R \<and>
     list_all (\<lambda>c. fst c < sep) L \<and> list_all (\<lambda>c. sep \<le> fst c) R"

definition tree_inv :: "BTree \<Rightarrow> cell list \<Rightarrow> bool" where
  "tree_inv t cs \<longleftrightarrow>
     leaf_tree t cs \<or> (\<exists>c0 sep c1 L R. cs = L @ R \<and> split_at t c0 sep c1 L R)"

lemma leaf_tree_unchanged:
  "leaf_tree t cs \<Longrightarrow> unchanged (disk t) d1 \<Longrightarrow> leaf_tree (t\<lparr>disk := d1\<rparr>) cs"
  by (simp add: leaf_tree_def unchanged_peek unchanged_maxPageId)

lemma split_at_unchanged:
  "split_at t c0 sep c1 L R \<Longrightarrow> unchanged (disk t) d1 \<Longrightarrow> split_at (t\<lparr>disk := d1\<rparr>) c0 sep c1 L R"
  by (simp add: split_at_def unchanged_peek unchanged_maxPageId)

lemma split_at_strict:
  assumes "split_at t c0 sep c1 L R"
  shows "strict_keys (L @ R)"
  using assms unfolding split_at_def strict_keys_append list_all_iff by fastforce

lemma tree_inv_strict: "tree_inv t cs \<Longrightarrow> strict_keys cs"
  unfolding tree_inv_def using split_at_strict by (auto simp: leaf_tree_def)

lemma split_at_map_of:
  assumes "split_at t c0 sep c1 L R"
  shows "map_of (if key < sep then L else R) key = map_of (L @ R) key"
proof (cases "key < sep")
  case True
  have "key \<notin> fst ` set R"
    using assms True unfolding split_at_def list_all_iff by fastforce
  then have "map_of R key = None"
    by (simp add: map_of_eq_None_iff)
  then show ?thesis using True by (simp add: map_add_def split: option.splits)
next
  case False
  have "key \<notin> fst ` set L"
    using assms False unfolding split_at_def list_all_iff by fastforce
  then have "map_of L key = None"
    by (simp add: map_of_eq_None_iff)
  then show ?thesis using False by (simp add: map_add_def)
qed

lemma getAll_traverse: "fst (getAll depth t) = fst (traverse depth (disk t) (rootPageId t))"
  by (simp add: getAll_def split: prod.splits)

lemma tree_inv_getAll:
  assumes "tree_inv t cs"
  shows "fst (getAll (Suc (Suc depth)) t) = Inr cs"
  using assms unfolding tree_inv_def getAll_traverse
proof (elim disjE exE conjE)
  assume "leaf_tree t cs"
  then obtain parent where "is_leaf (peek (disk t) (rootPageId t)) parent cs"
    by (auto simp: leaf_tree_def)
  then show "fst (traverse (Suc (Suc depth)) (disk t) (rootPageId t)) = Inr cs"
    by (rule traverse_leaf)
next
  fix c0 sep c1 L R
  assume c: "cs = L @ R" and s: "split_at t c0 sep c1 L R"
  show "fst (traverse (Suc (Suc depth)) (disk t) (rootPageId t)) = Inr cs"
    unfolding c
    by (rule traverse_root[of "disk t" "rootPageId t" 0 c0 sep c1 0 L 0 R])
       (use s in \<open>simp_all add: split_at_def\<close>)
qed

lemma tree_inv_search:
  assumes "tree_inv t cs"
  shows "fst (search (Suc (Suc depth)) t key) = Inr (map_of cs key)"
  using assms unfolding tree_inv_def
proof (elim disjE exE conjE)
  assume "leaf_tree t cs"
  then obtain parent where "is_leaf (peek (disk t) (rootPageId t)) parent cs"
    by (auto simp: leaf_tree_def)
  then show ?thesis
    by (rule search_leaf_root)
next
  fix c0 sep c1 L R
  assume c: "cs = L @ R" and s: "split_at t c0 sep c1 L R"
  have "fst (search (Suc (Suc depth)) t key) = Inr (map_of (if key < sep then L else R) key)"
    by (rule search_split_root[of t 0 c0 sep c1 0 L 0 R])
       (use s in \<open>simp_all add: split_at_def\<close>)
  then show ?thesis
    unfolding c split_at_map_of[OF s] .
qed

lemma insert_inner_leaf:
  fixes key :: int and val :: "byte list"
  assumes l: "is_leaf (peek (disk t) p) 0 cs" and p0: "p \<noteq> 0" and pm: "p \<le> maxPageId (disk t)"
    and pr: "p \<noteq> rootPageId t" and st: "strict_keys cs"
    and k: "0 \<le> key" "key < 4294967296"
    and ok: "insertIntoLeaf t p key val = (Inr (), t')"
  shows "\<exists>cs'. is_leaf (peek (disk t') p) 0 cs' \<and> strict_keys cs' \<and>
           set cs' \<subseteq> insert (key, val) (set cs) \<and>
           rootPageId t' = rootPageId t \<and> maxPageId (disk t) \<le> maxPageId (disk t') \<and>
           (\<forall>j. j \<noteq> p \<and> j \<noteq> 0 \<and> j \<le> maxPageId (disk t) \<longrightarrow> peek (disk t') j = peek (disk t) j)"
proof (cases "HEADER_SIZE + length (enc_cells cs) + (8 + length val) \<le> PAGE_SIZE")
  case True
  have n: "key \<notin> fst ` set cs" using l ok by (rule insertIntoLeaf_not_dup)
  have s: "strict_keys (leaf_insert key val cs)"
    using st n k by (rule strict_keys_leaf_insert)
  have "set (leaf_insert key val cs) = insert (key, val) (set cs)"
    unfolding leaf_insert_set using k by (simp add: stored_id)
  then show ?thesis
    using insertIntoLeaf_fit_state[OF l pm True ok] s by auto
next
  case False
  define cells where "cells = split_cells key val cs"
  define mid where "mid = length cells div 2"
  define n1 where "n1 = maxPageId (disk t) + 1"
  have n: "key \<notin> fst ` set cs" using l ok by (rule insertIntoLeaf_not_dup)
  obtain d4 where f: "fits (take mid cells)"
    and a: "peek d4 p = leaf_image (take mid cells)"
    and b: "\<forall>j. j \<noteq> p \<and> j \<noteq> n1 \<longrightarrow> peek d4 j = peek (disk t) j"
    and m: "maxPageId d4 = n1"
    and r: "rootPageId t' = rootPageId t"
    and i: "insertIntoInternal d4 0 (fst (cells ! mid)) n1 = (Inr (), disk t')"
    using insertIntoLeaf_split_state[OF l pm False ok] pr
    unfolding cells_def mid_def n1_def by auto
  have fr: "\<forall>j. j \<noteq> 0 \<longrightarrow> peek (disk t') j = peek d4 j" and mm: "maxPageId d4 \<le> maxPageId (disk t')"
    using insertIntoInternal_frame[OF i] by simp_all
  have ok': "keys_ok (take mid cells)"
    unfolding cells_def
    by (rule keys_ok_take, rule split_cells_keys_ok) (use is_leaf_keys_ok[OF l] k in simp_all)
  have l': "is_leaf (peek (disk t') p) 0 (take mid cells)"
    using fr p0 a is_leaf_leaf_image_id[OF f ok'] by simp
  have s: "strict_keys (take mid cells)"
    unfolding cells_def by (rule strict_keys_take, rule strict_keys_split_cells) (use st n in simp_all)
  have sub: "set (take mid cells) \<subseteq> insert (key, val) (set cs)"
    using set_take_subset[of mid cells] by (simp add: cells_def)
  have fr': "\<forall>j. j \<noteq> p \<and> j \<noteq> 0 \<and> j \<le> maxPageId (disk t) \<longrightarrow> peek (disk t') j = peek (disk t) j"
    using fr b by (simp add: n1_def)
  have "maxPageId (disk t) \<le> maxPageId (disk t')"
    using mm m by (simp add: n1_def)
  then show ?thesis using l' s sub r fr' by blast
qed

lemma leaf_tree_insert_shape:
  fixes key :: int and val :: "byte list"
  assumes lt: "leaf_tree t cs" and k: "0 \<le> key" "key < 4294967296"
    and ok: "insertIntoLeaf t (rootPageId t) key val = (Inr (), t')"
  defines "cells \<equiv> split_cells key val cs"
  defines "mid \<equiv> length cells div 2"
  shows "if HEADER_SIZE + length (enc_cells cs) + (8 + length val) \<le> PAGE_SIZE
         then leaf_tree t' (leaf_insert key val cs)
         else split_at t' (rootPageId t) (fst (cells ! mid)) (maxPageId (disk t) + 1)
                (take mid cells) (drop mid cells)"
proof -
  obtain parent where l: "is_leaf (peek (disk t) (rootPageId t)) parent cs"
    and r0: "rootPageId t \<noteq> 0" and pm: "rootPageId t \<le> maxPageId (disk t)"
    and mx: "maxPageId (disk t) + 2 < 4294967296" and st: "strict_keys cs"
    using lt by (auto simp: leaf_tree_def)
  have n: "key \<notin> fst ` set cs" using l ok by (rule insertIntoLeaf_not_dup)
  show ?thesis
  proof (cases "HEADER_SIZE + length (enc_cells cs) + (8 + length val) \<le> PAGE_SIZE")
    case True
    have s: "strict_keys (leaf_insert key val cs)"
      using st n k by (rule strict_keys_leaf_insert)
    have "leaf_tree t' (leaf_insert key val cs)"
      unfolding leaf_tree_def
      using insertIntoLeaf_fit_state[OF l pm True ok] s r0 pm mx by auto
    then show ?thesis using True by simp
  next
    case False
    define n1 where "n1 = maxPageId (disk t) + 1"
    define p where "p = rootPageId t"
    obtain d4 where f: "fits (take mid cells)" "fits (drop mid cells)"
      and a: "peek d4 p = leaf_image (take mid cells)" "peek d4 n1 = leaf_image (drop mid cells)"
      and m: "maxPageId d4 = n1"
      and c: "createGenericRoot (t\<lparr>disk := d4\<rparr>) (fst (cells ! mid)) p n1 = (Inr (), t')"
      using insertIntoLeaf_split_state[OF l pm False ok]
      unfolding cells_def mid_def n1_def p_def by auto
    have ko: "keys_ok cells"
      unfolding cells_def using is_leaf_keys_ok[OF l] k by (rule split_cells_keys_ok)
    have sc: "strict_keys cells"
      unfolding cells_def using st n by (rule strict_keys_split_cells)
    have ml: "mid < length cells" by (simp add: mid_def cells_def)
    then have "cells ! mid \<in> set cells" by simp
    then have sk: "0 \<le> fst (cells ! mid)" "fst (cells ! mid) < 4294967296"
      using ko by (auto simp: keys_ok_def)
    have pl: "p < 4294967296" using pm mx by (simp add: p_def)
    have nl: "n1 < 4294967296" using mx by (simp add: n1_def)
    have g: "rootPageId t' = n1 + 1" "maxPageId (disk t') = n1 + 1"
      "is_internal (peek (disk t') (n1 + 1)) 0 p [(fst (cells ! mid), n1)]"
      "\<forall>j. j \<noteq> n1 + 1 \<longrightarrow> peek (disk t') j = peek d4 j"
      using createGenericRoot_written[OF pl nl sk, of "t\<lparr>disk := d4\<rparr>"] c m by auto
    have pn: "p \<noteq> n1" "p \<noteq> n1 + 1" "p \<le> n1 + 1" "p \<noteq> 0"
      using pm r0 by (simp_all add: n1_def p_def)
    have l0: "is_leaf (peek (disk t') p) 0 (take mid cells)"
      using g(4) pn a(1) is_leaf_leaf_image_id[OF f(1) keys_ok_take[OF ko]] by simp
    have l1: "is_leaf (peek (disk t') n1) 0 (drop mid cells)"
      using g(4) a(2) is_leaf_leaf_image_id[OF f(2) keys_ok_drop[OF ko]] by simp
    have b0: "list_all (\<lambda>c. fst c < fst (cells ! mid)) (take mid cells)"
      unfolding list_all_iff using strict_keys_take_nth[OF sc ml] by blast
    have b1: "list_all (\<lambda>c. fst (cells ! mid) \<le> fst c) (drop mid cells)"
      unfolding list_all_iff using strict_keys_drop_nth[OF sc ml] by blast
    have "split_at t' p (fst (cells ! mid)) n1 (take mid cells) (drop mid cells)"
      unfolding split_at_def g(1,2)
      using g(3) l0 l1 pn b0 b1 strict_keys_take[OF sc] strict_keys_drop[OF sc]
      by (simp add: n1_def)
    then show ?thesis using False by (simp add: p_def n1_def)
  qed
qed

lemma leaf_tree_insert:
  fixes key :: int and val :: "byte list"
  assumes lt: "leaf_tree t cs" and k: "0 \<le> key" "key < 4294967296"
    and ok: "insertIntoLeaf t (rootPageId t) key val = (Inr (), t')"
  shows "\<exists>cs'. tree_inv t' cs' \<and> set cs' = insert (key, val) (set cs)"
proof (cases "HEADER_SIZE + length (enc_cells cs) + (8 + length val) \<le> PAGE_SIZE")
  case True
  have "set (leaf_insert key val cs) = insert (key, val) (set cs)"
    unfolding leaf_insert_set using k by (simp add: stored_id)
  then show ?thesis
    using leaf_tree_insert_shape[OF lt k ok] True by (auto simp: tree_inv_def)
next
  case False
  define cells where "cells = split_cells key val cs"
  define mid where "mid = length cells div 2"
  have e: "set (take mid cells @ drop mid cells) = insert (key, val) (set cs)"
    by (simp add: cells_def del: set_append)
  have "split_at t' (rootPageId t) (fst (cells ! mid)) (maxPageId (disk t) + 1)
                (take mid cells) (drop mid cells)"
    using leaf_tree_insert_shape[OF lt k ok] False unfolding cells_def mid_def by simp
  then have "tree_inv t' (take mid cells @ drop mid cells)"
    unfolding tree_inv_def by blast
  then show ?thesis using e by blast
qed

lemma split_at_insert:
  fixes key :: int and val :: "byte list"
  assumes sp: "split_at t c0 sep c1 L R" and k: "0 \<le> key" "key < 4294967296"
    and ok: "insertIntoLeaf t (if key < sep then c0 else c1) key val = (Inr (), t')"
  shows "\<exists>L' R'. split_at t' c0 sep c1 L' R' \<and> set (L' @ R') \<subseteq> insert (key, val) (set (L @ R))"
proof (cases "key < sep")
  case True
  have ok': "insertIntoLeaf t c0 key val = (Inr (), t')" using ok True by simp
  obtain L' where a: "is_leaf (peek (disk t') c0) 0 L'" "strict_keys L'"
    "set L' \<subseteq> insert (key, val) (set L)" "rootPageId t' = rootPageId t"
    "maxPageId (disk t) \<le> maxPageId (disk t')"
    "\<forall>j. j \<noteq> c0 \<and> j \<noteq> 0 \<and> j \<le> maxPageId (disk t) \<longrightarrow> peek (disk t') j = peek (disk t) j"
    using insert_inner_leaf[OF _ _ _ _ _ k ok', of L] sp unfolding split_at_def by auto
  have "list_all (\<lambda>c. fst c < sep) L'"
    using a(3) sp True unfolding split_at_def list_all_iff by auto
  then have "split_at t' c0 sep c1 L' R"
    using sp a unfolding split_at_def by auto
  then show ?thesis using a(3) by auto
next
  case False
  have ok': "insertIntoLeaf t c1 key val = (Inr (), t')" using ok False by simp
  obtain R' where a: "is_leaf (peek (disk t') c1) 0 R'" "strict_keys R'"
    "set R' \<subseteq> insert (key, val) (set R)" "rootPageId t' = rootPageId t"
    "maxPageId (disk t) \<le> maxPageId (disk t')"
    "\<forall>j. j \<noteq> c1 \<and> j \<noteq> 0 \<and> j \<le> maxPageId (disk t) \<longrightarrow> peek (disk t') j = peek (disk t) j"
    using insert_inner_leaf[OF _ _ _ _ _ k ok', of R] sp unfolding split_at_def by auto
  have "list_all (\<lambda>c. sep \<le> fst c) R'"
    using a(3) sp False unfolding split_at_def list_all_iff by auto
  then have "split_at t' c0 sep c1 L R'"
    using sp a unfolding split_at_def by auto
  then show ?thesis using a(3) by auto
qed

lemma leaf_tree_findLeafPage:
  assumes "leaf_tree t cs"
  shows "fst (findLeafPage depth (disk t) (rootPageId t) key) =
           (if depth = 0 then Inl StackOverflow else Inr (rootPageId t))"
proof (cases depth)
  case 0
  then show ?thesis by simp
next
  case (Suc n)
  obtain parent where "is_leaf (peek (disk t) (rootPageId t)) parent cs"
    using assms by (auto simp: leaf_tree_def)
  then show ?thesis
    unfolding Suc using findLeafPage_leaf[OF is_leaf_reads(1), of "disk t" "rootPageId t" parent cs n key]
    by (simp del: findLeafPage.simps)
qed

lemma split_at_findLeafPage:
  assumes "split_at t c0 sep c1 L R"
  shows "fst (findLeafPage depth (disk t) (rootPageId t) key) =
           (if depth < 2 then Inl StackOverflow else Inr (if key < sep then c0 else c1))"
proof -
  have i: "is_internal (peek (disk t) (rootPageId t)) 0 c0 [(sep, c1)]"
    and l: "is_leaf (peek (disk t) c0) 0 L" "is_leaf (peek (disk t) c1) 0 R"
    using assms by (simp_all add: split_at_def)
  consider "depth = 0" | "depth = Suc 0" | n where "depth = Suc (Suc n)"
    by (metis not0_implies_Suc)
  then show ?thesis
  proof cases
    case 1
    then show ?thesis by simp
  next
    case 2
    show ?thesis
      unfolding 2 findLeafPage_internal[OF i] by simp
  next
    case 3
    show ?thesis
      unfolding 3 using findLeafPage_root[OF i l, of n key] by (simp del: findLeafPage.simps)
  qed
qed

lemma BTree_insert_lost:
  assumes "fst (findLeafPage depth (disk t) (rootPageId t) key) = Inl e"
  shows "fst (BTree_insert depth t key val) = Inl e"
  using assms by (cases "findLeafPage depth (disk t) (rootPageId t) key") (simp add: BTree_insert_def)

lemma BTree_delete_lost:
  assumes "fst (findLeafPage depth (disk t) (rootPageId t) key) = Inl e"
  shows "fst (BTree_delete depth t key) = Inl e"
  using assms by (cases "findLeafPage depth (disk t) (rootPageId t) key") (simp add: BTree_delete_def)

lemma tree_inv_insert:
  fixes key :: int and val :: "byte list"
  assumes inv: "tree_inv t cs" and k: "0 \<le> key" "key < 4294967296"
    and ok: "BTree_insert depth t key val = (Inr (), t')"
  shows "\<exists>cs'. tree_inv t' cs' \<and> set cs' \<subseteq> insert (key, val) (set cs)"
proof -
  from inv consider (leaf) "leaf_tree t cs"
    | (split) c0 sep c1 L R where "cs = L @ R" "split_at t c0 sep c1 L R"
    unfolding tree_inv_def by blast
  then show ?thesis
  proof cases
  case leaf
  note lt = leaf
  have f: "fst (findLeafPage depth (disk t) (rootPageId t) key) = Inr (rootPageId t)"
    using leaf_tree_findLeafPage[OF lt, of depth key] BTree_insert_lost[of depth t key StackOverflow val] ok
    by (auto split: if_splits)
  obtain d1 where u: "unchanged (disk t) d1"
    and e: "BTree_insert depth t key val = insertIntoLeaf (t\<lparr>disk := d1\<rparr>) (rootPageId t) key val"
    using BTree_insert_at[OF f, of val] by blast
  have "insertIntoLeaf (t\<lparr>disk := d1\<rparr>) (rootPageId (t\<lparr>disk := d1\<rparr>)) key val = (Inr (), t')"
    using e ok by simp
  from leaf_tree_insert[OF leaf_tree_unchanged[OF lt u] k this]
  obtain cs' where "tree_inv t' cs'" "set cs' = insert (key, val) (set cs)" by blast
  then show ?thesis by blast
next
  case (split c0 sep c1 L R)
  note c = split(1) and sp = split(2)
  have f: "fst (findLeafPage depth (disk t) (rootPageId t) key) = Inr (if key < sep then c0 else c1)"
    using split_at_findLeafPage[OF sp, of depth key] BTree_insert_lost[of depth t key StackOverflow val] ok
    by (auto split: if_splits)
  obtain d1 where u: "unchanged (disk t) d1"
    and e: "BTree_insert depth t key val =
              insertIntoLeaf (t\<lparr>disk := d1\<rparr>) (if key < sep then c0 else c1) key val"
    using BTree_insert_at[OF f, of val] by blast
  have "insertIntoLeaf (t\<lparr>disk := d1\<rparr>) (if key < sep then c0 else c1) key val = (Inr (), t')"
    using e ok by simp
  from split_at_insert[OF split_at_unchanged[OF sp u] k this]
  show ?thesis unfolding c tree_inv_def by blast
  qed
qed

lemma tree_inv_delete_cases:
  assumes inv: "tree_inv t cs"
    and found: "fst (findLeafPage D (disk t) (rootPageId t) key) = Inr leaf0"
  shows "\<exists>d2. unchanged (disk t) d2 \<and>
           (if key \<in> fst ` set cs
            then \<exists>t'. BTree_delete D t key = (Inr (), t') \<and>
                   tree_inv t' (filter (\<lambda>c. fst c \<noteq> key) cs)
            else BTree_delete D t key = (Inl (KeyNotFound key), t\<lparr>disk := d2\<rparr>))"
proof -
  from inv consider (leaf) "leaf_tree t cs"
    | (split) c0 sep c1 L R where "cs = L @ R" "split_at t c0 sep c1 L R"
    unfolding tree_inv_def by blast
  then show ?thesis
  proof cases
  case leaf
  note lt = leaf
  obtain parent where l: "is_leaf (peek (disk t) (rootPageId t)) parent cs"
    and r0: "rootPageId t \<noteq> 0" and pm: "rootPageId t \<le> maxPageId (disk t)"
    and mx: "maxPageId (disk t) + 2 < 4294967296" and st: "strict_keys cs"
    using lt by (auto simp: leaf_tree_def)
  have f: "fst (findLeafPage D (disk t) (rootPageId t) key) = Inr (rootPageId t)"
    using leaf_tree_findLeafPage[OF lt, of D key] found by (simp split: if_splits)
  obtain d2 np where u: "unchanged (disk t) d2"
    and n: "is_leaf np parent (filter (\<lambda>c. fst c \<noteq> key) cs)"
    and e: "BTree_delete D t key =
             (if key \<in> fst ` set cs then (Inr (), t\<lparr>disk := writePage d2 (rootPageId t) np\<rparr>)
              else (Inl (KeyNotFound key), t\<lparr>disk := d2\<rparr>))"
    using BTree_delete_at[OF f l] by blast
  have "leaf_tree (t\<lparr>disk := writePage d2 (rootPageId t) np\<rparr>) (filter (\<lambda>c. fst c \<noteq> key) cs)"
    unfolding leaf_tree_def
    using r0 pm mx n u strict_keys_filter[OF st]
    by (auto simp: maxPageId_writePage_same unchanged_maxPageId)
  then have "tree_inv (t\<lparr>disk := writePage d2 (rootPageId t) np\<rparr>) (filter (\<lambda>c. fst c \<noteq> key) cs)"
    by (simp add: tree_inv_def)
  then show ?thesis
    using u e by (intro exI[of _ d2]) (simp del: findLeafPage.simps)
next
  case (split c0 sep c1 L R)
  note c = split(1) and sp = split(2)
  note s = sp[unfolded split_at_def]
  define leaf where "leaf = (if key < sep then c0 else c1)"
  define X where "X = (if key < sep then L else R)"
  have f: "fst (findLeafPage D (disk t) (rootPageId t) key) = Inr leaf"
    using split_at_findLeafPage[OF sp, of D key] found by (simp add: leaf_def split: if_splits)
  have l: "is_leaf (peek (disk t) leaf) 0 X"
    using s by (simp add: leaf_def X_def)
  have lm: "leaf \<le> maxPageId (disk t)"
    using s by (simp add: leaf_def)
  obtain d2 np where u: "unchanged (disk t) d2"
    and n: "is_leaf np 0 (filter (\<lambda>c. fst c \<noteq> key) X)"
    and e: "BTree_delete D t key =
             (if key \<in> fst ` set X then (Inr (), t\<lparr>disk := writePage d2 leaf np\<rparr>)
              else (Inl (KeyNotFound key), t\<lparr>disk := d2\<rparr>))"
    using BTree_delete_at[OF f l] by blast
  have other: "filter (\<lambda>c. fst c \<noteq> key) (if key < sep then R else L) = (if key < sep then R else L)"
    using s unfolding list_all_iff by (auto simp: filter_id_conv)
  have bl: "\<forall>c\<in>set L. fst c < sep" and br: "\<forall>c\<in>set R. sep \<le> fst c"
    using s unfolding list_all_iff by simp_all
  have mem: "key \<in> fst ` set cs \<longleftrightarrow> key \<in> fst ` set X"
  proof (cases "key < sep")
    case True
    then have "key \<notin> fst ` set R" using br by force
    then show ?thesis using True by (auto simp: c X_def)
  next
    case False
    then have "key \<notin> fst ` set L" using bl by force
    then show ?thesis using False by (auto simp: c X_def)
  qed
  define L' where "L' = (if key < sep then filter (\<lambda>c. fst c \<noteq> key) L else L)"
  define R' where "R' = (if key < sep then R else filter (\<lambda>c. fst c \<noteq> key) R)"
  have fc: "filter (\<lambda>c. fst c \<noteq> key) cs = L' @ R'"
    using other unfolding c L'_def R'_def by (simp split: if_splits)
  have "split_at (t\<lparr>disk := writePage d2 leaf np\<rparr>) c0 sep c1 L' R'"
    unfolding split_at_def
    using s n u lm strict_keys_filter[of L] strict_keys_filter[of R]
    by (auto simp: maxPageId_writePage_same unchanged_maxPageId unchanged_peek leaf_def X_def
          L'_def R'_def list_all_iff)
  then have "tree_inv (t\<lparr>disk := writePage d2 leaf np\<rparr>) (filter (\<lambda>c. fst c \<noteq> key) cs)"
    unfolding tree_inv_def fc by blast
  then show ?thesis
    using u e mem by (intro exI[of _ d2]) (simp del: findLeafPage.simps)
  qed
qed

lemma findLeafPage_result:
  "(\<exists>e. fst (findLeafPage D d r key) = Inl e) \<or> (\<exists>leaf. fst (findLeafPage D d r key) = Inr leaf)"
  by (cases "fst (findLeafPage D d r key)") auto

lemma tree_inv_delete:
  assumes inv: "tree_inv t cs" and ok: "BTree_delete D t key = (Inr (), t')"
  shows "tree_inv t' (filter (\<lambda>c. fst c \<noteq> key) cs)"
proof -
  obtain leaf0 where f: "fst (findLeafPage D (disk t) (rootPageId t) key) = Inr leaf0"
    using findLeafPage_result[of D "disk t" "rootPageId t" key] BTree_delete_lost[of D t key] ok
    by auto
  show ?thesis
    using tree_inv_delete_cases[OF inv f] ok by (auto split: if_splits)
qed

lemma tree_inv_delete_missing:
  assumes inv: "tree_inv t cs" and no: "key \<notin> fst ` set cs"
  shows "\<exists>d2. unchanged (disk t) d2 \<and>
           BTree_delete (Suc (Suc depth)) t key = (Inl (KeyNotFound key), t\<lparr>disk := d2\<rparr>)"
proof -
  obtain leaf0 where f: "fst (findLeafPage (Suc (Suc depth)) (disk t) (rootPageId t) key) = Inr leaf0"
    using inv leaf_tree_findLeafPage[of t cs "Suc (Suc depth)" key]
      split_at_findLeafPage[of t _ _ _ _ _ "Suc (Suc depth)" key]
    unfolding tree_inv_def by (auto simp del: findLeafPage.simps)
  show ?thesis
    using tree_inv_delete_cases[OF inv f] no by (auto simp del: findLeafPage.simps)
qed


section \<open>Trees reachable from the empty tree\<close>

text \<open>
  An empty tree is a tree whose root is an allocated page other than page 0 and holds a
  leaf without cells; \<open>new BTree\<close> on a freshly allocated page builds one.  Page numbers
  are written as unsigned 32-bit numbers, so two more pages must be within that range
  for the root to split.
\<close>

definition empty_tree :: "BTree \<Rightarrow> bool" where
  "empty_tree t \<longleftrightarrow>
     rootPageId t \<noteq> 0 \<and> rootPageId t \<le> maxPageId (disk t) \<and>
     maxPageId (disk t) + 2 < 4294967296 \<and>
     (\<exists>parent. is_leaf (peek (disk t) (rootPageId t)) parent [])"

inductive reachable :: "BTree \<Rightarrow> bool" where
  reachable_empty: "empty_tree t \<Longrightarrow> reachable t"
| reachable_insert:
    "reachable t \<Longrightarrow> 0 \<le> key \<Longrightarrow> key < 4294967296 \<Longrightarrow>
     BTree_insert depth t key val = (Inr (), t') \<Longrightarrow> reachable t'"
| reachable_delete:
    "reachable t \<Longrightarrow> BTree_delete depth t key = (Inr (), t') \<Longrightarrow> reachable t'"

definition tree0 :: BTree where
  "tree0 = snd (new_BTree (snd (allocatePage fresh_disk)) (fst (allocatePage fresh_disk)))"

lemma maxPageId_poke [simp]: "maxPageId (poke d i p) = maxPageId d"
  by (simp add: poke_def split: option.splits)

lemma in_tx_poke [simp]: "in_tx (poke d i p) = in_tx d"
  by (auto simp: poke_def in_tx_def split: option.splits)

lemma leaf_image_Nil: "leaf_image [] = hdr NODE_LEAF 0 0 @ replicate (PAGE_SIZE - 7) 0"
  by (simp add: leaf_image_def)

lemma take4_zero_page: "4 \<le> length zero_page \<and> take 4 zero_page = [0, 0, 0, 0]"
  by (simp add: zero_page_def PAGE_SIZE_def eval_nat_numeral)

lemma new_BTree_zero_page:
  assumes "peek d r = zero_page"
  shows "\<exists>d1. unchanged d d1 \<and>
           new_BTree d r = (Inr (), \<lparr>disk = writePage (poke d1 r (leaf_image [])) r (leaf_image []),
                                     rootPageId = r\<rparr>)"
proof -
  obtain d1 where rp: "readPage d r = (peek d r, d1)" and u: "unchanged d d1"
    by (rule readPage_cases)
  have "ebind (setUint8 zero_page OFF_TYPE (int NODE_LEAF)) (\<lambda>p1.
          ebind (setUint16 p1 OFF_NUM_CELLS (int 0)) Inr) = Inr (leaf_image [])"
    unfolding leaf_image_Nil by (rule header_written)
  then obtain p1 where a: "setUint8 zero_page OFF_TYPE (int NODE_LEAF) = Inr p1"
    and b: "setUint16 p1 OFF_NUM_CELLS 0 = Inr (leaf_image [])"
    by (cases "setUint8 zero_page OFF_TYPE (int NODE_LEAF)") (auto simp: ebind_Inr)
  have c: "setUint32 (leaf_image []) OFF_PARENT 0 = Inr (leaf_image [])"
    unfolding leaf_image_Nil using hdr_set_parent[of NODE_LEAF 0 0 _ 0] by simp
  have "new_BTree d r = (Inr (), \<lparr>disk = writePage (poke d1 r (leaf_image [])) r (leaf_image []),
                                     rootPageId = r\<rparr>)"
    unfolding new_BTree_def rp assms using take4_zero_page by (simp add: a b c)
  then show ?thesis using u by blast
qed

lemma new_BTree_empty:
  assumes "peek d r = zero_page" "r \<noteq> 0" "r \<le> maxPageId d" "maxPageId d + 2 < 4294967296"
  shows "\<exists>t. new_BTree d r = (Inr (), t) \<and> empty_tree t \<and> rootPageId t = r \<and>
           maxPageId (disk t) = maxPageId d"
proof -
  obtain d1 where u: "unchanged d d1"
    and e: "new_BTree d r = (Inr (), \<lparr>disk = writePage (poke d1 r (leaf_image [])) r (leaf_image []),
                                     rootPageId = r\<rparr>)"
    using new_BTree_zero_page[OF assms(1)] by blast
  have m: "maxPageId (writePage (poke d1 r (leaf_image [])) r (leaf_image [])) = maxPageId d"
    using assms(3) u by (simp add: maxPageId_writePage_same unchanged_maxPageId)
  have "fits []" by (simp add: fits_def)
  then have "is_leaf (leaf_image []) 0 []"
    using is_leaf_leaf_image_id[of "[]"] by simp
  then show ?thesis
    unfolding e empty_tree_def using assms(2,3,4) m by auto
qed

lemma peek_fresh_disk [simp]: "peek fresh_disk i = zero_page"
  by (simp add: peek_def readPage_def fresh_disk_def new_VirtualDisk_def load_def)

lemma tree0_empty: "empty_tree tree0 \<and> rootPageId tree0 = 1 \<and> maxPageId (disk tree0) = 1"
proof -
  have "\<exists>t. new_BTree (snd (allocatePage fresh_disk)) 1 = (Inr (), t) \<and> empty_tree t \<and>
          rootPageId t = 1 \<and> maxPageId (disk t) = maxPageId (snd (allocatePage fresh_disk))"
    by (rule new_BTree_empty) simp_all
  then show ?thesis
    by (auto simp: tree0_def)
qed

lemma empty_tree_inv: "empty_tree t \<Longrightarrow> tree_inv t []"
  by (simp add: empty_tree_def tree_inv_def leaf_tree_def)

lemma reachable_inv: "reachable t \<Longrightarrow> \<exists>cs. tree_inv t cs"
proof (induction rule: reachable.induct)
  case (reachable_empty t)
  then show ?case using empty_tree_inv by blast
next
  case (reachable_insert t key depth val t')
  then obtain cs where "tree_inv t cs" by blast
  from tree_inv_insert[OF this reachable_insert(2,3,4)]
  show ?case by blast
next
  case (reachable_delete t depth key t')
  then obtain cs where "tree_inv t cs" by blast
  from tree_inv_delete[OF this reachable_delete(2)]
  show ?case by blast
qed

lemma BTree_insert_fit:
  assumes f: "fst (findLeafPage depth (disk t) (rootPageId t) key) = Inr leaf"
    and l: "is_leaf (peek (disk t) leaf) parent cs" and m: "leaf \<le> maxPageId (disk t)"
    and n: "key \<notin> fst ` set cs"
    and fit: "HEADER_SIZE + length (enc_cells cs) + (8 + length val) \<le> PAGE_SIZE"
  shows "\<exists>t'. BTree_insert depth t key val = (Inr (), t') \<and>
           rootPageId t' = rootPageId t \<and> maxPageId (disk t') = maxPageId (disk t) \<and>
           is_leaf (peek (disk t') leaf) parent (leaf_insert key val cs) \<and>
           (\<forall>j. j \<noteq> leaf \<longrightarrow> peek (disk t') j = peek (disk t) j)"
proof -
  obtain d1 where u: "unchanged (disk t) d1"
    and e: "BTree_insert depth t key val = insertIntoLeaf (t\<lparr>disk := d1\<rparr>) leaf key val"
    using BTree_insert_at[OF f, of val] by blast
  define t1 where "t1 = t\<lparr>disk := d1\<rparr>"
  have l1: "is_leaf (peek (disk t1) leaf) parent cs"
    using l u by (simp add: t1_def unchanged_peek)
  have m1: "leaf \<le> maxPageId (disk t1)"
    using m u by (simp add: t1_def unchanged_maxPageId)
  obtain t' where ok: "insertIntoLeaf t1 leaf key val = (Inr (), t')"
    using insertIntoLeaf_fit[OF l1 n fit] by blast
  have "rootPageId t' = rootPageId t \<and> maxPageId (disk t') = maxPageId (disk t) \<and>
           is_leaf (peek (disk t') leaf) parent (leaf_insert key val cs) \<and>
           (\<forall>j. j \<noteq> leaf \<longrightarrow> peek (disk t') j = peek (disk t) j)"
    using insertIntoLeaf_fit_state[OF l1 m1 fit ok] u
    by (simp add: t1_def unchanged_peek unchanged_maxPageId)
  then show ?thesis using e ok by (simp add: t1_def)
qed

definition tree1 :: BTree where
  "tree1 = snd (BTree_insert 2 tree0 1 [])"

definition tree2 :: BTree where
  "tree2 = snd (BTree_insert 2 tree1 (- 1) [])"

lemma tree1_shape:
  "BTree_insert 2 tree0 1 [] = (Inr (), tree1) \<and> rootPageId tree1 = 1 \<and>
   maxPageId (disk tree1) = 1 \<and> (\<exists>parent. is_leaf (peek (disk tree1) 1) parent [(1, [])])"
proof -
  obtain parent where l: "is_leaf (peek (disk tree0) (rootPageId tree0)) parent []"
    using tree0_empty by (auto simp: empty_tree_def)
  have f: "fst (findLeafPage 2 (disk tree0) (rootPageId tree0) 1) = Inr (rootPageId tree0)"
    using findLeafPage_leaf[OF is_leaf_reads(1)[OF l], of "Suc 0" 1]
    by (simp add: eval_nat_numeral del: findLeafPage.simps)
  have "\<exists>t'. BTree_insert 2 tree0 1 [] = (Inr (), t') \<and>
           rootPageId t' = rootPageId tree0 \<and> maxPageId (disk t') = maxPageId (disk tree0) \<and>
           is_leaf (peek (disk t') (rootPageId tree0)) parent (leaf_insert 1 [] []) \<and>
           (\<forall>j. j \<noteq> rootPageId tree0 \<longrightarrow> peek (disk t') j = peek (disk tree0) j)"
    by (rule BTree_insert_fit[OF f l]) (simp_all add: tree0_empty HEADER_SIZE_def PAGE_SIZE_def)
  then show ?thesis
    using tree0_empty by (auto simp: tree1_def leaf_insert_def stored_def)
qed

lemma tree2_shape:
  "BTree_insert 2 tree1 (- 1) [] = (Inr (), tree2) \<and> rootPageId tree2 = 1 \<and>
   (\<exists>parent. is_leaf (peek (disk tree2) 1) parent [(4294967295, []), (1, [])])"
proof -
  obtain parent where l: "is_leaf (peek (disk tree1) (rootPageId tree1)) parent [(1, [])]"
    using tree1_shape by auto
  have f: "fst (findLeafPage 2 (disk tree1) (rootPageId tree1) (- 1)) = Inr (rootPageId tree1)"
    using findLeafPage_leaf[OF is_leaf_reads(1)[OF l], of "Suc 0" "- 1"]
    by (simp add: eval_nat_numeral del: findLeafPage.simps)
  have "\<exists>t'. BTree_insert 2 tree1 (- 1) [] = (Inr (), t') \<and>
           rootPageId t' = rootPageId tree1 \<and> maxPageId (disk t') = maxPageId (disk tree1) \<and>
           is_leaf (peek (disk t') (rootPageId tree1)) parent (leaf_insert (- 1) [] [(1, [])]) \<and>
           (\<forall>j. j \<noteq> rootPageId tree1 \<longrightarrow> peek (disk t') j = peek (disk tree1) j)"
    by (rule BTree_insert_fit[OF f l])
       (simp_all add: tree1_shape HEADER_SIZE_def PAGE_SIZE_def enc_cell_def)
  then show ?thesis
    using tree1_shape by (auto simp: tree2_def leaf_insert_def stored_def)
qed

text \<open>
  Trees with a split.  With payloads of 2040 bytes one cell fills half a page: the keys 5
  and \<open>2^32 - 1\<close> split the root leaf of the empty tree into the leaves 1 and 2 under the
  new root 3, and the key 3 then goes to the left leaf.
\<close>

lemma leaf_tree_insert_progress:
  fixes key :: int and val :: "byte list"
  assumes lt: "leaf_tree t cs" and k: "0 \<le> key" "key < 4294967296"
    and n: "key \<notin> fst ` set cs"
  defines "cells \<equiv> split_cells key val cs"
  defines "mid \<equiv> length cells div 2"
  assumes room: "HEADER_SIZE + length (enc_cells cs) + (8 + length val) \<le> PAGE_SIZE \<or>
                 fits (take mid cells) \<and> fits (drop mid cells)"
  shows "\<exists>t'. BTree_insert (Suc depth) t key val = (Inr (), t') \<and>
           (if HEADER_SIZE + length (enc_cells cs) + (8 + length val) \<le> PAGE_SIZE
            then leaf_tree t' (leaf_insert key val cs)
            else split_at t' (rootPageId t) (fst (cells ! mid)) (maxPageId (disk t) + 1)
                   (take mid cells) (drop mid cells))"
proof -
  have f: "fst (findLeafPage (Suc depth) (disk t) (rootPageId t) key) = Inr (rootPageId t)"
    using leaf_tree_findLeafPage[OF lt, of "Suc depth" key] by simp
  obtain d1 where u: "unchanged (disk t) d1"
    and e: "BTree_insert (Suc depth) t key val = insertIntoLeaf (t\<lparr>disk := d1\<rparr>) (rootPageId t) key val"
    using BTree_insert_at[OF f, of val] by blast
  define t1 where "t1 = t\<lparr>disk := d1\<rparr>"
  have lt1: "leaf_tree t1 cs"
    unfolding t1_def using lt u by (rule leaf_tree_unchanged)
  have r1: "rootPageId t1 = rootPageId t" "maxPageId (disk t1) = maxPageId (disk t)"
    using u by (simp_all add: t1_def unchanged_maxPageId)
  obtain parent where l: "is_leaf (peek (disk t1) (rootPageId t1)) parent cs"
    and pm: "rootPageId t1 \<le> maxPageId (disk t1)"
    and mx: "maxPageId (disk t1) + 2 < 4294967296"
    using lt1 by (auto simp: leaf_tree_def)
  have "\<exists>t'. insertIntoLeaf t1 (rootPageId t1) key val = (Inr (), t')"
  proof (cases "HEADER_SIZE + length (enc_cells cs) + (8 + length val) \<le> PAGE_SIZE")
    case True
    then show ?thesis using insertIntoLeaf_fit[OF l n True] by blast
  next
    case False
    then have fs: "fits (take mid cells)" "fits (drop mid cells)"
      using room by simp_all
    obtain d2 where e2: "insertIntoLeaf t1 (rootPageId t1) key val =
        splitLeaf (t1\<lparr>disk := d2\<rparr>) (rootPageId t1) key val"
      and u2: "unchanged (disk t1) d2"
      using insertIntoLeaf_split[OF l n False] by blast
    define t2 where "t2 = t1\<lparr>disk := d2\<rparr>"
    have l2: "is_leaf (peek (disk t2) (rootPageId t1)) parent cs"
      using l u2 by (simp add: t2_def unchanged_peek)
    have a: "rootPageId t1 \<le> maxPageId (disk t2)" "maxPageId (disk t2) + 1 < 4294967296"
      "rootPageId t1 = rootPageId t2"
      using pm mx u2 by (simp_all add: t2_def unchanged_maxPageId)
    show ?thesis
      unfolding e2 t2_def[symmetric]
      using splitLeaf_root_succeeds[OF l2 a(1,2) k a(3) fs[unfolded mid_def cells_def]] .
  qed
  then obtain t' where ok: "insertIntoLeaf t1 (rootPageId t1) key val = (Inr (), t')"
    by blast
  have sh: "if HEADER_SIZE + length (enc_cells cs) + (8 + length val) \<le> PAGE_SIZE
            then leaf_tree t' (leaf_insert key val cs)
            else split_at t' (rootPageId t) (fst (cells ! mid)) (maxPageId (disk t) + 1)
                   (take mid cells) (drop mid cells)"
    using leaf_tree_insert_shape[OF lt1 k ok] unfolding r1 cells_def mid_def .
  have "BTree_insert (Suc depth) t key val = (Inr (), t')"
    using e ok by (simp add: t1_def)
  then show ?thesis using sh by blast
qed

definition payload :: "byte list" where
  "payload = replicate 2040 0"

definition split_tree1 :: BTree where
  "split_tree1 = snd (BTree_insert 2 tree0 5 payload)"

definition split_tree2 :: BTree where
  "split_tree2 = snd (BTree_insert 2 split_tree1 4294967295 payload)"

lemma length_payload [simp]: "length payload = 2040"
  by (simp add: payload_def)

lemma leaf_tree_tree0: "leaf_tree tree0 []"
  using tree0_empty by (auto simp: empty_tree_def leaf_tree_def)

lemma split_tree1_shape:
  "BTree_insert 2 tree0 5 payload = (Inr (), split_tree1) \<and> leaf_tree split_tree1 [(5, payload)] \<and>
   rootPageId split_tree1 = 1 \<and> maxPageId (disk split_tree1) = 1"
proof -
  have "\<exists>t'. BTree_insert (Suc (Suc 0)) tree0 5 payload = (Inr (), t') \<and>
           (if HEADER_SIZE + length (enc_cells []) + (8 + length payload) \<le> PAGE_SIZE
            then leaf_tree t' (leaf_insert 5 payload [])
            else split_at t' (rootPageId tree0)
                   (fst (split_cells 5 payload [] ! (length (split_cells 5 payload []) div 2)))
                   (maxPageId (disk tree0) + 1)
                   (take (length (split_cells 5 payload []) div 2) (split_cells 5 payload []))
                   (drop (length (split_cells 5 payload []) div 2) (split_cells 5 payload [])))"
    by (rule leaf_tree_insert_progress[OF leaf_tree_tree0])
       (simp_all add: HEADER_SIZE_def PAGE_SIZE_def)
  then obtain t' where a: "BTree_insert 2 tree0 5 payload = (Inr (), t')"
    and b: "leaf_tree t' [(5, payload)]"
    by (auto simp: HEADER_SIZE_def PAGE_SIZE_def leaf_insert_def stored_def eval_nat_numeral
        simp del: findLeafPage.simps)
  have t': "t' = split_tree1" using a by (simp add: split_tree1_def)
  obtain parent where l: "is_leaf (peek (disk tree0) (rootPageId tree0)) parent []"
    using leaf_tree_tree0 by (auto simp: leaf_tree_def)
  have f: "fst (findLeafPage 2 (disk tree0) (rootPageId tree0) 5) = Inr (rootPageId tree0)"
    using leaf_tree_findLeafPage[OF leaf_tree_tree0, of 2 5] by simp
  have "\<exists>t'. BTree_insert 2 tree0 5 payload = (Inr (), t') \<and>
           rootPageId t' = rootPageId tree0 \<and> maxPageId (disk t') = maxPageId (disk tree0) \<and>
           is_leaf (peek (disk t') (rootPageId tree0)) parent (leaf_insert 5 payload []) \<and>
           (\<forall>j. j \<noteq> rootPageId tree0 \<longrightarrow> peek (disk t') j = peek (disk tree0) j)"
    by (rule BTree_insert_fit[OF f l]) (simp_all add: tree0_empty HEADER_SIZE_def PAGE_SIZE_def)
  then have "rootPageId split_tree1 = 1 \<and> maxPageId (disk split_tree1) = 1"
    using a tree0_empty unfolding t' by auto
  then show ?thesis using a b unfolding t' by simp
qed

lemma split_tree2_shape:
  "BTree_insert 2 split_tree1 4294967295 payload = (Inr (), split_tree2) \<and>
   split_at split_tree2 1 4294967295 2 [(5, payload)] [(4294967295, payload)]"
proof -
  have c: "split_cells 4294967295 payload [(5, payload)] = [(5, payload), (4294967295, payload)]"
    by (simp add: split_cells_def)
  have "\<exists>t'. BTree_insert (Suc (Suc 0)) split_tree1 4294967295 payload = (Inr (), t') \<and>
           (if HEADER_SIZE + length (enc_cells [(5, payload)]) + (8 + length payload) \<le> PAGE_SIZE
            then leaf_tree t' (leaf_insert 4294967295 payload [(5, payload)])
            else split_at t' (rootPageId split_tree1)
                   (fst (split_cells 4294967295 payload [(5, payload)] !
                      (length (split_cells 4294967295 payload [(5, payload)]) div 2)))
                   (maxPageId (disk split_tree1) + 1)
                   (take (length (split_cells 4294967295 payload [(5, payload)]) div 2)
                      (split_cells 4294967295 payload [(5, payload)]))
                   (drop (length (split_cells 4294967295 payload [(5, payload)]) div 2)
                      (split_cells 4294967295 payload [(5, payload)])))"
    by (rule leaf_tree_insert_progress[of split_tree1 "[(5, payload)]"])
       (simp_all add: split_tree1_shape c fits_def PAGE_SIZE_def)
  then obtain t' where a: "BTree_insert 2 split_tree1 4294967295 payload = (Inr (), t')"
    and b: "split_at t' 1 4294967295 2 [(5, payload)] [(4294967295, payload)]"
    unfolding c using split_tree1_shape
    by (auto simp: HEADER_SIZE_def PAGE_SIZE_def eval_nat_numeral simp del: findLeafPage.simps)
  have t': "t' = split_tree2" using a by (simp add: split_tree2_def)
  show ?thesis using a b unfolding t' by simp
qed

definition split_tree_sorted :: BTree where
  "split_tree_sorted = snd (BTree_insert 2 split_tree2 3 [])"

lemma split_tree_sorted_shape:
  "BTree_insert 2 split_tree2 3 [] = (Inr (), split_tree_sorted) \<and>
   fst (getAll 2 split_tree_sorted) = Inr [(3, []), (5, payload), (4294967295, payload)]"
proof -
  note sp = split_tree2_shape[THEN conjunct2]
  note s = sp[unfolded split_at_def]
  have two: "Suc (Suc 0) = 2" by simp
  have f: "fst (findLeafPage 2 (disk split_tree2) (rootPageId split_tree2) 3) = Inr 1"
    using split_at_findLeafPage[OF sp, of 2 3] by simp
  have "\<exists>t'. BTree_insert 2 split_tree2 3 [] = (Inr (), t') \<and>
           rootPageId t' = rootPageId split_tree2 \<and>
           maxPageId (disk t') = maxPageId (disk split_tree2) \<and>
           is_leaf (peek (disk t') 1) 0 (leaf_insert 3 [] [(5, payload)]) \<and>
           (\<forall>j. j \<noteq> 1 \<longrightarrow> peek (disk t') j = peek (disk split_tree2) j)"
    by (rule BTree_insert_fit[OF f]) (use s in \<open>simp_all add: HEADER_SIZE_def PAGE_SIZE_def\<close>)
  then obtain t' where a: "BTree_insert 2 split_tree2 3 [] = (Inr (), t')"
    and b: "rootPageId t' = rootPageId split_tree2"
      "is_leaf (peek (disk t') 1) 0 (leaf_insert 3 [] [(5, payload)])"
      "\<forall>j. j \<noteq> 1 \<longrightarrow> peek (disk t') j = peek (disk split_tree2) j"
    by blast
  have t': "t' = split_tree_sorted" using a by (simp add: split_tree_sorted_def)
  have li: "leaf_insert 3 [] [(5, payload)] = [(3, []), (5, payload)]"
    by (simp add: leaf_insert_def stored_def)
  have ir: "is_internal (peek (disk t') (rootPageId t')) 0 1 [(4294967295, 2)]"
    and l1: "is_leaf (peek (disk t') 1) 0 [(3, []), (5, payload)]"
    and l2: "is_leaf (peek (disk t') 2) 0 [(4294967295, payload)]"
    using s b unfolding li by simp_all
  have "fst (getAll 2 t') = Inr ([(3, []), (5, payload)] @ [(4294967295, payload)])"
    unfolding getAll_traverse using traverse_root[OF ir l1 l2, of 0] unfolding two
    by (simp del: traverse.simps)
  then show ?thesis
    using a unfolding t' by simp
qed

text \<open>
  Claim C1.  In a tree reached from an empty tree by successful insertions of keys that
  are unsigned 32-bit numbers and by successful deletions, \<open>getAll\<close> returns the cells
  with strictly increasing keys, so no key occurs twice.
\<close>

theorem getAll_strictly_increasing:
  assumes "reachable t"
  shows "\<exists>cs. fst (getAll (Suc (Suc depth)) t) = Inr cs \<and>
           sorted_wrt (<) (map fst cs) \<and> distinct (map fst cs)"
proof -
  obtain cs where i: "tree_inv t cs"
    using reachable_inv[OF assms] by blast
  have "strict_keys cs" using i by (rule tree_inv_strict)
  then have "sorted_wrt (<) (map fst cs) \<and> distinct (map fst cs)"
    using strict_keys_distinct by (simp add: strict_keys_def)
  then show ?thesis
    using tree_inv_getAll[OF i, of depth] by blast
qed

theorem getAll_strictly_increasing_witness:
  "reachable split_tree_sorted \<and>
   fst (getAll 2 split_tree_sorted) = Inr [(3, []), (5, payload), (4294967295, payload)] \<and>
   (\<exists>cs. fst (getAll 2 split_tree_sorted) = Inr cs \<and>
      sorted_wrt (<) (map fst cs) \<and> distinct (map fst cs))"
proof -
  have two: "Suc (Suc 0) = 2" by simp
  have "reachable tree0"
    using tree0_empty by (simp add: reachable_empty)
  then have "reachable split_tree1"
    using split_tree1_shape reachable_insert[of tree0 5 2 payload split_tree1] by simp
  then have "reachable split_tree2"
    using split_tree2_shape reachable_insert[of split_tree1 4294967295 2 payload split_tree2] by simp
  then have r: "reachable split_tree_sorted"
    using split_tree_sorted_shape reachable_insert[of split_tree2 3 2 "[]" split_tree_sorted] by simp
  show ?thesis
    using getAll_strictly_increasing[OF r, of 0] r split_tree_sorted_shape unfolding two by simp
qed

theorem getAll_unsorted_counterexample:
  "empty_tree tree0 \<and>
   BTree_insert 2 tree0 1 [] = (Inr (), tree1) \<and>
   BTree_insert 2 tree1 (- 1) [] = (Inr (), tree2) \<and>
   fst (getAll 2 tree2) = Inr [(4294967295, []), (1, [])] \<and>
   \<not> sorted_wrt (<) (map fst [(4294967295 :: int, [] :: byte list), (1, [])])"
proof -
  obtain parent where l: "is_leaf (peek (disk tree2) (rootPageId tree2)) parent [(4294967295, []), (1, [])]"
    using tree2_shape by auto
  have "fst (getAll 2 tree2) = Inr [(4294967295, []), (1, [])]"
    unfolding getAll_traverse using traverse_leaf[OF l, of "Suc 0"]
    by (simp add: eval_nat_numeral del: traverse.simps)
  then show ?thesis
    using tree0_empty tree1_shape tree2_shape by simp
qed


section \<open>A leaf split below the root\<close>

text \<open>
  \<open>splitLeaf\<close> hands the separator to \<open>insertIntoInternal\<close> for the page that the header of
  the split leaf names as its parent.  No operation stores a page number in that field of
  a leaf: \<open>writeCellsToLeaf\<close> starts from a fresh page and \<open>createGenericRoot\<close> does not
  touch the two children, so the field is 0 in every leaf and the separator of a split
  below the root goes to page 0.  Page 0 is never allocated; read as an internal page, a
  page of zeros has no entries.
\<close>

lemma peek_poke_other: "j \<noteq> i \<Longrightarrow> peek (poke d i p) j = peek d j"
  by (auto simp: peek_def readPage_def poke_def update_conv' split: option.splits)

lemma peek_tree0_zero: "peek (disk tree0) 0 = zero_page"
proof -
  obtain d1 where u: "unchanged (snd (allocatePage fresh_disk)) d1"
    and e: "new_BTree (snd (allocatePage fresh_disk)) 1 =
      (Inr (), \<lparr>disk = writePage (poke d1 1 (leaf_image [])) 1 (leaf_image []), rootPageId = 1\<rparr>)"
    using new_BTree_zero_page[of "snd (allocatePage fresh_disk)" 1] by auto
  have one: "fst (allocatePage fresh_disk) = 1" by simp
  have t: "tree0 = \<lparr>disk = writePage (poke d1 1 (leaf_image [])) 1 (leaf_image []), rootPageId = 1\<rparr>"
    by (simp only: tree0_def one e snd_conv)
  have "peek (disk tree0) 0 = peek d1 0"
    unfolding t by (simp add: peek_poke_other)
  then show ?thesis
    using u by (simp add: unchanged_peek)
qed

lemma leaf_tree_insert_frame:
  fixes key :: int and val :: "byte list"
  assumes lt: "leaf_tree t cs" and ok: "BTree_insert depth t key val = (Inr (), t')"
  shows "peek (disk t') 0 = peek (disk t) 0 \<and>
         (if HEADER_SIZE + length (enc_cells cs) + (8 + length val) \<le> PAGE_SIZE
          then rootPageId t' = rootPageId t \<and> maxPageId (disk t') = maxPageId (disk t)
          else rootPageId t' = maxPageId (disk t) + 2 \<and>
               maxPageId (disk t') = maxPageId (disk t) + 2)"
proof -
  have f: "fst (findLeafPage depth (disk t) (rootPageId t) key) = Inr (rootPageId t)"
    using leaf_tree_findLeafPage[OF lt, of depth key] BTree_insert_lost[of depth t key StackOverflow val] ok
    by (auto split: if_splits)
  obtain d1 where u: "unchanged (disk t) d1"
    and e: "BTree_insert depth t key val = insertIntoLeaf (t\<lparr>disk := d1\<rparr>) (rootPageId t) key val"
    using BTree_insert_at[OF f, of val] by blast
  define t1 where "t1 = t\<lparr>disk := d1\<rparr>"
  have lt1: "leaf_tree t1 cs"
    unfolding t1_def using lt u by (rule leaf_tree_unchanged)
  have r1: "rootPageId t1 = rootPageId t" "maxPageId (disk t1) = maxPageId (disk t)"
    using u by (simp_all add: t1_def unchanged_maxPageId)
  obtain parent where l: "is_leaf (peek (disk t1) (rootPageId t1)) parent cs"
    and pm: "rootPageId t1 \<le> maxPageId (disk t1)" and r0: "rootPageId t1 \<noteq> 0"
    and mx: "maxPageId (disk t1) + 2 < 4294967296"
    using lt1 by (auto simp: leaf_tree_def)
  have ok1: "insertIntoLeaf t1 (rootPageId t1) key val = (Inr (), t')"
    using e ok by (simp add: t1_def)
  have p1: "peek (disk t1) 0 = peek (disk t) 0"
    using u by (simp add: t1_def unchanged_peek)
  show ?thesis
  proof (cases "HEADER_SIZE + length (enc_cells cs) + (8 + length val) \<le> PAGE_SIZE")
    case True
    show ?thesis
      using insertIntoLeaf_fit_state[OF l pm True ok1] r0 p1 r1 True by auto
  next
    case False
    define cells where "cells = split_cells key val cs"
    define mid where "mid = length cells div 2"
    obtain d4 where a: "\<forall>j. j \<noteq> rootPageId t1 \<and> j \<noteq> maxPageId (disk t1) + 1 \<longrightarrow> peek d4 j = peek (disk t1) j"
      and m4: "maxPageId d4 = maxPageId (disk t1) + 1"
      and c: "createGenericRoot (t1\<lparr>disk := d4\<rparr>) (fst (cells ! mid)) (rootPageId t1)
                (maxPageId (disk t1) + 1) = (Inr (), t')"
      using insertIntoLeaf_split_state[OF l pm False ok1] unfolding cells_def mid_def by auto
    have "rootPageId t1 < 4294967296" "maxPageId (disk t1) + 1 < 4294967296"
      using pm mx by simp_all
    then have g: "\<forall>j. j \<noteq> maxPageId (disk (t1\<lparr>disk := d4\<rparr>)) + 1 \<longrightarrow> peek (disk t') j = peek d4 j"
      "rootPageId t' = maxPageId (disk (t1\<lparr>disk := d4\<rparr>)) + 1"
      "maxPageId (disk t') = maxPageId (disk (t1\<lparr>disk := d4\<rparr>)) + 1"
      using createGenericRoot_stored[of "rootPageId t1" "maxPageId (disk t1) + 1" "t1\<lparr>disk := d4\<rparr>"
          "fst (cells ! mid)"] c by auto
    have "peek (disk t') 0 = peek d4 0" using g(1) by simp
    then have "peek (disk t') 0 = peek (disk t) 0" using a r0 p1 by simp
    then show ?thesis using g(2,3) m4 r1 False by simp
  qed
qed

lemma split_tree2_pages:
  "peek (disk split_tree2) 0 = zero_page \<and> rootPageId split_tree2 = 3 \<and>
   maxPageId (disk split_tree2) = 3"
proof -
  have "peek (disk split_tree1) 0 = zero_page"
    using leaf_tree_insert_frame[OF leaf_tree_tree0, of 2 5 payload split_tree1]
      split_tree1_shape peek_tree0_zero by simp
  then show ?thesis
    using leaf_tree_insert_frame[of split_tree1 "[(5, payload)]" 2 4294967295 payload split_tree2]
      split_tree1_shape split_tree2_shape
    by (simp add: HEADER_SIZE_def PAGE_SIZE_def enc_cell_def)
qed

lemma is_internal_zero_page: "is_internal zero_page 0 0 []"
proof -
  have r: "replicate 11 (0::byte) = [0,0,0,0,0,0,0,0,0,0,0]"
    by (simp add: eval_nat_numeral)
  have h: "hdr NODE_INTERNAL 0 0 @ be32 0 @ enc_items [] = [0,0,0,0,0,0,0,0,0,0,0]"
    by (simp add: hdr_def NODE_INTERNAL_def be16_def be32_def)
  have "zero_page = replicate 11 0 @ replicate (PAGE_SIZE - 11) 0"
    by (rule zero_page_split) (simp add: PAGE_SIZE_def)
  then have "zero_page = (hdr NODE_INTERNAL 0 0 @ be32 0 @ enc_items []) @ replicate (PAGE_SIZE - 11) 0"
    by (simp only: r h)
  then have "\<exists>tail. zero_page = hdr NODE_INTERNAL (length ([] :: item list)) 0 @ be32 0 @ enc_items [] @ tail"
    by (simp only: append_assoc list.size) blast
  moreover have "length zero_page = PAGE_SIZE"
    by (simp add: zero_page_def)
  ultimately show ?thesis
    unfolding is_internal_def by (simp add: items_ok_def)
qed


lemma split_below_root:
  fixes key :: int and val :: "byte list"
  assumes sp: "split_at t c0 sep c1 L R"
    and z: "is_internal (peek (disk t) 0) pp q its" "length its < 100"
    and k: "0 \<le> key" "key < sep" and n: "key \<notin> fst ` set L"
  defines "cells \<equiv> split_cells key val L"
  defines "mid \<equiv> length cells div 2"
  defines "n1 \<equiv> maxPageId (disk t) + 1"
  assumes nofit: "\<not> HEADER_SIZE + length (enc_cells L) + (8 + length val) \<le> PAGE_SIZE"
    and f: "fits (take mid cells)" "fits (drop mid cells)"
  shows "\<exists>t'. BTree_insert (Suc (Suc depth)) t key val = (Inr (), t') \<and>
           rootPageId t' = rootPageId t \<and>
           peek (disk t') (rootPageId t) = peek (disk t) (rootPageId t) \<and>
           peek (disk t') c1 = peek (disk t) c1 \<and>
           is_leaf (peek (disk t') c0) 0 (take mid cells) \<and>
           is_leaf (peek (disk t') n1) 0 (drop mid cells) \<and>
           is_internal (peek (disk t') 0) pp q
             (map stored_item (sort_key fst (its @ [(fst (cells ! mid), n1)])))"
proof -
  note s = sp[unfolded split_at_def]
  have lL: "is_leaf (peek (disk t) c0) 0 L" using s by simp
  have sep: "sep < 4294967296"
    using s by (simp add: is_internal_def items_ok_def)
  have kr: "key < 4294967296" using k sep by simp
  have fl: "fst (findLeafPage (Suc (Suc depth)) (disk t) (rootPageId t) key) = Inr c0"
    using split_at_findLeafPage[OF sp, of "Suc (Suc depth)" key] k by simp
  obtain d1 where u1: "unchanged (disk t) d1"
    and e1: "BTree_insert (Suc (Suc depth)) t key val = insertIntoLeaf (t\<lparr>disk := d1\<rparr>) c0 key val"
    using BTree_insert_at[OF fl, of val] by blast
  define t1 where "t1 = t\<lparr>disk := d1\<rparr>"
  have l1: "is_leaf (peek (disk t1) c0) 0 L"
    using lL u1 by (simp add: t1_def unchanged_peek)
  obtain d2 where e2: "insertIntoLeaf t1 c0 key val = splitLeaf (t1\<lparr>disk := d2\<rparr>) c0 key val"
    and u2: "unchanged (disk t1) d2"
    using insertIntoLeaf_split[OF l1 n nofit] by blast
  define t2 where "t2 = t1\<lparr>disk := d2\<rparr>"
  have u: "unchanged (disk t) (disk t2)"
    using u1 u2 unchanged_trans[of "disk t" d1 d2] by (simp add: t1_def t2_def)
  have r2: "rootPageId t2 = rootPageId t" by (simp add: t1_def t2_def)
  have m2: "maxPageId (disk t2) = maxPageId (disk t)"
    using u by (simp add: unchanged_maxPageId)
  have l2: "is_leaf (peek (disk t2) c0) 0 L"
    using lL u by (simp add: unchanged_peek)
  have pm: "c0 \<le> maxPageId (disk t2)" using s m2 by simp
  obtain d4 where a: "peek d4 c0 = leaf_image (take mid cells)"
    "peek d4 n1 = leaf_image (drop mid cells)"
    and b: "\<forall>j. j \<noteq> c0 \<and> j \<noteq> n1 \<longrightarrow> peek d4 j = peek (disk t2) j"
    and e3: "splitLeaf t2 c0 key val =
             (if c0 = rootPageId t2
              then createGenericRoot (t2\<lparr>disk := d4\<rparr>) (fst (cells ! mid)) c0 n1
              else (let (r, d5) = insertIntoInternal d4 0 (fst (cells ! mid)) n1
                    in (r, t2\<lparr>disk := d5\<rparr>)))"
    using splitLeaf_written[OF l2 pm f[unfolded mid_def cells_def]]
    unfolding cells_def mid_def n1_def m2 by blast
  have ne: "c0 \<noteq> rootPageId t2" "c0 \<noteq> 0" "0 \<noteq> n1" "rootPageId t \<noteq> 0" "rootPageId t \<noteq> c0"
    "rootPageId t \<noteq> n1" "c1 \<noteq> 0" "c1 \<noteq> c0" "c1 \<noteq> n1" "c0 \<noteq> n1"
    using s r2 by (simp_all add: n1_def)
  have z4: "is_internal (peek d4 0) pp q its"
    using b ne z(1) u by (simp add: unchanged_peek)
  obtain d5 np where i: "insertIntoInternal d4 0 (fst (cells ! mid)) n1 = (Inr (), writePage d5 0 np)"
    and u5: "unchanged d4 d5"
    and inp: "is_internal np pp q (map stored_item (sort_key fst (its @ [(fst (cells ! mid), n1)])))"
    using insertIntoInternal_ok[OF z4 z(2), of "fst (cells ! mid)" n1] by blast
  define t' where "t' = t2\<lparr>disk := writePage d5 0 np\<rparr>"
  have ok: "BTree_insert (Suc (Suc depth)) t key val = (Inr (), t')"
    unfolding e1 t1_def[symmetric] e2 t2_def[symmetric] e3 using ne(1) i by (simp add: t'_def)
  have pk: "peek (disk t') j = (if j = 0 then np else peek d4 j)" for j
    using u5 by (simp add: t'_def unchanged_peek)
  have ko: "keys_ok cells"
    unfolding cells_def by (rule split_cells_keys_ok) (use is_leaf_keys_ok[OF lL] k kr in simp_all)
  have "is_leaf (peek (disk t') c0) 0 (take mid cells)"
    unfolding pk a using ne is_leaf_leaf_image_id[OF f(1) keys_ok_take[OF ko]] by simp
  moreover have "is_leaf (peek (disk t') n1) 0 (drop mid cells)"
    unfolding pk a using ne is_leaf_leaf_image_id[OF f(2) keys_ok_drop[OF ko]] by simp
  moreover have "peek (disk t') (rootPageId t) = peek (disk t) (rootPageId t)"
    unfolding pk using ne b u by (simp add: unchanged_peek)
  moreover have "peek (disk t') c1 = peek (disk t) c1"
    unfolding pk using ne b u by (simp add: unchanged_peek)
  moreover have "is_internal (peek (disk t') 0) pp q
             (map stored_item (sort_key fst (its @ [(fst (cells ! mid), n1)])))"
    unfolding pk using inp by simp
  moreover have "rootPageId t' = rootPageId t"
    by (simp add: t'_def r2)
  ultimately show ?thesis using ok by blast
qed

definition split_lost :: BTree where
  "split_lost = snd (BTree_insert 2 split_tree2 7 payload)"

text \<open>
  Claim C6.  The claim has the separator of every leaf split promoted to the parent.  In
  the tree with the leaves 1 and 2 under the root 3, \<open>insert\<close> of the key 7 with a payload
  of 2040 bytes goes to leaf 1 and splits it: the cells before \<open>mid\<close> stay on page 1 and
  the cells from \<open>mid\<close> on, here the new cell, are written to the new page 4, as claimed.
  The separator 7 and the page 4 are then entered on page 0, which was blank; the root is
  not written and still has the one entry that it had.  \<open>insert\<close> returns normally, and
  neither \<open>search\<close> nor \<open>getAll\<close> finds the key 7.
\<close>

theorem splitLeaf_below_root_not_promoted:
  "empty_tree tree0 \<and>
   BTree_insert 2 tree0 5 payload = (Inr (), split_tree1) \<and>
   BTree_insert 2 split_tree1 4294967295 payload = (Inr (), split_tree2) \<and>
   fst (BTree_insert 2 split_tree2 7 payload) = Inr () \<and>
   rootPageId split_lost = rootPageId split_tree2 \<and>
   is_internal (peek (disk split_tree2) (rootPageId split_tree2)) 0 1 [(4294967295, 2)] \<and>
   peek (disk split_lost) (rootPageId split_lost) = peek (disk split_tree2) (rootPageId split_tree2) \<and>
   is_leaf (peek (disk split_lost) 1) 0 [(5, payload)] \<and>
   is_leaf (peek (disk split_lost) 4) 0 [(7, payload)] \<and>
   peek (disk split_tree2) 0 = zero_page \<and>
   is_internal (peek (disk split_lost) 0) 0 0 [(7, 4)] \<and>
   fst (search 2 split_lost 7) = Inr None \<and>
   fst (getAll 2 split_lost) = Inr [(5, payload), (4294967295, payload)]"
proof -
  note sp = split_tree2_shape[THEN conjunct2]
  note s = sp[unfolded split_at_def]
  note pg = split_tree2_pages
  have z: "is_internal (peek (disk split_tree2) 0) 0 0 []"
    using pg is_internal_zero_page by simp
  have c: "split_cells 7 payload [(5, payload)] = [(5, payload), (7, payload)]"
    by (simp add: split_cells_def)
  have two: "Suc (Suc 0) = 2" by simp
  have si: "map stored_item [(7, 4)] = [(7, 4)]"
    by (simp add: stored_item_def)
  have ft: "fits [(5, payload)]" "fits [(7, payload)]"
    by (simp_all add: fits_def enc_cell_def PAGE_SIZE_def)
  have "\<exists>t'. BTree_insert (Suc (Suc 0)) split_tree2 7 payload = (Inr (), t') \<and>
           rootPageId t' = rootPageId split_tree2 \<and>
           peek (disk t') (rootPageId split_tree2) = peek (disk split_tree2) (rootPageId split_tree2) \<and>
           peek (disk t') 2 = peek (disk split_tree2) 2 \<and>
           is_leaf (peek (disk t') 1) 0
             (take (length (split_cells 7 payload [(5, payload)]) div 2)
                (split_cells 7 payload [(5, payload)])) \<and>
           is_leaf (peek (disk t') (maxPageId (disk split_tree2) + 1)) 0
             (drop (length (split_cells 7 payload [(5, payload)]) div 2)
                (split_cells 7 payload [(5, payload)])) \<and>
           is_internal (peek (disk t') 0) 0 0
             (map stored_item (sort_key fst ([] @
                [(fst (split_cells 7 payload [(5, payload)] !
                         (length (split_cells 7 payload [(5, payload)]) div 2)),
                  maxPageId (disk split_tree2) + 1)])))"
    by (rule split_below_root[OF sp z])
       (simp_all add: c ft HEADER_SIZE_def PAGE_SIZE_def enc_cell_def)
  then obtain t' where ok: "BTree_insert 2 split_tree2 7 payload = (Inr (), t')"
    and r: "rootPageId t' = rootPageId split_tree2"
    and pr: "peek (disk t') (rootPageId split_tree2) = peek (disk split_tree2) (rootPageId split_tree2)"
    and p2: "peek (disk t') 2 = peek (disk split_tree2) 2"
    and l1: "is_leaf (peek (disk t') 1) 0 [(5, payload)]"
    and l4: "is_leaf (peek (disk t') 4) 0 [(7, payload)]"
    and i0: "is_internal (peek (disk t') 0) 0 0 [(7, 4)]"
    unfolding c two using pg si by auto
  have t': "split_lost = t'" using ok by (simp add: split_lost_def)
  have ir: "is_internal (peek (disk t') (rootPageId t')) 0 1 [(4294967295, 2)]"
    using s r pr by simp
  have l2: "is_leaf (peek (disk t') 2) 0 [(4294967295, payload)]"
    using s p2 by simp
  have se: "fst (search 2 t' 7) = Inr None"
    using search_split_root[OF ir l1 l2, of 0 7] unfolding two by simp
  have ga: "fst (getAll 2 t') = Inr [(5, payload), (4294967295, payload)]"
    unfolding getAll_traverse using traverse_root[OF ir l1 l2, of 0] unfolding two
    by (simp del: traverse.simps)
  have "empty_tree tree0"
    and "BTree_insert 2 tree0 5 payload = (Inr (), split_tree1)"
    and "BTree_insert 2 split_tree1 4294967295 payload = (Inr (), split_tree2)"
    using tree0_empty split_tree1_shape split_tree2_shape by simp_all
  then show ?thesis
    unfolding t' using ok r s pr l1 l4 pg i0 se ga by simp
qed

text \<open>
  A split whose right half is too big.  \<open>splitLeaf\<close> writes the left half over the leaf
  before it writes the right half, and \<open>writeCellsToLeaf\<close> raises \<open>RangeError\<close> when the
  cells do not fit in a page.  A leaf holds the keys 1 and 3; \<open>insert\<close> of the key 2 with
  4090 bytes raises the error after the leaf has been rewritten with the key 1 alone, and
  the key 3 is gone.
\<close>

lemma split_right_half_too_big:
  fixes key :: int and val :: "byte list"
  assumes lt: "leaf_tree t cs" and k: "0 \<le> key" "key < 4294967296"
    and n: "key \<notin> fst ` set cs"
  defines "cells \<equiv> split_cells key val cs"
  defines "mid \<equiv> length cells div 2"
  assumes nofit: "\<not> HEADER_SIZE + length (enc_cells cs) + (8 + length val) \<le> PAGE_SIZE"
    and f: "fits (take mid cells)" "\<not> fits (drop mid cells)"
  shows "\<exists>t'. BTree_insert (Suc depth) t key val = (Inl RangeError, t') \<and>
           rootPageId t' = rootPageId t \<and>
           is_leaf (peek (disk t') (rootPageId t)) 0 (take mid cells)"
proof -
  have fl: "fst (findLeafPage (Suc depth) (disk t) (rootPageId t) key) = Inr (rootPageId t)"
    using leaf_tree_findLeafPage[OF lt, of "Suc depth" key] by simp
  obtain d1 where u1: "unchanged (disk t) d1"
    and e1: "BTree_insert (Suc depth) t key val = insertIntoLeaf (t\<lparr>disk := d1\<rparr>) (rootPageId t) key val"
    using BTree_insert_at[OF fl, of val] by blast
  define t1 where "t1 = t\<lparr>disk := d1\<rparr>"
  obtain parent where l: "is_leaf (peek (disk t) (rootPageId t)) parent cs"
    using lt by (auto simp: leaf_tree_def)
  have l1: "is_leaf (peek (disk t1) (rootPageId t)) parent cs"
    using l u1 by (simp add: t1_def unchanged_peek)
  obtain d2 where e2: "insertIntoLeaf t1 (rootPageId t) key val =
                         splitLeaf (t1\<lparr>disk := d2\<rparr>) (rootPageId t) key val"
    and u2: "unchanged (disk t1) d2"
    using insertIntoLeaf_split[OF l1 n nofit] by blast
  define t2 where "t2 = t1\<lparr>disk := d2\<rparr>"
  have u: "unchanged (disk t) (disk t2)"
    using u1 u2 unchanged_trans[of "disk t" d1 d2] by (simp add: t1_def t2_def)
  have l2: "is_leaf (peek (disk t2) (rootPageId t)) parent cs"
    using l u by (simp add: unchanged_peek)
  obtain d3 where s: "splitLeaf t2 (rootPageId t) key val =
       (let cells = split_cells key val cs;
            mid = length cells div 2;
            n1 = maxPageId d3 + 1;
            d2 = snd (allocatePage d3)
        in if \<not> fits (take mid cells) then (Inl RangeError, t2\<lparr>disk := d2\<rparr>)
           else if \<not> fits (drop mid cells)
           then (Inl RangeError, t2\<lparr>disk := writePage d2 (rootPageId t) (leaf_image (take mid cells))\<rparr>)
           else
             (let d4 = writePage (writePage d2 (rootPageId t) (leaf_image (take mid cells))) n1
                         (leaf_image (drop mid cells))
              in if rootPageId t = rootPageId t2
                 then createGenericRoot (t2\<lparr>disk := d4\<rparr>) (fst (cells ! mid)) (rootPageId t) n1
                 else (let (r, d5) = insertIntoInternal d4 parent (fst (cells ! mid)) n1
                       in (r, t2\<lparr>disk := d5\<rparr>))))"
    using splitLeaf_eq[OF l2, of key val] by blast
  define t' where "t' = t2\<lparr>disk := writePage (snd (allocatePage d3)) (rootPageId t)
                                   (leaf_image (take mid cells))\<rparr>"
  have "splitLeaf t2 (rootPageId t) key val = (Inl RangeError, t')"
    unfolding s using f
    by (simp add: Let_def cells_def[symmetric] mid_def[symmetric] t'_def)
  then have ok: "BTree_insert (Suc depth) t key val = (Inl RangeError, t')"
    unfolding e1 t1_def[symmetric] e2 t2_def[symmetric] .
  have ko: "keys_ok cells"
    unfolding cells_def by (rule split_cells_keys_ok) (use is_leaf_keys_ok[OF l] k in simp_all)
  have "is_leaf (peek (disk t') (rootPageId t)) 0 (take mid cells)"
    using is_leaf_leaf_image_id[OF f(1) keys_ok_take[OF ko]] by (simp add: t'_def)
  moreover have "rootPageId t' = rootPageId t"
    by (simp add: t'_def t2_def t1_def)
  ultimately show ?thesis using ok by blast
qed

definition big :: "byte list" where
  "big = replicate 4090 0"

definition tree13 :: BTree where
  "tree13 = snd (BTree_insert 2 tree1 3 [])"

definition tree13_big :: BTree where
  "tree13_big = snd (BTree_insert 2 tree13 2 big)"

lemma tree13_shape:
  "BTree_insert 2 tree1 3 [] = (Inr (), tree13) \<and> leaf_tree tree13 [(1, []), (3, [])]"
proof -
  have lt: "leaf_tree tree1 [(1, [])]"
    using tree1_shape by (auto simp: leaf_tree_def strict_keys_def)
  have "\<exists>t'. BTree_insert (Suc (Suc 0)) tree1 3 [] = (Inr (), t') \<and>
           (if HEADER_SIZE + length (enc_cells [(1, [])]) + (8 + length ([] :: byte list)) \<le> PAGE_SIZE
            then leaf_tree t' (leaf_insert 3 [] [(1, [])])
            else split_at t' (rootPageId tree1)
                   (fst (split_cells 3 [] [(1, [])] ! (length (split_cells 3 [] [(1, [])]) div 2)))
                   (maxPageId (disk tree1) + 1)
                   (take (length (split_cells 3 [] [(1, [])]) div 2) (split_cells 3 [] [(1, [])]))
                   (drop (length (split_cells 3 [] [(1, [])]) div 2) (split_cells 3 [] [(1, [])])))"
    by (rule leaf_tree_insert_progress[OF lt])
       (simp_all add: HEADER_SIZE_def PAGE_SIZE_def enc_cell_def)
  then show ?thesis
    by (auto simp: tree13_def HEADER_SIZE_def PAGE_SIZE_def enc_cell_def leaf_insert_def stored_def
        numeral_2_eq_2)
qed

lemma splitLeaf_half_written:
  "fst (getAll 2 tree13) = Inr [(1, []), (3, [])] \<and>
   fst (BTree_insert 2 tree13 2 big) = Inl RangeError \<and>
   fst (getAll 2 tree13_big) = Inr [(1, [])] \<and>
   fst (search 2 tree13_big 3) = Inr None"
proof -
  have two: "Suc (Suc 0) = 2" by simp
  note lt = tree13_shape[THEN conjunct2]
  have c: "split_cells 2 big [(1, []), (3, [])] = [(1, []), (2, big), (3, [])]"
    by (simp add: split_cells_def)
  have lb: "length big = 4090" by (simp add: big_def)
  have ft: "fits [(1, [])]" "\<not> fits [(2, big), (3, [])]"
    by (simp_all add: fits_def enc_cell_def PAGE_SIZE_def lb)
  have g: "fst (getAll 2 tree13) = Inr [(1, []), (3, [])]"
    using tree_inv_getAll[of tree13 "[(1, []), (3, [])]" 0] lt unfolding two
    by (simp add: tree_inv_def)
  have "\<exists>t'. BTree_insert (Suc (Suc 0)) tree13 2 big = (Inl RangeError, t') \<and>
           rootPageId t' = rootPageId tree13 \<and>
           is_leaf (peek (disk t') (rootPageId tree13)) 0
             (take (length (split_cells 2 big [(1, []), (3, [])]) div 2)
                (split_cells 2 big [(1, []), (3, [])]))"
    by (rule split_right_half_too_big[OF lt])
       (simp_all add: c ft lb HEADER_SIZE_def PAGE_SIZE_def enc_cell_def)
  then obtain t' where ok: "BTree_insert 2 tree13 2 big = (Inl RangeError, t')"
    and r: "rootPageId t' = rootPageId tree13"
    and l: "is_leaf (peek (disk t') (rootPageId t')) 0 [(1, [])]"
    unfolding c two by auto
  have t': "tree13_big = t'" using ok by (simp add: tree13_big_def)
  have "fst (getAll 2 t') = Inr [(1, [])]"
    unfolding getAll_traverse using traverse_leaf[OF l, of "Suc 0"] unfolding two
    by (simp del: traverse.simps)
  moreover have "fst (search 2 t' 3) = Inr None"
    using search_leaf_root[OF l, of "Suc 0" 3] unfolding two by simp
  ultimately show ?thesis
    unfolding t' using g ok by simp
qed


section \<open>Deleting a key\<close>

definition split_tree3 :: BTree where
  "split_tree3 = snd (BTree_insert 2 split_tree2 (- 1) [])"

definition split_tree4 :: BTree where
  "split_tree4 = snd (BTree_delete 2 split_tree3 4294967295)"

lemma split_tree3_shape:
  "BTree_insert 2 split_tree2 (- 1) [] = (Inr (), split_tree3) \<and>
   rootPageId split_tree3 \<noteq> 1 \<and> rootPageId split_tree3 \<noteq> 2 \<and>
   is_internal (peek (disk split_tree3) (rootPageId split_tree3)) 0 1 [(4294967295, 2)] \<and>
   is_leaf (peek (disk split_tree3) 1) 0 [(4294967295, []), (5, payload)] \<and>
   is_leaf (peek (disk split_tree3) 2) 0 [(4294967295, payload)]"
proof -
  note sp = split_tree2_shape[THEN conjunct2]
  note s = sp[unfolded split_at_def]
  have f: "fst (findLeafPage 2 (disk split_tree2) (rootPageId split_tree2) (- 1)) = Inr 1"
    using split_at_findLeafPage[OF sp, of 2 "- 1"] by simp
  have "\<exists>t'. BTree_insert 2 split_tree2 (- 1) [] = (Inr (), t') \<and>
           rootPageId t' = rootPageId split_tree2 \<and>
           maxPageId (disk t') = maxPageId (disk split_tree2) \<and>
           is_leaf (peek (disk t') 1) 0 (leaf_insert (- 1) [] [(5, payload)]) \<and>
           (\<forall>j. j \<noteq> 1 \<longrightarrow> peek (disk t') j = peek (disk split_tree2) j)"
    by (rule BTree_insert_fit[OF f]) (use s in \<open>simp_all add: HEADER_SIZE_def PAGE_SIZE_def\<close>)
  then obtain t' where a: "BTree_insert 2 split_tree2 (- 1) [] = (Inr (), t')"
    and b: "rootPageId t' = rootPageId split_tree2"
      "is_leaf (peek (disk t') 1) 0 (leaf_insert (- 1) [] [(5, payload)])"
      "\<forall>j. j \<noteq> 1 \<longrightarrow> peek (disk t') j = peek (disk split_tree2) j"
    by blast
  have t': "t' = split_tree3" using a by (simp add: split_tree3_def)
  have li: "leaf_insert (- 1) [] [(5, payload)] = [(4294967295, []), (5, payload)]"
    by (simp add: leaf_insert_def stored_def)
  show ?thesis
    using a b s unfolding t' li by simp
qed

lemma split_tree4_shape:
  "BTree_delete 2 split_tree3 4294967295 = (Inr (), split_tree4) \<and>
   fst (getAll 2 split_tree4) = Inr [(4294967295, []), (5, payload)]"
proof -
  note s = split_tree3_shape
  have i: "is_internal (peek (disk split_tree3) (rootPageId split_tree3)) 0 1 [(4294967295, 2)]"
    and l0: "is_leaf (peek (disk split_tree3) 1) 0 [(4294967295, []), (5, payload)]"
    and l1: "is_leaf (peek (disk split_tree3) 2) 0 [(4294967295, payload)]"
    and rn: "rootPageId split_tree3 \<noteq> 2"
    using s by simp_all
  have f: "fst (findLeafPage 2 (disk split_tree3) (rootPageId split_tree3) 4294967295) = Inr 2"
    using findLeafPage_root[OF i l0 l1, of 0 4294967295]
    by (simp add: eval_nat_numeral del: findLeafPage.simps)
  obtain d2 np where u: "unchanged (disk split_tree3) d2"
    and n: "is_leaf np 0 (filter (\<lambda>c. fst c \<noteq> 4294967295) [(4294967295, payload)])"
    and e: "BTree_delete 2 split_tree3 4294967295 =
             (if 4294967295 \<in> fst ` set [(4294967295 :: int, payload)]
              then (Inr (), split_tree3\<lparr>disk := writePage d2 2 np\<rparr>)
              else (Inl (KeyNotFound 4294967295), split_tree3\<lparr>disk := d2\<rparr>))"
    using BTree_delete_at[OF f l1] by blast
  have e': "BTree_delete 2 split_tree3 4294967295 = (Inr (), split_tree3\<lparr>disk := writePage d2 2 np\<rparr>)"
    using e by simp
  then have t4: "split_tree4 = split_tree3\<lparr>disk := writePage d2 2 np\<rparr>"
    by (simp add: split_tree4_def)
  have i4: "is_internal (peek (disk split_tree4) (rootPageId split_tree4)) 0 1 [(4294967295, 2)]"
    and a4: "is_leaf (peek (disk split_tree4) 1) 0 [(4294967295, []), (5, payload)]"
    and b4: "is_leaf (peek (disk split_tree4) 2) 0 []"
    using i l0 n u rn by (simp_all add: t4 unchanged_peek)
  have "fst (getAll 2 split_tree4) = Inr ([(4294967295, []), (5, payload)] @ [])"
    unfolding getAll_traverse using traverse_root[OF i4 a4 b4, of 0]
    by (simp add: eval_nat_numeral del: traverse.simps)
  then show ?thesis using e' t4 by simp
qed

text \<open>
  Claim C7.  In a tree reached from an empty tree by successful insertions of keys that
  are unsigned 32-bit numbers and by successful deletions: after a successful
  \<open>delete\<close> of a key, \<open>search\<close> for that key finds nothing and \<open>getAll\<close> does not list
  it; and when \<open>search\<close> finds no cell with the key, which is when the leaf that the key
  leads to holds none, \<open>delete\<close> raises the key-not-found error and the disk is as
  before: every page reads the same and storage and transaction buffers are the same.
\<close>

theorem delete_removes_key:
  assumes "reachable t"
  shows "(BTree_delete D t key = (Inr (), t') \<longrightarrow>
            fst (search (Suc (Suc depth)) t' key) = Inr None \<and>
            (\<exists>cs. fst (getAll (Suc (Suc depth)) t') = Inr cs \<and> key \<notin> fst ` set cs)) \<and>
         (fst (search (Suc (Suc depth)) t key) = Inr None \<longrightarrow>
            (\<exists>d2. unchanged (disk t) d2 \<and>
               BTree_delete (Suc (Suc depth)) t key = (Inl (KeyNotFound key), t\<lparr>disk := d2\<rparr>)))"
proof -
  obtain cs where i: "tree_inv t cs"
    using reachable_inv[OF assms] by blast
  have a: "fst (search (Suc (Suc depth)) t' key) = Inr None \<and>
            (\<exists>cs. fst (getAll (Suc (Suc depth)) t') = Inr cs \<and> key \<notin> fst ` set cs)"
    if ok: "BTree_delete D t key = (Inr (), t')"
  proof -
    define cs' where "cs' = filter (\<lambda>c. fst c \<noteq> key) cs"
    have i': "tree_inv t' cs'"
      unfolding cs'_def using i ok by (rule tree_inv_delete)
    have n: "key \<notin> fst ` set cs'" by (auto simp: cs'_def)
    then have "map_of cs' key = None" by (simp add: map_of_eq_None_iff)
    then show ?thesis
      using tree_inv_search[OF i', of depth key] tree_inv_getAll[OF i', of depth] n by auto
  qed
  have b: "\<exists>d2. unchanged (disk t) d2 \<and>
               BTree_delete (Suc (Suc depth)) t key = (Inl (KeyNotFound key), t\<lparr>disk := d2\<rparr>)"
    if no: "fst (search (Suc (Suc depth)) t key) = Inr None"
  proof -
    have "map_of cs key = None"
      using tree_inv_search[OF i, of depth key] no by simp
    then have "key \<notin> fst ` set cs" by (simp add: map_of_eq_None_iff)
    then show ?thesis using i by (intro tree_inv_delete_missing)
  qed
  show ?thesis using a b by blast
qed

theorem delete_removes_key_witness:
  "reachable tree1 \<and> fst (BTree_delete 2 tree1 1) = Inr () \<and>
   fst (search 2 (snd (BTree_delete 2 tree1 1)) 1) = Inr None \<and>
   fst (search 2 tree1 7) = Inr None \<and>
   fst (BTree_delete 2 tree1 7) = Inl (KeyNotFound 7)"
proof -
  have "reachable tree0"
    using tree0_empty by (simp add: reachable_empty)
  then have r: "reachable tree1"
    using tree1_shape reachable_insert[of tree0 1 2 "[]" tree1] by simp
  obtain parent where l: "is_leaf (peek (disk tree1) (rootPageId tree1)) parent [(1, [])]"
    using tree1_shape by auto
  have f: "fst (findLeafPage 2 (disk tree1) (rootPageId tree1) 1) = Inr (rootPageId tree1)"
    using findLeafPage_leaf[OF is_leaf_reads(1)[OF l], of "Suc 0" 1]
    by (simp add: eval_nat_numeral del: findLeafPage.simps)
  have d: "fst (BTree_delete 2 tree1 1) = Inr ()"
    using BTree_delete_at[OF f l] by auto
  have s7: "fst (search 2 tree1 7) = Inr None"
    using search_leaf_root[OF l, of "Suc 0" 7] by (simp add: eval_nat_numeral)
  have "BTree_delete 2 tree1 1 = (Inr (), snd (BTree_delete 2 tree1 1))"
    using d by (simp add: prod_eq_iff)
  then have "fst (search 2 (snd (BTree_delete 2 tree1 1)) 1) = Inr None"
    using delete_removes_key[OF r, of 2 1 "snd (BTree_delete 2 tree1 1)" 0]
    by (simp add: eval_nat_numeral)
  moreover have "fst (BTree_delete 2 tree1 7) = Inl (KeyNotFound 7)"
    using delete_removes_key[OF r, of 2 7 tree1 0] s7
    by (auto simp: eval_nat_numeral)
  ultimately show ?thesis using r d s7 by simp
qed

theorem delete_leaves_key_counterexample:
  "empty_tree tree0 \<and>
   BTree_insert 2 tree0 5 payload = (Inr (), split_tree1) \<and>
   BTree_insert 2 split_tree1 4294967295 payload = (Inr (), split_tree2) \<and>
   BTree_insert 2 split_tree2 (- 1) [] = (Inr (), split_tree3) \<and>
   BTree_delete 2 split_tree3 4294967295 = (Inr (), split_tree4) \<and>
   fst (getAll 2 split_tree4) = Inr [(4294967295, []), (5, payload)]"
  using tree0_empty split_tree1_shape split_tree2_shape split_tree3_shape split_tree4_shape
  by simp


section \<open>Tables\<close>

text \<open>
  A table is a name, a schema and a B-tree.  The values of an \<open>INSERT\<close> are numbers and
  strings; numbers are integers in this model (\<open>validateType\<close> rejects every other number
  in both column types).  Whether a string reads as an integer is decided by the
  platform's \<open>parseInt\<close> and \<open>Number\<close> and is the parameter \<open>isint\<close>.  A column without a
  supplied value holds \<open>null\<close>, here \<open>None\<close>; the literal marker is the string \<open>NULL\<close>.

  A JavaScript number is an IEEE-754 double, and the integers of the model stand for the
  doubles with an integer value.  A sum is the exact sum rounded to the nearest double,
  ties to the even significand: \<open>ulp n\<close> is the distance between neighbouring doubles at
  the magnitude \<open>n\<close>, 1 below \<open>2^53\<close> and doubling with every further bit.  The exponent
  range is not modelled; adding 1 to a finite double does not leave it.
\<close>

function ulp :: "nat \<Rightarrow> nat" where
  "ulp n = (if n < 9007199254740992 then 1 else 2 * ulp (n div 2))"
  by pat_completeness auto

termination ulp
  by (relation "measure id") auto

declare ulp.simps [simp del]

definition round_double :: "nat \<Rightarrow> nat" where
  "round_double n =
     (let u = ulp n; q = n div u; r = n mod u
      in if 2 * r < u \<or> (2 * r = u \<and> even q) then q * u else (q + 1) * u)"

definition to_double :: "int \<Rightarrow> int" where
  "to_double x =
     (if x < 0 then - int (round_double (nat (- x))) else int (round_double (nat x)))"

definition number_add :: "int \<Rightarrow> int \<Rightarrow> int" where
  "number_add a b = to_double (a + b)"

record Table =
  tbl_name :: string
  schema :: TableSchema
  btree :: BTree

definition NULL_marker :: jsstring where
  "NULL_marker = [78, 85, 76, 76]"

definition validateType :: "(jsstring \<Rightarrow> bool) \<Rightarrow> jsval \<Rightarrow> DataType \<Rightarrow> bool" where
  "validateType isint v ty =
     (case ty of
        INTEGER \<Rightarrow> (case v of JNum n \<Rightarrow> True | JStr s \<Rightarrow> isint s)
      | TEXT \<Rightarrow> (case v of JNum n \<Rightarrow> False | JStr s \<Rightarrow> True))"

fun findIndex :: "('a \<Rightarrow> bool) \<Rightarrow> 'a list \<Rightarrow> nat option" where
  "findIndex P [] = None"
| "findIndex P (x # xs) = (if P x then Some 0 else map_option Suc (findIndex P xs))"

fun place_values ::
  "ColumnDefinition list \<Rightarrow> (string \<times> jsval) list \<Rightarrow> jsval option list
     \<Rightarrow> error + jsval option list" where
  "place_values cols [] rowValues = Inr rowValues"
| "place_values cols ((colName, v) # rest) rowValues =
     (case findIndex (\<lambda>c. col_name c = colName) cols of
        None \<Rightarrow> Inl (ColumnNotFound colName)
      | Some schemaIdx \<Rightarrow> place_values cols rest (rowValues[schemaIdx := Some v]))"

definition rowValues_of ::
  "ColumnDefinition list \<Rightarrow> jsval list \<Rightarrow> string list option \<Rightarrow> error + jsval option list" where
  "rowValues_of cols vals names =
     (case names of
        Some ns \<Rightarrow>
          if length ns \<noteq> length vals then Inl ColumnCountMismatch
          else place_values cols (zip ns vals) (replicate (length cols) None)
      | None \<Rightarrow>
          if length vals \<noteq> length cols then Inl ColumnCountMismatch
          else Inr (map Some vals))"

text \<open>
  \<open>lastSeq\<close> is \<open>this.schema.seq || this.btree.getMaxKey()\<close>: the stored counter when it is
  set and not zero, the largest key of the tree otherwise.
\<close>

definition lastSeq :: "nat \<Rightarrow> int option \<Rightarrow> BTree \<Rightarrow> (error + int) \<times> BTree" where
  "lastSeq depth sq bt =
     (if sq \<noteq> None \<and> sq \<noteq> Some 0 then (Inr (the sq), bt)
      else (case getMaxKey depth bt of
              (Inl e, bt1) \<Rightarrow> (Inl e, bt1)
            | (Inr m, bt1) \<Rightarrow> (Inr (int m), bt1)))"

definition pk_value ::
  "nat \<Rightarrow> int option \<Rightarrow> jsval option \<Rightarrow> BTree \<Rightarrow> (error + jsval option \<times> int option) \<times> BTree" where
  "pk_value depth sq val bt =
     (if val = None \<or> val = Some (JStr NULL_marker) then
        (case lastSeq depth sq bt of
           (Inl e, bt1) \<Rightarrow> (Inl e, bt1)
         | (Inr l, bt1) \<Rightarrow>
             (Inr (Some (JNum (number_add l 1)), Some (number_add l 1)), bt1))
      else
        (case val of
           Some (JNum n) \<Rightarrow> (Inr (val, Some n), bt)
         | _ \<Rightarrow> (Inl InvalidPrimaryKey, bt)))"

fun build_row ::
  "(jsstring \<Rightarrow> bool) \<Rightarrow> nat \<Rightarrow> int option \<Rightarrow> (ColumnDefinition \<times> jsval option) list
     \<Rightarrow> Row \<Rightarrow> int option \<Rightarrow> BTree \<Rightarrow> (error + Row \<times> int option) \<times> BTree" where
  "build_row isint depth sq [] row pkValue bt = (Inr (row, pkValue), bt)"
| "build_row isint depth sq ((col, val0) # rest) row pkValue bt =
     (case (if isPrimaryKey col then pk_value depth sq val0 bt
            else (Inr (val0, pkValue), bt)) of
        (Inl e, bt1) \<Rightarrow> (Inl e, bt1)
      | (Inr (val, pk1), bt1) \<Rightarrow>
          (case val of
             None \<Rightarrow> (Inl (ColumnNull (col_name col)), bt1)
           | Some v \<Rightarrow>
               if \<not> validateType isint v (col_type col)
               then (Inl (InvalidType (col_name col)), bt1)
               else build_row isint depth sq rest (row_assign row (col_name col) v) pk1 bt1))"

definition Table_insert ::
  "conv \<Rightarrow> (jsstring \<Rightarrow> bool) \<Rightarrow> nat \<Rightarrow> Table \<Rightarrow> jsval list \<Rightarrow> string list option
     \<Rightarrow> (error + unit) \<times> Table" where
  "Table_insert cv isint depth tb vals names =
     (let cols = columns (schema tb) in
      case rowValues_of cols vals names of
        Inl e \<Rightarrow> (Inl e, tb)
      | Inr rowValues \<Rightarrow>
          (case build_row isint depth (seq (schema tb)) (zip cols rowValues) Map.empty None (btree tb) of
             (Inl e, bt1) \<Rightarrow> (Inl e, tb\<lparr>btree := bt1\<rparr>)
           | (Inr (row, pkValue), bt1) \<Rightarrow>
               (case pkValue of
                  None \<Rightarrow> (Inl NoPrimaryKey, tb\<lparr>btree := bt1\<rparr>)
                | Some pk \<Rightarrow>
                    (case serializeRow cv cols row of
                       Inl e \<Rightarrow> (Inl e, tb\<lparr>btree := bt1\<rparr>)
                     | Inr data \<Rightarrow>
                         (case BTree_insert depth bt1 pk data of
                            (Inl e, bt2) \<Rightarrow> (Inl e, tb\<lparr>btree := bt2\<rparr>)
                          | (Inr u, bt2) \<Rightarrow>
                              (Inr (),
                               tb\<lparr>btree := bt2,
                                  schema :=
                                    (if pk > (case seq (schema tb) of None \<Rightarrow> 0 | Some s \<Rightarrow> s)
                                     then (schema tb)\<lparr>seq := Some pk\<rparr>
                                     else schema tb)\<rparr>))))))"


lemma ulp_small: "n < 9007199254740992 \<Longrightarrow> ulp n = 1"
  by (subst ulp.simps) simp

lemma round_double_small: "n < 9007199254740992 \<Longrightarrow> round_double n = n"
  by (simp add: round_double_def ulp_small)

lemma to_double_small: "\<bar>x\<bar> < 9007199254740992 \<Longrightarrow> to_double x = x"
  by (auto simp: to_double_def round_double_small)

lemma number_add_exact: "\<bar>a + b\<bar> < 9007199254740992 \<Longrightarrow> number_add a b = a + b"
  by (simp add: number_add_def to_double_small)

lemma number_add_rounds: "number_add 9007199254740992 1 = 9007199254740992"
proof -
  have "ulp 9007199254740993 = 2 * ulp 4503599627370496"
    by (subst ulp.simps) simp
  then have u: "ulp 9007199254740993 = 2"
    by (simp add: ulp_small)
  show ?thesis
    by (simp add: number_add_def to_double_def round_double_def u Let_def)
qed


lemma getMaxKey_unchanged:
  "rootPageId (snd (getMaxKey depth bt)) = rootPageId bt \<and>
   unchanged (disk bt) (disk (snd (getMaxKey depth bt)))"
  using findMaxInPage_unchanged[of "disk bt" depth "rootPageId bt"]
  by (auto simp: getMaxKey_def split: prod.splits)

lemma lastSeq_unchanged:
  "rootPageId (snd (lastSeq depth sq bt)) = rootPageId bt \<and>
   unchanged (disk bt) (disk (snd (lastSeq depth sq bt)))"
  using getMaxKey_unchanged[of depth bt]
  by (auto simp: lastSeq_def split: prod.splits sum.splits)

lemma pk_value_unchanged:
  "rootPageId (snd (pk_value depth sq val bt)) = rootPageId bt \<and>
   unchanged (disk bt) (disk (snd (pk_value depth sq val bt)))"
  using lastSeq_unchanged[of depth sq bt]
  by (auto simp: pk_value_def split: prod.splits sum.splits option.splits jsval.splits)

lemma build_row_unchanged:
  "rootPageId (snd (build_row isint depth sq xs row pk bt)) = rootPageId bt \<and>
   unchanged (disk bt) (disk (snd (build_row isint depth sq xs row pk bt)))"
proof (induction xs arbitrary: row pk bt)
  case Nil
  then show ?case by simp
next
  case (Cons x xs)
  obtain col val0 where x: "x = (col, val0)" by (cases x)
  define st where "st = (if isPrimaryKey col then pk_value depth sq val0 bt
            else (Inr (val0, pk), bt))"
  have a: "rootPageId (snd st) = rootPageId bt \<and> unchanged (disk bt) (disk (snd st))"
    using pk_value_unchanged[of depth sq val0 bt] by (simp add: st_def)
  show ?case
  proof (cases st)
    case (Pair r bt1)
    have b: "rootPageId bt1 = rootPageId bt" "unchanged (disk bt) (disk bt1)"
      using a Pair by simp_all
    have ih: "rootPageId (snd (build_row isint depth sq xs row' pk' bt1)) = rootPageId bt \<and>
       unchanged (disk bt) (disk (snd (build_row isint depth sq xs row' pk' bt1)))" for row' pk'
      using Cons.IH[of row' pk' bt1] b unchanged_trans by auto
    show ?thesis
      unfolding x build_row.simps st_def[symmetric] Pair
      using b ih by (auto split: sum.splits option.splits prod.splits)
  qed
qed

lemma search_present_duplicate:
  assumes f: "fst (findLeafPage depth (disk t) (rootPageId t) k) = Inr leaf"
    and l: "is_leaf (peek (disk t) leaf) parent cs"
    and s: "fst (search depth t k) = Inr (Some v)"
  shows "k \<in> fst ` set cs"
proof -
  define d1 where "d1 = snd (findLeafPage depth (disk t) (rootPageId t) k)"
  have f': "findLeafPage depth (disk t) (rootPageId t) k = (Inr leaf, d1)"
    using f by (simp add: d1_def prod_eq_iff)
  have u: "unchanged (disk t) d1"
    unfolding d1_def by (rule findLeafPage_unchanged)
  have "is_leaf (peek d1 leaf) parent cs"
    using l u by (simp add: unchanged_peek)
  then have "fst (findInLeaf d1 leaf k) = Inr (map_of cs k)"
    by (rule findInLeaf_leaf)
  then have "map_of cs k = Some v"
    using s by (simp add: search_def f' split: prod.splits)
  then show ?thesis
    by (metis domI dom_map_of_conv_image_fst)
qed


text \<open>
  A table with the single column \<open>id INTEGER PRIMARY KEY\<close> over a tree whose root is a
  leaf: the row built from one value, its bytes, and the insert that finds room on the
  leaf.
\<close>

definition single_table :: "int option \<Rightarrow> BTree \<Rightarrow> Table" where
  "single_table sq bt =
     \<lparr>tbl_name = ''t'',
      schema = \<lparr>ts_name = ''t'', columns = [intcol ''id'' True], pkColumn = ''id'', seq = sq\<rparr>,
      btree = bt\<rparr>"

definition id_row :: "int \<Rightarrow> byte list" where
  "id_row k = be16 4 @ be32 (nat (k mod 4294967296))"

lemma single_values:
  "rowValues_of [intcol ''id'' True] [v] None = Inr [Some v]"
  by (simp add: rowValues_of_def)

lemma single_bytes:
  "serializeRow conv0 [intcol ''id'' True] [''id'' \<mapsto> JNum k] = Inr (id_row k)"
  by (simp add: serializeRow_def column_bytes_def intcol_def id_row_def be16_def Let_def)


lemma single_null:
  "s \<noteq> 0 \<Longrightarrow>
   build_row isint depth (Some s) (zip [intcol ''id'' True] [Some (JStr NULL_marker)])
       Map.empty None bt =
     (Inr ([''id'' \<mapsto> JNum (number_add s 1)], Some (number_add s 1)), bt)"
  by (simp add: intcol_def pk_value_def lastSeq_def validateType_def)

lemma Table_insert_single:
  assumes l: "is_leaf (peek (disk bt) (rootPageId bt)) parent cs"
    and m: "rootPageId bt \<le> maxPageId (disk bt)"
    and b: "build_row isint 2 sq (zip [intcol ''id'' True] [Some v]) Map.empty None bt =
              (Inr ([''id'' \<mapsto> JNum k], Some k), bt)"
    and n: "k \<notin> fst ` set cs"
    and fit: "HEADER_SIZE + length (enc_cells cs) + 14 \<le> PAGE_SIZE"
  shows "\<exists>bt'. Table_insert conv0 isint 2 (single_table sq bt) [v] None =
             (Inr (), single_table
                (if k > (case sq of None \<Rightarrow> 0 | Some s \<Rightarrow> s) then Some k else sq) bt') \<and>
           rootPageId bt' = rootPageId bt \<and> maxPageId (disk bt') = maxPageId (disk bt) \<and>
           is_leaf (peek (disk bt') (rootPageId bt)) parent (leaf_insert k (id_row k) cs) \<and>
           fst (getAll 2 bt') = Inr (leaf_insert k (id_row k) cs)"
proof -
  have f: "fst (findLeafPage 2 (disk bt) (rootPageId bt) k) = Inr (rootPageId bt)"
    using findLeafPage_leaf[OF is_leaf_reads(1)[OF l], of "Suc 0" k]
    by (simp add: eval_nat_numeral del: findLeafPage.simps)
  have len: "8 + length (id_row k) = 14"
    by (simp add: id_row_def be16_def be32_def)
  obtain t' where i: "BTree_insert 2 bt k (id_row k) = (Inr (), t')"
    and r: "rootPageId t' = rootPageId bt" and mx: "maxPageId (disk t') = maxPageId (disk bt)"
    and l': "is_leaf (peek (disk t') (rootPageId bt)) parent (leaf_insert k (id_row k) cs)"
    using BTree_insert_fit[OF f l m n, of "id_row k"] fit unfolding len by auto
  have g: "fst (getAll 2 t') = Inr (leaf_insert k (id_row k) cs)"
    unfolding getAll_traverse r using traverse_leaf[OF l', of "Suc 0"]
    by (simp add: eval_nat_numeral del: traverse.simps)
  have "Table_insert conv0 isint 2 (single_table sq bt) [v] None =
      (Inr (), single_table (if k > (case sq of None \<Rightarrow> 0 | Some s \<Rightarrow> s) then Some k else sq) t')"
    using b i by (simp add: Table_insert_def single_table_def single_values single_bytes)
  then show ?thesis using g r mx l' by blast
qed


definition table1 :: Table where
  "table1 = \<lparr>tbl_name = ''t'',
             schema = \<lparr>ts_name = ''t'', columns = [intcol ''id'' True], pkColumn = ''id'',
                        seq = Some 1\<rparr>,
             btree = tree1\<rparr>"









section \<open>The key that an insert assigns\<close>

lemma place_values_length:
  "place_values cols xs rv = Inr rvs \<Longrightarrow> length rvs = length rv"
proof (induction xs arbitrary: rv)
  case Nil
  then show ?case by simp
next
  case (Cons x xs)
  obtain n v where x: "x = (n, v)" by (cases x)
  show ?case
    using Cons.prems Cons.IH unfolding x
    by (auto split: option.splits)
qed

lemma rowValues_of_length:
  "rowValues_of cols vals names = Inr rvs \<Longrightarrow> length rvs = length cols"
  by (auto simp: rowValues_of_def split: option.splits if_splits dest: place_values_length)

lemma build_row_append:
  "build_row isint depth sq (xs @ ys) row pk bt =
     (case build_row isint depth sq xs row pk bt of
        (Inl e, bt1) \<Rightarrow> (Inl e, bt1)
      | (Inr (row1, pk1), bt1) \<Rightarrow> build_row isint depth sq ys row1 pk1 bt1)"
proof (induction xs arbitrary: row pk bt)
  case Nil
  then show ?case by simp
next
  case (Cons x xs)
  obtain col val0 where x: "x = (col, val0)" by (cases x)
  obtain r bt1 where st: "(if isPrimaryKey col then pk_value depth sq val0 bt
            else (Inr (val0, pk), bt)) = (r, bt1)"
    by (cases "if isPrimaryKey col then pk_value depth sq val0 bt else (Inr (val0, pk), bt)")
  show ?case
  proof (cases r)
    case (Inl e)
    then show ?thesis
      unfolding x append_Cons build_row.simps st by simp
  next
    case (Inr vp)
    obtain val pk1 where vp: "vp = (val, pk1)" by (cases vp)
    show ?thesis
    proof (cases val)
      case None
      then show ?thesis
        unfolding x append_Cons build_row.simps st Inr vp by simp
    next
      case (Some v)
      show ?thesis
        unfolding x append_Cons build_row.simps st Inr vp Some
        by (simp add: Cons.IH del: fun_upd_apply)
    qed
  qed
qed

lemma build_row_plain:
  assumes "list_all (\<lambda>x. \<not> isPrimaryKey (fst x)) xs"
    and "build_row isint depth sq xs row pk bt = (Inr (row', pk'), bt')"
  shows "pk' = pk \<and> bt' = bt"
  using assms
proof (induction xs arbitrary: row)
  case Nil
  then show ?case by simp
next
  case (Cons x xs)
  obtain col val0 where x: "x = (col, val0)" by (cases x)
  show ?case
    using Cons.prems Cons.IH unfolding x
    by (auto split: option.splits if_splits)
qed

lemma build_row_single_pk:
  assumes a: "list_all (\<lambda>x. \<not> isPrimaryKey (fst x)) A"
    and b: "list_all (\<lambda>x. \<not> isPrimaryKey (fst x)) B"
    and p: "isPrimaryKey pkc"
    and r: "build_row isint depth sq (A @ (pkc, v) # B) row0 pk0 bt = (Inr (row, pk), bt1)"
  shows "\<exists>val. pk_value depth sq v bt = (Inr (val, pk), bt1)"
proof -
  obtain row1 pk1 bt' where r1: "build_row isint depth sq A row0 pk0 bt = (Inr (row1, pk1), bt')"
    and r2: "build_row isint depth sq ((pkc, v) # B) row1 pk1 bt' = (Inr (row, pk), bt1)"
    using r unfolding build_row_append
    by (auto split: prod.splits sum.splits)
  have e: "bt' = bt" using build_row_plain[OF a r1] by simp
  obtain val pk2 bt2 where s: "pk_value depth sq v bt = (Inr (val, pk2), bt2)"
    and r3: "\<exists>row2. build_row isint depth sq B row2 pk2 bt2 = (Inr (row, pk), bt1)"
    using r2 p unfolding e
    by (auto split: prod.splits sum.splits option.splits if_splits)
  obtain row2 where "build_row isint depth sq B row2 pk2 bt2 = (Inr (row, pk), bt1)"
    using r3 by blast
  from build_row_plain[OF b this] show ?thesis using s by auto
qed

lemma zip_single:
  assumes "length rvs = length (pre @ pkc # post)"
  shows "zip (pre @ pkc # post) rvs =
           zip pre (take (length pre) rvs) @ (pkc, rvs ! length pre) #
           zip post (drop (Suc (length pre)) rvs)"
proof -
  have "rvs = take (length pre) rvs @ rvs ! length pre # drop (Suc (length pre)) rvs"
    using assms by (simp add: id_take_nth_drop)
  then have "zip (pre @ pkc # post) rvs =
      zip (pre @ pkc # post) (take (length pre) rvs @ rvs ! length pre # drop (Suc (length pre)) rvs)"
    by simp
  also have "\<dots> = zip pre (take (length pre) rvs) @ (pkc, rvs ! length pre) #
           zip post (drop (Suc (length pre)) rvs)"
    using assms by (subst zip_append) simp_all
  finally show ?thesis .
qed

lemma list_all_zip_fst:
  "list_all P xs \<Longrightarrow> list_all (\<lambda>x. P (fst x)) (zip xs ys)"
  by (auto simp: list_all_iff dest: set_zip_leftD)

lemma be_nat_bound_gen:
  "foldl (\<lambda>a b. a * 256 + unat (b :: byte)) a bs < (a + 1) * 256 ^ length bs"
proof (induction bs arbitrary: a)
  case Nil
  then show ?case by simp
next
  case (Cons b bs)
  have "unat b < 256" using unsigned_less[of b] by simp
  then have "a * 256 + unat b + 1 \<le> (a + 1) * 256" by simp
  then have "(a * 256 + unat b + 1) * 256 ^ length bs \<le> (a + 1) * 256 * 256 ^ length bs"
    by (rule mult_le_mono1)
  moreover have "(a + 1) * 256 * 256 ^ length bs = (a + 1) * 256 ^ length (b # bs)"
    by (simp add: algebra_simps)
  moreover have "foldl (\<lambda>a b. a * 256 + unat (b :: byte)) a (b # bs)
                 < (a * 256 + unat b + 1) * 256 ^ length bs"
    using Cons.IH[of "a * 256 + unat b"] by simp
  ultimately show ?case
    by (metis (no_types, lifting) less_le_trans)
qed

lemma getUint32_bound: "getUint32 page off = Inr v \<Longrightarrow> v < 4294967296"
  using be_nat_bound_gen[of 0 "slice page off (off + 4)"]
  by (auto simp: getUint32_def be_nat_def slice_def split: if_splits)

lemma findMax_leaf_bound:
  "findMax_leaf page off n maxK = Inr v \<Longrightarrow> maxK < 4294967296 \<Longrightarrow> v < 4294967296"
proof (induction n arbitrary: off maxK)
  case 0
  then show ?case by simp
next
  case (Suc n)
  then show ?case
    by (auto split: sum.splits dest: getUint32_bound)
qed

lemma findMaxInPage_bound:
  "fst (findMaxInPage depth d p) = Inr v \<Longrightarrow> v < 4294967296"
proof (induction depth arbitrary: d p)
  case 0
  then show ?case by simp
next
  case (Suc depth)
  obtain d1 where r: "readPage d p = (peek d p, d1)"
    by (rule readPage_cases)
  show ?case
    using Suc.prems Suc.IH findMax_leaf_bound[of "peek d p" HEADER_SIZE _ 0 v]
    by (auto simp: r split: sum.splits if_splits)
qed

lemma getMaxKey_bound: "fst (getMaxKey depth bt) = Inr m \<Longrightarrow> m < 4294967296"
  using findMaxInPage_bound[of depth "disk bt" "rootPageId bt" m]
  by (simp add: getMaxKey_def split: prod.splits)

lemma pk_value_result:
  assumes "pk_value depth sq v bt = (Inr (val, pk), bt1)"
  shows "\<exists>key. pk = Some key \<and> val = Some (JNum key) \<and>
           (if v = None \<or> v = Some (JStr NULL_marker)
            then (if sq \<noteq> None \<and> sq \<noteq> Some 0 then key = number_add (the sq) 1
                  else \<exists>m. fst (getMaxKey depth bt) = Inr m \<and> key = int m + 1)
            else v = Some (JNum key))"
proof (cases "v = None \<or> v = Some (JStr NULL_marker)")
  case False
  then show ?thesis
    using assms by (auto simp: pk_value_def split: option.splits jsval.splits)
next
  case True
  show ?thesis
  proof (cases "sq \<noteq> None \<and> sq \<noteq> Some 0")
    case s: True
    then show ?thesis
      using assms True by (auto simp: pk_value_def lastSeq_def)
  next
    case s: False
    obtain r bt2 where g: "getMaxKey depth bt = (r, bt2)"
      by (cases "getMaxKey depth bt")
    show ?thesis
    proof (cases r)
      case (Inl e)
      then show ?thesis
        using assms True s g by (auto simp: pk_value_def lastSeq_def)
    next
      case (Inr m)
      have "m < 4294967296"
        using getMaxKey_bound[of depth bt m] g Inr by simp
      then have "number_add (int m) 1 = int m + 1"
        by (intro number_add_exact) simp
      then show ?thesis
        using assms True s g Inr by (auto simp: pk_value_def lastSeq_def)
    qed
  qed
qed

lemma Table_insert_ok:
  assumes "Table_insert cv isint depth tb vals names = (Inr (), tb')"
    and "rowValues_of (columns (schema tb)) vals names = Inr rvs"
  shows "\<exists>row key bt1 data.
           build_row isint depth (seq (schema tb)) (zip (columns (schema tb)) rvs)
             Map.empty None (btree tb) = (Inr (row, Some key), bt1) \<and>
           serializeRow cv (columns (schema tb)) row = Inr data \<and>
           BTree_insert depth bt1 key data = (Inr (), btree tb')"
  using assms
  by (auto simp: Table_insert_def Let_def split: prod.splits sum.splits option.splits)

text \<open>
  Claim C4.  A table with one primary-key column, at position \<open>length pre\<close> of its schema,
  and a successful insert: the key given to the B-tree is \<open>key\<close>.  When the value for the
  primary-key column is absent or the marker \<open>NULL\<close>, \<open>key\<close> is the stored sequence
  counter plus one, the sum of two doubles, if the counter is set and not zero, and
  otherwise the largest key of the tree plus one, which is exact; the counter and the
  largest key are not compared.  When a value is supplied it is the number \<open>key\<close>.
\<close>

theorem Table_insert_assigned_key:
  assumes cols: "columns (schema tb) = pre @ pkc # post"
    and pk: "isPrimaryKey pkc"
    and others: "list_all (\<lambda>c. \<not> isPrimaryKey c) pre" "list_all (\<lambda>c. \<not> isPrimaryKey c) post"
    and rv: "rowValues_of (columns (schema tb)) vals names = Inr rvs"
    and ok: "Table_insert cv isint depth tb vals names = (Inr (), tb')"
  shows "\<exists>key data bt1.
           rootPageId bt1 = rootPageId (btree tb) \<and> unchanged (disk (btree tb)) (disk bt1) \<and>
           BTree_insert depth bt1 key data = (Inr (), btree tb') \<and>
           (if rvs ! length pre = None \<or> rvs ! length pre = Some (JStr NULL_marker)
            then (if seq (schema tb) \<noteq> None \<and> seq (schema tb) \<noteq> Some 0
                  then key = number_add (the (seq (schema tb))) 1
                  else \<exists>m. fst (getMaxKey depth (btree tb)) = Inr m \<and> key = int m + 1)
            else rvs ! length pre = Some (JNum key))"
proof -
  obtain row key bt1 data where
    b: "build_row isint depth (seq (schema tb)) (zip (columns (schema tb)) rvs)
             Map.empty None (btree tb) = (Inr (row, Some key), bt1)"
    and i: "BTree_insert depth bt1 key data = (Inr (), btree tb')"
    using Table_insert_ok[OF ok rv] by blast
  have len: "length rvs = length (pre @ pkc # post)"
    using rowValues_of_length[OF rv] cols by simp
  have z: "zip (columns (schema tb)) rvs =
           zip pre (take (length pre) rvs) @ (pkc, rvs ! length pre) #
           zip post (drop (Suc (length pre)) rvs)"
    unfolding cols using len by (rule zip_single)
  obtain val where p: "pk_value depth (seq (schema tb)) (rvs ! length pre) (btree tb) =
      (Inr (val, Some key), bt1)"
    using build_row_single_pk[OF list_all_zip_fst[OF others(1)] list_all_zip_fst[OF others(2)] pk
        b[unfolded z]] by blast
  have u: "rootPageId bt1 = rootPageId (btree tb)" "unchanged (disk (btree tb)) (disk bt1)"
    using build_row_unchanged[of isint depth "seq (schema tb)" "zip (columns (schema tb)) rvs"
        Map.empty None "btree tb"] b by simp_all
  have "if rvs ! length pre = None \<or> rvs ! length pre = Some (JStr NULL_marker)
            then (if seq (schema tb) \<noteq> None \<and> seq (schema tb) \<noteq> Some 0
                  then key = number_add (the (seq (schema tb))) 1
                  else \<exists>m. fst (getMaxKey depth (btree tb)) = Inr m \<and> key = int m + 1)
            else rvs ! length pre = Some (JNum key)"
    using pk_value_result[OF p] by simp
  then show ?thesis using u i by blast
qed

lemma getMaxKey_leaf:
  assumes "is_leaf (peek (disk t) (rootPageId t)) parent cs"
  shows "fst (getMaxKey (Suc depth) t) = Inr (if cs = [] then 0 else nat (fst (last cs)))"
proof -
  obtain d1 where r: "readPage (disk t) (rootPageId t) = (peek (disk t) (rootPageId t), d1)"
    by (rule readPage_cases)
  show ?thesis
    using is_leaf_reads(1,2)[OF assms] is_leaf_reads(6)[OF assms, of 0]
    by (auto simp: getMaxKey_def r)
qed

definition tree10 :: BTree where
  "tree10 = snd (BTree_insert 2 tree0 10 [])"

definition table10 :: Table where
  "table10 = \<lparr>tbl_name = ''t'',
              schema = \<lparr>ts_name = ''t'', columns = [intcol ''id'' True], pkColumn = ''id'',
                         seq = Some 1\<rparr>,
              btree = tree10\<rparr>"

lemma tree10_shape:
  "BTree_insert 2 tree0 10 [] = (Inr (), tree10) \<and> rootPageId tree10 = 1 \<and>
   maxPageId (disk tree10) = 1 \<and> (\<exists>parent. is_leaf (peek (disk tree10) 1) parent [(10, [])])"
proof -
  obtain parent where l: "is_leaf (peek (disk tree0) (rootPageId tree0)) parent []"
    using tree0_empty by (auto simp: empty_tree_def)
  have f: "fst (findLeafPage 2 (disk tree0) (rootPageId tree0) 10) = Inr (rootPageId tree0)"
    using findLeafPage_leaf[OF is_leaf_reads(1)[OF l], of "Suc 0" 10]
    by (simp add: eval_nat_numeral del: findLeafPage.simps)
  have "\<exists>t'. BTree_insert 2 tree0 10 [] = (Inr (), t') \<and>
           rootPageId t' = rootPageId tree0 \<and> maxPageId (disk t') = maxPageId (disk tree0) \<and>
           is_leaf (peek (disk t') (rootPageId tree0)) parent (leaf_insert 10 [] []) \<and>
           (\<forall>j. j \<noteq> rootPageId tree0 \<longrightarrow> peek (disk t') j = peek (disk tree0) j)"
    by (rule BTree_insert_fit[OF f l]) (simp_all add: tree0_empty HEADER_SIZE_def PAGE_SIZE_def)
  then show ?thesis
    using tree0_empty by (auto simp: tree10_def leaf_insert_def stored_def)
qed

lemma table10_single: "table10 = single_table (Some 1) tree10"
  by (simp add: table10_def single_table_def)

lemma table1_single: "table1 = single_table (Some 1) tree1"
  by (simp add: table1_def single_table_def)

lemma id_row_2: "number_add 1 1 = 2 \<and> id_row 2 = [0, 4, 0, 0, 0, 2]"
  by (simp add: number_add_exact id_row_def be16_def be32_def)

theorem Table_insert_assigned_key_witness:
  "\<exists>tb'. Table_insert conv0 (\<lambda>s. False) 2 table1 [JStr NULL_marker] None = (Inr (), tb') \<and>
     fst (getAll 2 (btree tb')) = Inr [(1, []), (2, [0, 4, 0, 0, 0, 2])] \<and>
     (\<exists>data bt1. BTree_insert 2 bt1 (number_add 1 1) data = (Inr (), btree tb') \<and>
        unchanged (disk (btree table1)) (disk bt1))"
proof -
  obtain parent where l: "is_leaf (peek (disk tree1) (rootPageId tree1)) parent [(1, [])]"
    using tree1_shape by auto
  have b: "build_row (\<lambda>s. False) 2 (Some 1) (zip [intcol ''id'' True] [Some (JStr NULL_marker)])
             Map.empty None tree1 = (Inr ([''id'' \<mapsto> JNum 2], Some 2), tree1)"
    using single_null[of 1 "\<lambda>s. False" 2 tree1] id_row_2 by simp
  obtain tb' where ok: "Table_insert conv0 (\<lambda>s. False) 2 table1 [JStr NULL_marker] None = (Inr (), tb')"
    and a: "fst (getAll 2 (btree tb')) = Inr (leaf_insert 2 (id_row 2) [(1, [])])"
    using Table_insert_single[OF l _ b] tree1_shape
    by (auto simp: table1_single single_table_def HEADER_SIZE_def PAGE_SIZE_def enc_cell_def)
  have li: "leaf_insert 2 (id_row 2) [(1, [])] = [(1, []), (2, [0, 4, 0, 0, 0, 2])]"
    using id_row_2 by (simp add: leaf_insert_def stored_def)
  have c: "columns (schema table1) = [] @ intcol ''id'' True # []"
    by (simp add: table1_def)
  have rv: "rowValues_of (columns (schema table1)) [JStr NULL_marker] None = Inr [Some (JStr NULL_marker)]"
    by (simp add: table1_def single_values)
  have "\<exists>data bt1. BTree_insert 2 bt1 (number_add 1 1) data = (Inr (), btree tb') \<and>
        unchanged (disk (btree table1)) (disk bt1)"
    using Table_insert_assigned_key[OF c _ _ _ rv ok]
    by (auto simp: intcol_def table1_def)
  then show ?thesis using ok a li by auto
qed

theorem Table_insert_assigned_key_counterexample:
  "seq (schema table10) = Some 1 \<and> fst (getMaxKey 2 (btree table10)) = Inr 10 \<and>
   fst (Table_insert conv0 (\<lambda>s. False) 2 table10 [JStr NULL_marker] None) = Inr () \<and>
   fst (getAll 2 (btree (snd (Table_insert conv0 (\<lambda>s. False) 2 table10 [JStr NULL_marker] None))))
     = Inr [(2, [0, 4, 0, 0, 0, 2]), (10, [])]"
proof -
  obtain parent where l: "is_leaf (peek (disk tree10) (rootPageId tree10)) parent [(10, [])]"
    using tree10_shape by auto
  have g: "fst (getMaxKey 2 tree10) = Inr 10"
    using getMaxKey_leaf[OF l, of "Suc 0"] by (simp add: eval_nat_numeral)
  have b: "build_row (\<lambda>s. False) 2 (Some 1) (zip [intcol ''id'' True] [Some (JStr NULL_marker)])
             Map.empty None tree10 = (Inr ([''id'' \<mapsto> JNum 2], Some 2), tree10)"
    using single_null[of 1 "\<lambda>s. False" 2 tree10] id_row_2 by simp
  obtain tb' where ok: "Table_insert conv0 (\<lambda>s. False) 2 table10 [JStr NULL_marker] None = (Inr (), tb')"
    and a: "fst (getAll 2 (btree tb')) = Inr (leaf_insert 2 (id_row 2) [(10, [])])"
    using Table_insert_single[OF l _ b] tree10_shape
    by (auto simp: table10_single single_table_def HEADER_SIZE_def PAGE_SIZE_def enc_cell_def)
  have "leaf_insert 2 (id_row 2) [(10, [])] = [(2, [0, 4, 0, 0, 0, 2]), (10, [])]"
    using id_row_2 by (simp add: leaf_insert_def stored_def)
  then show ?thesis
    using g ok a by (simp add: table10_def)
qed

text \<open>
  The sum is a sum of doubles.  With the counter at \<open>2^53\<close> the next key is \<open>2^53\<close> again,
  \<open>2^53 + 1\<close> not being a double; the cell is written with the key 0 and placed after the
  cell of key 1.
\<close>

lemma Table_insert_key_rounds:
  "fst (Table_insert conv0 (\<lambda>s. False) 2 (single_table (Some 9007199254740992) tree1)
          [JStr NULL_marker] None) = Inr () \<and>
   fst (getAll 2 (btree (snd (Table_insert conv0 (\<lambda>s. False) 2
          (single_table (Some 9007199254740992) tree1) [JStr NULL_marker] None))))
     = Inr [(1, []), (0, [0, 4, 0, 0, 0, 0])]"
proof -
  obtain parent where l: "is_leaf (peek (disk tree1) (rootPageId tree1)) parent [(1, [])]"
    using tree1_shape by auto
  have b: "build_row (\<lambda>s. False) 2 (Some 9007199254740992)
             (zip [intcol ''id'' True] [Some (JStr NULL_marker)]) Map.empty None tree1 =
           (Inr ([''id'' \<mapsto> JNum 9007199254740992], Some 9007199254740992), tree1)"
    using single_null[of 9007199254740992 "\<lambda>s. False" 2 tree1] number_add_rounds by simp
  obtain bt' where ok: "Table_insert conv0 (\<lambda>s. False) 2 (single_table (Some 9007199254740992) tree1)
         [JStr NULL_marker] None = (Inr (), single_table (Some 9007199254740992) bt')"
    and a: "fst (getAll 2 bt') =
              Inr (leaf_insert 9007199254740992 (id_row 9007199254740992) [(1, [])])"
    using Table_insert_single[OF l _ b] tree1_shape
    by (auto simp: HEADER_SIZE_def PAGE_SIZE_def enc_cell_def)
  have "leaf_insert 9007199254740992 (id_row 9007199254740992) [(1, [])] =
          [(1, []), (0, [0, 4, 0, 0, 0, 0])]"
    by (simp add: leaf_insert_def stored_def id_row_def be16_def be32_def)
  then show ?thesis
    using ok a by (simp add: single_table_def)
qed

section \<open>Rollback\<close>

text \<open>
  Inside a transaction page writes go to the transaction buffer, metadata writes to the
  metadata buffer and allocations only move the counter in memory; persistent storage is
  not touched.  \<open>tx_step\<close> is one such operation of the disk.
\<close>

inductive tx_step :: "VirtualDisk \<Rightarrow> VirtualDisk \<Rightarrow> bool" where
  tx_read: "tx_step d (snd (readPage d i))"
| tx_write: "tx_step d (writePage d i p)"
| tx_allocate: "tx_step d (snd (allocatePage d))"
| tx_meta: "tx_step d (setMetadata d k v)"

inductive tx_steps :: "VirtualDisk \<Rightarrow> VirtualDisk \<Rightarrow> bool" where
  tx_none: "tx_steps d d"
| tx_more: "tx_steps d d1 \<Longrightarrow> tx_step d1 d2 \<Longrightarrow> tx_steps d d2"

definition begin_allocate :: "error + VirtualDisk" where
  "begin_allocate = ebind (beginTransaction fresh_disk) (\<lambda>d. Inr (snd (allocatePage d)))"

definition begin_allocate_rollback :: "error + VirtualDisk" where
  "begin_allocate_rollback = ebind begin_allocate rollback"

lemma tx_step_storage:
  assumes "tx_step d d'" "transactionBuffer d \<noteq> None" "metaBuffer d \<noteq> None"
  shows "storage d' = storage d \<and> transactionBuffer d' \<noteq> None \<and> metaBuffer d' \<noteq> None"
  using assms
  by (induction rule: tx_step.induct)
     (auto simp: readPage_def writePage_def allocatePage_def setMetadata_def Let_def
        split: option.splits)

lemma tx_steps_storage:
  assumes "tx_steps d d'" "transactionBuffer d \<noteq> None" "metaBuffer d \<noteq> None"
  shows "storage d' = storage d \<and> transactionBuffer d' \<noteq> None \<and> metaBuffer d' \<noteq> None"
  using assms
proof (induction rule: tx_steps.induct)
  case (tx_none d)
  then show ?case by simp
next
  case (tx_more d d1 d2)
  then show ?case using tx_step_storage[of d1 d2] by auto
qed

lemma rollback_after_steps:
  assumes b: "beginTransaction d = Inr d0" and s: "tx_steps d0 d1"
  shows "\<exists>d'. rollback d1 = Inr d' \<and> storage d' = storage d \<and>
           transactionBuffer d' = None \<and> metaBuffer d' = None \<and> pages d' = Map.empty \<and>
           maxPageId d' = (case ls_maxPageId (storage d) of None \<Rightarrow> maxPageId d1 | Some m \<Rightarrow> m)"
proof -
  have d0: "storage d0 = storage d" "transactionBuffer d0 \<noteq> None" "metaBuffer d0 \<noteq> None"
    using b by (auto simp: beginTransaction_def split: if_splits)
  have d1: "storage d1 = storage d" "transactionBuffer d1 \<noteq> None"
    using tx_steps_storage[OF s d0(2,3)] d0(1) by simp_all
  show ?thesis
    using d1 by (auto simp: rollback_def load_def split: option.splits)
qed

text \<open>
  Claim C3.  On a disk over an empty \<open>localStorage\<close> nothing is persisted and the page
  counter is 0.  \<open>beginTransaction\<close>, one \<open>allocatePage\<close> and \<open>rollback\<close> all succeed; the
  transaction is closed, but the page counter is 1 and not 0: \<open>load\<close> finds no persisted
  counter and keeps the one in memory, so the allocation made in the transaction is not
  undone.
\<close>

theorem rollback_keeps_allocation:
  "maxPageId fresh_disk = 0 \<and> ls_maxPageId (storage fresh_disk) = None \<and>
   map_sum id maxPageId begin_allocate = Inr 1 \<and>
   map_sum id in_tx begin_allocate = Inr True \<and>
   map_sum id maxPageId begin_allocate_rollback = Inr 1 \<and>
   map_sum id in_tx begin_allocate_rollback = Inr False \<and>
   map_sum id storage begin_allocate_rollback = Inr (storage fresh_disk)"
  by (simp add: begin_allocate_rollback_def begin_allocate_def fresh_disk_def new_VirtualDisk_def
      load_def beginTransaction_def allocatePage_def rollback_def in_tx_def Let_def)

end
